(* ===== verification/Prelude.thy ===== *)
theory Prelude
  imports Main "HOL-Library.Word" "HOL-Library.AList" "HOL-Library.Sublist"
begin

text \<open>
  The vocabulary shared by every component of the tokimo-bus development:
  \<^item> machine integers (\<open>u8\<close> \dots \<open>u64\<close>) and \<open>std::time::Duration\<close>, with its order as
    an instance of the library's \<open>linorder\<close> (the code takes \<open>min\<close> of durations and compares them);
  \<^item> hash maps (\<open>DashMap\<close>, \<open>HashMap\<close>) as association lists, whose list order stands for the
    iteration order the Rust maps leave open, and the contract \<open>keyed_map\<close> the components use them by;
  \<^item> the string operations of \<open>core::str\<close> the code calls: \<open>starts_with\<close>, \<open>strip_prefix\<close>,
    \<open>split_once\<close>, \<open>contains\<close>, decimal printing and \<open>parse::<u64>\<close>, zero-padded hexadecimal;
  \<^item> the interfaces of transition systems: \<open>step_system\<close> and \<open>guarded_system\<close>, a predicate that every
    step keeps and so every reachable state has; \<open>metered_system\<close>, a quantity bounded by what the
    actions add to it; \<open>budgeted_system\<close>, a quantity that steps spend from an allowance.
\<close>

named_theorems dm_simps
named_theorems str_simps

section \<open>Definitions\<close>

subsection \<open>Machine integers and durations\<close>

type_synonym u8 = "8 word"
type_synonym u16 = "16 word"
type_synonym u32 = "32 word"
type_synonym u64 = "64 word"

text \<open>A \<open>Duration\<close> is a number of nanoseconds; \<open>Instant\<close>s are nanoseconds from a fixed origin.\<close>

datatype duration = Duration (as_nanos: nat)

type_synonym instant = nat

instantiation duration :: linorder
begin

definition less_eq_duration :: "duration \<Rightarrow> duration \<Rightarrow> bool" where
  "less_eq_duration a b \<longleftrightarrow> as_nanos a \<le> as_nanos b"

definition less_duration :: "duration \<Rightarrow> duration \<Rightarrow> bool" where
  "less_duration a b \<longleftrightarrow> as_nanos a < as_nanos b"

instance
  by standard (auto simp: less_eq_duration_def less_duration_def intro: duration.expand)

end

definition duration_from_secs :: "nat \<Rightarrow> duration" where
  "duration_from_secs s = Duration (s * 1000000000)"

definition duration_from_millis :: "nat \<Rightarrow> duration" where
  "duration_from_millis ms = Duration (ms * 1000000)"

text \<open>\<open>Duration::as_millis\<close> is a \<open>u128\<close>; the code casts it \<open>as u64\<close>, which truncates.\<close>

definition as_millis :: "duration \<Rightarrow> nat" where
  "as_millis d = as_nanos d div 1000000"

definition as_millis_u64 :: "duration \<Rightarrow> u64" where
  "as_millis_u64 d = word_of_nat (as_millis d)"

definition duration_is_zero :: "duration \<Rightarrow> bool" where
  "duration_is_zero d \<longleftrightarrow> as_nanos d = 0"

definition duration_mul :: "duration \<Rightarrow> nat \<Rightarrow> duration" where
  "duration_mul d k = Duration (as_nanos d * k)"

definition duration_div :: "duration \<Rightarrow> nat \<Rightarrow> duration" where
  "duration_div d k = Duration (as_nanos d div k)"

subsection \<open>Hash maps\<close>

type_synonym ('k, 'v) dashmap = "('k \<times> 'v) list"

definition dm_get :: "('k, 'v) dashmap \<Rightarrow> 'k \<Rightarrow> 'v option" where
  "dm_get m k = map_of m k"

definition dm_insert :: "'k \<Rightarrow> 'v \<Rightarrow> ('k, 'v) dashmap \<Rightarrow> ('k, 'v) dashmap" where
  "dm_insert k v m = AList.update k v m"

definition dm_remove :: "'k \<Rightarrow> ('k, 'v) dashmap \<Rightarrow> ('k, 'v) dashmap" where
  "dm_remove k m = AList.delete k m"

definition dm_contains_key :: "('k, 'v) dashmap \<Rightarrow> 'k \<Rightarrow> bool" where
  "dm_contains_key m k \<longleftrightarrow> dm_get m k \<noteq> None"

definition dm_keys :: "('k, 'v) dashmap \<Rightarrow> 'k list" where
  "dm_keys m = map fst m"

text \<open>Every map the code builds has one entry per key.\<close>

definition dm_wf :: "('k, 'v) dashmap \<Rightarrow> bool" where
  "dm_wf m \<longleftrightarrow> distinct (dm_keys m)"

subsection \<open>Strings\<close>

fun starts_with :: "'a list \<Rightarrow> 'a list \<Rightarrow> bool" where
  "starts_with s [] = True"
| "starts_with [] (p # ps) = False"
| "starts_with (c # s) (p # ps) = (c = p \<and> starts_with s ps)"

definition strip_prefix :: "string \<Rightarrow> string \<Rightarrow> string option" where
  "strip_prefix s p = (if starts_with s p then Some (drop (length p) s) else None)"

fun str_contains :: "'a list \<Rightarrow> 'a list \<Rightarrow> bool" where
  "str_contains [] p = (p = [])"
| "str_contains (c # s) p = (starts_with (c # s) p \<or> str_contains s p)"

text \<open>\<open>str::split_once\<close> splits at the first occurrence of the character.\<close>

fun split_once :: "string \<Rightarrow> char \<Rightarrow> (string \<times> string) option" where
  "split_once [] d = None"
| "split_once (c # s) d =
     (if c = d then Some ([], s)
      else map_option (\<lambda>(a, b). (c # a, b)) (split_once s d))"

definition digit_char :: "nat \<Rightarrow> char" where
  "digit_char d = (if d < 10 then char_of (48 + d) else char_of (87 + d))"

text \<open>Digits in a base, most significant first; \<open>{}\<close> prints in base 10, \<open>{:x}\<close> in base 16.\<close>

function show_base :: "nat \<Rightarrow> nat \<Rightarrow> string" where
  "show_base b n =
     (if b \<le> 1 \<or> n < b then [digit_char n] else show_base b (n div b) @ [digit_char (n mod b)])"
  by pat_completeness auto
termination
  by (relation "measure snd") auto

definition show_nat :: "nat \<Rightarrow> string" where
  "show_nat n = show_base 10 n"

definition pad_left :: "nat \<Rightarrow> char \<Rightarrow> string \<Rightarrow> string" where
  "pad_left w c s = replicate (w - length s) c @ s"

definition show_hex_padded :: "nat \<Rightarrow> nat \<Rightarrow> string" where
  "show_hex_padded w n = pad_left w (CHR ''0'') (show_base 16 n)"

definition digit_val :: "char \<Rightarrow> nat option" where
  "digit_val c =
     (if 48 \<le> (of_char c :: nat) \<and> (of_char c :: nat) \<le> 57 then Some (of_char c - 48) else None)"

text \<open>
  The loop of \<open>u64::from_str\<close>: each digit by a checked multiplication and a checked addition;
  an overflow or a character that is no digit makes the whole parse fail.
\<close>

fun parse_digits :: "nat \<Rightarrow> string \<Rightarrow> nat option" where
  "parse_digits acc [] = Some acc"
| "parse_digits acc (c # s) =
     (case digit_val c of
        None \<Rightarrow> None
      | Some d \<Rightarrow> if acc * 10 + d < 2 ^ 64 then parse_digits (acc * 10 + d) s else None)"

definition parse_u64 :: "string \<Rightarrow> u64 option" where
  "parse_u64 s =
     (case s of
        [] \<Rightarrow> None
      | c # t \<Rightarrow>
          (if c = CHR ''+'' then (if t = [] then None else map_option word_of_nat (parse_digits 0 t))
           else map_option word_of_nat (parse_digits 0 s)))"

text \<open>Reading digits back: \<open>digit_of\<close> inverts \<open>digit_char\<close> on the digits of base 16.\<close>

definition digit_of :: "char \<Rightarrow> nat" where
  "digit_of c = (if (of_char c :: nat) \<le> 57 then of_char c - 48 else of_char c - 87)"

definition read_hex :: "string \<Rightarrow> nat" where
  "read_hex s = foldl (\<lambda>acc c. acc * 16 + digit_of c) 0 s"

section \<open>Interfaces\<close>

text \<open>What the components rely on of a map: the laws of lookup, insertion and removal.\<close>

locale keyed_map =
  fixes get :: "'m \<Rightarrow> 'k \<Rightarrow> 'v option"
    and insert_kv :: "'k \<Rightarrow> 'v \<Rightarrow> 'm \<Rightarrow> 'm"
    and remove_k :: "'k \<Rightarrow> 'm \<Rightarrow> 'm"
  assumes get_insert: "get (insert_kv k v m) j = (if j = k then Some v else get m j)"
    and get_remove: "get (remove_k k m) j = (if j = k then None else get m j)"
begin

lemma insert_then_remove: "get (remove_k k (insert_kv k v m)) j = get (remove_k k m) j"
  by (simp add: get_insert get_remove)

lemma remove_absent: "get m k = None \<Longrightarrow> get (remove_k k m) = get m"
  by (rule ext) (simp add: get_remove)

lemma insert_commute:
  "j \<noteq> k \<Longrightarrow> get (insert_kv j v (insert_kv k w m)) = get (insert_kv k w (insert_kv j v m))"
  by (rule ext) (auto simp: get_insert)

end

text \<open>
  A state machine with a guarded step function: \<open>exec a s\<close> is \<open>None\<close> where action \<open>a\<close> is not
  enabled. A predicate that holds at the start and that each enabled action keeps holds after
  every run; \<open>inv\<close> may count the steps taken, which bounds the counters of the state.
\<close>

fun run_actions :: "('a \<Rightarrow> 's \<Rightarrow> 's option) \<Rightarrow> 'a list \<Rightarrow> 's \<Rightarrow> 's option" where
  "run_actions exec [] s = Some s"
| "run_actions exec (a # as) s =
     (case exec a s of None \<Rightarrow> None | Some s' \<Rightarrow> run_actions exec as s')"

lemma run_append: "run_actions exec (as @ bs) s = Option.bind (run_actions exec as s) (run_actions exec bs)"
  by (induction as arbitrary: s) (auto split: option.splits)

locale step_system =
  fixes exec :: "'a \<Rightarrow> 's \<Rightarrow> 's option"
    and inv :: "nat \<Rightarrow> 's \<Rightarrow> bool"
    and horizon :: nat
  assumes inv_exec: "inv n s \<Longrightarrow> n < horizon \<Longrightarrow> exec a s = Some s' \<Longrightarrow> inv (Suc n) s'"
begin

lemma inv_from:
  "inv n s \<Longrightarrow> n + length as \<le> horizon \<Longrightarrow> run_actions exec as s = Some s' \<Longrightarrow> inv (n + length as) s'"
proof (induction as arbitrary: n s)
  case Nil
  then show ?case by simp
next
  case (Cons a as)
  from Cons.prems(3) obtain t where t: "exec a s = Some t" "run_actions exec as t = Some s'"
    by (auto split: option.splits)
  have "inv (Suc n) t"
    using inv_exec [OF Cons.prems(1) _ t(1)] Cons.prems(2) by simp
  with Cons.IH [of "Suc n" t] Cons.prems(2) t(2) show ?case by simp
qed

end

locale guarded_system = step_system exec inv horizon
  for exec :: "'a \<Rightarrow> 's \<Rightarrow> 's option" and inv :: "nat \<Rightarrow> 's \<Rightarrow> bool" and horizon :: nat +
  fixes init :: 's
  assumes inv_init: "inv 0 init"
begin

lemma inv_run:
  "length as \<le> horizon \<Longrightarrow> run_actions exec as init = Some s \<Longrightarrow> inv (length as) s"
  using inv_from [OF inv_init, of as s] by simp

end

text \<open>
  A resource account of a guarded step function: an action may raise \<open>level\<close> by at most its
  \<open>cost\<close>, so after a run the level is at most what the run has paid.
\<close>

locale metered_system =
  fixes exec :: "'a \<Rightarrow> 's \<Rightarrow> 's option"
    and cost :: "'a \<Rightarrow> nat"
    and level :: "'s \<Rightarrow> nat"
  assumes level_exec: "exec a s = Some s' \<Longrightarrow> level s' \<le> level s + cost a"
begin

lemma level_run:
  "run_actions exec as s = Some s' \<Longrightarrow> level s' \<le> level s + sum_list (map cost as)"
proof (induction as arbitrary: s)
  case Nil
  then show ?case by simp
next
  case (Cons a as)
  then obtain t where t: "exec a s = Some t" "run_actions exec as t = Some s'"
    by (auto split: option.splits)
  with Cons.IH [of t] level_exec [of a s t] show ?case by simp
qed

end

text \<open>
  What a run spends, when an action spends an amount that its state determines: along a run within the
  horizon it is bounded by the allowance of the first state.
\<close>

fun spent :: "('a \<Rightarrow> 's \<Rightarrow> 's \<Rightarrow> nat) \<Rightarrow> ('a \<Rightarrow> 's \<Rightarrow> 's option) \<Rightarrow> 'a list \<Rightarrow> 's \<Rightarrow> nat" where
  "spent spend exec [] s = 0"
| "spent spend exec (a # as) s =
     (case exec a s of None \<Rightarrow> 0 | Some t \<Rightarrow> spend a s t + spent spend exec as t)"

locale budgeted_system = step_system exec inv horizon
  for exec :: "'a \<Rightarrow> 's \<Rightarrow> 's option" and inv :: "nat \<Rightarrow> 's \<Rightarrow> bool" and horizon :: nat +
  fixes spend :: "'a \<Rightarrow> 's \<Rightarrow> 's \<Rightarrow> nat"
    and allowance :: "'s \<Rightarrow> nat"
  assumes allowance_exec: "inv n s \<Longrightarrow> n < horizon \<Longrightarrow> exec a s = Some t \<Longrightarrow> allowance t + spend a s t \<le> allowance s"
begin

lemma spent_run:
  "inv n s \<Longrightarrow> n + length as \<le> horizon \<Longrightarrow> spent spend exec as s \<le> allowance s"
proof (induction as arbitrary: n s)
  case Nil
  then show ?case by simp
next
  case (Cons a as)
  show ?case
  proof (cases "exec a s")
    case (Some t)
    have "inv (Suc n) t" "allowance t + spend a s t \<le> allowance s"
      using inv_exec allowance_exec Cons.prems Some by auto
    moreover have "spent spend exec as t \<le> allowance t"
      using Cons.IH [of "Suc n" t] calculation(1) Cons.prems(2) by simp
    ultimately show ?thesis using Some by simp
  qed simp
qed

end

text \<open>
  A retry loop with fuel: attempt \<open>n\<close> either stops the loop with a result or leads to attempt
  \<open>n + 1\<close>. With fuel for every attempt up to one that stops, the loop returns the result of the
  first attempt that stops.
\<close>

locale retry_loop =
  fixes loop :: "nat \<Rightarrow> nat \<Rightarrow> 'r option"
    and stops :: "nat \<Rightarrow> bool"
    and outcome :: "nat \<Rightarrow> 'r"
  assumes loop_no_fuel: "loop 0 n = None"
    and loop_step: "loop (Suc f) n = (if stops n then Some (outcome n) else loop f (Suc n))"
begin

lemma loop_returns:
  "stops m \<Longrightarrow> n \<le> m \<Longrightarrow> m < n + f \<Longrightarrow>
   \<exists>j. n \<le> j \<and> j \<le> m \<and> stops j \<and> (\<forall>i. n \<le> i \<and> i < j \<longrightarrow> \<not> stops i) \<and> loop f n = Some (outcome j)"
proof (induction f arbitrary: n)
  case 0
  then show ?case by simp
next
  case (Suc f)
  show ?case
  proof (cases "stops n")
    case True
    with Suc.prems show ?thesis by (intro exI [of _ n]) (auto simp: loop_step)
  next
    case False
    with Suc.prems have "Suc n \<le> m" by (metis le_neq_implies_less Suc_leI)
    with Suc.IH [of "Suc n"] Suc.prems obtain j where j: "Suc n \<le> j" "j \<le> m" "stops j"
      "\<forall>i. Suc n \<le> i \<and> i < j \<longrightarrow> \<not> stops i" "loop f (Suc n) = Some (outcome j)" by auto
    moreover have "\<forall>i. n \<le> i \<and> i < j \<longrightarrow> \<not> stops i" using j(4) False by (metis le_neq_implies_less Suc_leI)
    ultimately show ?thesis using False by (intro exI [of _ j]) (simp add: loop_step)
  qed
qed

end

section \<open>Lemmas\<close>

subsection \<open>Durations\<close>

lemma duration_le_iff [simp]: "Duration a \<le> Duration b \<longleftrightarrow> a \<le> b"
  by (simp add: less_eq_duration_def)

lemma duration_less_iff [simp]: "Duration a < Duration b \<longleftrightarrow> a < b"
  by (simp add: less_duration_def)

lemma min_duration [simp]: "min (Duration a) (Duration b) = Duration (min a b)"
  by (simp add: min_def)

lemma as_millis_from_millis [simp]: "as_millis (duration_from_millis ms) = ms"
  by (simp add: as_millis_def duration_from_millis_def)

subsection \<open>Words\<close>

lemma unat_word_of_nat_u64 [simp]: "n < 2 ^ 64 \<Longrightarrow> unat (word_of_nat n :: u64) = n"
  by (simp add: unat_of_nat)

lemma word_of_nat_inj_u64:
  "m < 2 ^ 64 \<Longrightarrow> n < 2 ^ 64 \<Longrightarrow> (word_of_nat m :: u64) = word_of_nat n \<Longrightarrow> m = n"
  by (metis unat_word_of_nat_u64)

lemma unat_Suc_u64: "unat (w :: u64) < 2 ^ 64 - 1 \<Longrightarrow> unat (w + 1) = unat w + 1"
  by (simp add: unat_word_ariths)

subsection \<open>Hash maps\<close>

lemma dm_get_Nil [simp]: "dm_get [] k = None"
  by (simp add: dm_get_def)

lemma dm_get_insert [simp, dm_simps]: "dm_get (dm_insert k v m) j = (if j = k then Some v else dm_get m j)"
  by (simp add: dm_get_def dm_insert_def update_conv)

lemma dm_get_remove [simp, dm_simps]: "dm_get (dm_remove k m) j = (if j = k then None else dm_get m j)"
  by (simp add: dm_get_def dm_remove_def delete_conv)

interpretation dm: keyed_map dm_get dm_insert dm_remove
  by unfold_locales simp_all

lemma dm_contains_insert [dm_simps]: "dm_contains_key (dm_insert k v m) j \<longleftrightarrow> j = k \<or> dm_contains_key m j"
  by (simp add: dm_contains_key_def)

lemma dm_contains_remove [dm_simps]: "dm_contains_key (dm_remove k m) j \<longleftrightarrow> j \<noteq> k \<and> dm_contains_key m j"
  by (simp add: dm_contains_key_def)

lemma dm_wf_Nil [simp]: "dm_wf []"
  by (simp add: dm_wf_def dm_keys_def)

lemma dm_wf_insert [simp]: "dm_wf m \<Longrightarrow> dm_wf (dm_insert k v m)"
  by (simp add: dm_wf_def dm_keys_def dm_insert_def distinct_update)

lemma dm_wf_remove [simp]: "dm_wf m \<Longrightarrow> dm_wf (dm_remove k m)"
  by (simp add: dm_wf_def dm_keys_def dm_remove_def distinct_delete)

lemma dm_in_set_iff: "dm_wf m \<Longrightarrow> (k, v) \<in> set m \<longleftrightarrow> dm_get m k = Some v"
  by (auto simp: dm_wf_def dm_keys_def dm_get_def dest: map_of_SomeD)

lemma dm_get_in_set: "dm_get m k = Some v \<Longrightarrow> (k, v) \<in> set m"
  by (simp add: dm_get_def map_of_SomeD)

lemma dm_keys_iff: "k \<in> set (dm_keys m) \<longleftrightarrow> dm_get m k \<noteq> None"
  by (auto simp: dm_keys_def dm_get_def map_of_eq_None_iff)

subsection \<open>Strings\<close>

lemma starts_with_iff_prefix [str_simps]: "starts_with s p \<longleftrightarrow> prefix p s"
  by (induction s p rule: starts_with.induct) auto

lemma starts_with_append [simp]: "starts_with (p @ s) p"
  by (simp add: starts_with_iff_prefix)

lemma strip_prefix_append [simp]: "strip_prefix (p @ s) p = Some s"
  by (simp add: strip_prefix_def)

lemma strip_prefix_Some: "strip_prefix s p = Some t \<longleftrightarrow> s = p @ t"
  by (auto simp: strip_prefix_def starts_with_iff_prefix prefix_def)

lemma str_contains_iff: "str_contains s p \<longleftrightarrow> sublist p s"
proof (induction s)
  case Nil
  show ?case by simp
next
  case (Cons c s)
  then show ?case by (auto simp: starts_with_iff_prefix sublist_Cons_right)
qed

lemma split_once_None: "split_once s d = None \<longleftrightarrow> d \<notin> set s"
  by (induction s) auto

lemma split_once_Some:
  "split_once s d = Some (a, b) \<longleftrightarrow> s = a @ d # b \<and> d \<notin> set a"
proof (induction s arbitrary: a)
  case Nil
  show ?case by simp
next
  case (Cons c s)
  show ?case
  proof (cases a)
    case Nil
    then show ?thesis by auto
  next
    case (Cons x xs)
    with Cons.IH [of xs] show ?thesis by auto
  qed
qed

lemma split_once_append [simp]: "d \<notin> set a \<Longrightarrow> split_once (a @ d # b) d = Some (a, b)"
  by (simp add: split_once_Some)

subsection \<open>Decimal printing and parsing\<close>

declare show_base.simps [simp del]

lemma digit_val_digit_char [simp]: "d < 10 \<Longrightarrow> digit_val (digit_char d) = Some d"
  by (simp add: digit_val_def digit_char_def)

lemma parse_digits_append:
  "parse_digits acc (s @ t) = Option.bind (parse_digits acc s) (\<lambda>a. parse_digits a t)"
  by (induction acc s rule: parse_digits.induct) (auto split: option.splits)

lemma parse_digits_show: "n < 2 ^ 64 \<Longrightarrow> parse_digits 0 (show_base 10 n) = Some n"
proof (induction "10::nat" n rule: show_base.induct)
  case (1 n)
  show ?case
  proof (cases "n < 10")
    case True
    then show ?thesis by (simp add: show_base.simps [of 10 n])
  next
    case False
    have "n div 10 < 2 ^ 64" using 1(2) by linarith
    with False 1(1) have "parse_digits 0 (show_base 10 (n div 10)) = Some (n div 10)" by simp
    moreover have "n div 10 * 10 + n mod 10 = n" by (rule div_mult_mod_eq)
    ultimately show ?thesis
      using False 1(2) by (simp add: show_base.simps [of 10 n] parse_digits_append)
  qed
qed

lemma show_base_no_plus: "\<exists>c s. show_base 10 n = c # s \<and> c \<noteq> CHR ''+''"
proof (induction "10::nat" n rule: show_base.induct)
  case (1 n)
  have d: "d < 10 \<Longrightarrow> digit_char d \<noteq> CHR ''+''" for d
  proof
      assume "d < 10" "digit_char d = CHR ''+''"
      then have "digit_val (CHR ''+'') = Some d" using digit_val_digit_char [of d] by simp
      then show False by (simp add: digit_val_def)
    qed
  show ?case
  proof (cases "n < 10")
    case True
    with d show ?thesis by (simp add: show_base.simps [of 10 n])
  next
    case False
    with 1 obtain c s where "show_base 10 (n div 10) = c # s" "c \<noteq> CHR ''+''" by auto
    with False show ?thesis by (simp add: show_base.simps [of 10 n])
  qed
qed

lemma parse_u64_show_nat: "n < 2 ^ 64 \<Longrightarrow> parse_u64 (show_nat n) = Some (word_of_nat n)"
proof -
  assume n: "n < 2 ^ 64"
  obtain c s where "show_base 10 n = c # s" "c \<noteq> CHR ''+''"
    using show_base_no_plus by blast
  with parse_digits_show [OF n] show ?thesis
    by (simp add: parse_u64_def show_nat_def)
qed

subsection \<open>Hexadecimal printing\<close>

lemma digit_of_digit_char [simp]: "d < 16 \<Longrightarrow> digit_of (digit_char d) = d"
  by (simp add: digit_of_def digit_char_def)

lemma read_hex_show: "read_hex (show_base 16 n) = n"
proof (induction "16::nat" n rule: show_base.induct)
  case (1 n)
  then show ?case
    by (cases "n < 16") (simp_all add: show_base.simps [of 16 n] read_hex_def)
qed

lemma read_hex_zeros: "read_hex (replicate k (CHR ''0'') @ s) = read_hex s"
proof -
  have "foldl (\<lambda>acc c. acc * 16 + digit_of c) 0 (replicate k (CHR ''0'')) = 0"
    by (induction k) (simp_all add: digit_of_def)
  then show ?thesis by (simp add: read_hex_def)
qed

lemma show_hex_padded_inj: "show_hex_padded w m = show_hex_padded w n \<Longrightarrow> m = n"
  by (metis show_hex_padded_def pad_left_def read_hex_zeros read_hex_show)

lemma length_show_base: "n < 16 ^ w \<Longrightarrow> 0 < w \<Longrightarrow> length (show_base 16 n) \<le> w"
proof (induction "16::nat" n arbitrary: w rule: show_base.induct)
  case (1 n)
  show ?case
  proof (cases "n < 16")
    case True
    with 1(3) show ?thesis by (simp add: show_base.simps [of 16 n])
  next
    case False
    obtain v where w: "w = Suc v" using 1(3) by (cases w) auto
    with 1(2) have v: "n div 16 < 16 ^ v" by (simp add: less_mult_imp_div_less mult.commute)
    have "0 < v" using 1(2) False w by (cases v) auto
    with v 1(1) False have "length (show_base 16 (n div 16)) \<le> v" by simp
    with w False show ?thesis by (simp add: show_base.simps [of 16 n])
  qed
qed

lemma length_show_hex_padded: "n < 16 ^ w \<Longrightarrow> 0 < w \<Longrightarrow> length (show_hex_padded w n) = w"
  using length_show_base [of n w] by (simp add: show_hex_padded_def pad_left_def)

subsection \<open>Lists\<close>

lemma concat_map_single:
  "distinct ts \<Longrightarrow> (\<And>t. t \<in> set ts \<Longrightarrow> t \<noteq> a \<Longrightarrow> g t = []) \<Longrightarrow>
   concat (map g ts) = (if a \<in> set ts then g a else [])"
  by (induction ts) auto

subsection \<open>Clocks\<close>

text \<open>A clock that advances by at least \<open>gap\<close> between two readings passes every deadline.\<close>

lemma clock_after:
  assumes "\<And>n. clock n + gap n \<le> clock (Suc n)"
  shows "clock 0 + (\<Sum>i<n. gap i) \<le> (clock n :: nat)"
proof (induction n)
  case (Suc n)
  then show ?case using assms [of n] by simp
qed simp

lemma clock_linear:
  assumes "\<And>n. clock n + g \<le> clock (Suc n)"
  shows "clock 0 + n * g \<le> (clock n :: nat)"
  using clock_after [of clock "\<lambda>_. g" n] assms by simp

end
