(* ===== verification/Frames.thy ===== *)
theory Frames
  imports Prelude
begin

text \<open>
  The wire types of \<open>crates/protocol/src/frame.rs\<close>: one record per struct, one datatype per
  enum, with the source's fields and variants in the source's order (a field carries a prefix
  that abbreviates its struct, because record fields are global constants). The \<open>Display\<close> texts
  of \<open>BusError\<close> and the serde helper for \<open>heartbeat_interval\<close> are functions.
\<close>

section \<open>Definitions\<close>

type_synonym bytes = "u8 list"

record protocol_version =
  pv_major :: u16
  pv_minor :: u16

definition PROTOCOL_CURRENT :: protocol_version where
  "PROTOCOL_CURRENT = \<lparr>pv_major = 1, pv_minor = 0\<rparr>"

datatype http_method = Get | Post | Put | Patch | Delete

record method_decl =
  md_name :: string
  md_requires_auth :: bool
  md_streaming :: bool
  md_http_method :: http_method
  md_path :: "string option"
  md_description :: "string option"

datatype data_plane_socket =
    UnixSock string
  | NamedPipe string

fun display_name :: "data_plane_socket \<Rightarrow> string" where
  "display_name (UnixSock p) = p"
| "display_name (NamedPipe n) = ''pipe://'' @ n"

record hello_request =
  hr_protocol :: protocol_version
  hr_service :: string
  hr_version :: string
  hr_pid :: u32
  hr_auth_token :: string
  hr_methods :: "method_decl list"
  hr_events :: "string list"
  hr_data_plane :: "data_plane_socket option"

record hello_ack =
  ha_client_id :: u64
  ha_heartbeat_interval :: duration

record caller_ctx =
  cc_user_id :: "string option"
  cc_request_id :: string
  cc_workspace :: "string option"
  cc_caller_app_id :: "string option"

definition caller_ctx_default :: caller_ctx where
  "caller_ctx_default =
     \<lparr>cc_user_id = None, cc_request_id = '''', cc_workspace = None, cc_caller_app_id = None\<rparr>"

datatype bus_error =
    Io string
  | Codec string
  | FrameTooLarge u64 u32
  | ConnectionClosed
  | ProtocolMismatch protocol_version protocol_version
  | InvalidAuthToken
  | ServiceNotFound string
  | MethodNotFound string string
  | Unauthorized string string
  | Timeout u64
  | BadRequest string
  | Internal string
  | App string

type_synonym 'a bus_result = "bus_error + 'a"

record invoke =
  inv_req_id :: u64
  inv_method :: string
  inv_payload :: bytes
  inv_caller :: caller_ctx

record response =
  rsp_req_id :: u64
  rsp_result :: "bytes bus_result"

record stream_open =
  so_req_id :: u64
  so_method :: string
  so_caller :: caller_ctx
  so_initial :: bytes

record stream_chunk =
  sk_req_id :: u64
  sk_data :: bytes

record stream_close =
  sl_req_id :: u64
  sl_error :: "bus_error option"

record event =
  ev_topic :: string
  ev_payload :: bytes
  ev_from :: "string option"

datatype bus_frame =
    Hello hello_request
  | HelloAck hello_ack
  | Ping
  | Pong
  | Shutdown
  | Invoke invoke
  | Response response
  | StreamOpen stream_open
  | StreamChunk stream_chunk
  | StreamClose stream_close
  | Publish event
  | Subscribe string
  | Unsubscribe string
  | Event event

subsection \<open>Display texts\<close>

text \<open>The derived \<open>Debug\<close> text of a version, as \<open>{broker:?}\<close> prints it.\<close>

definition protocol_version_debug :: "protocol_version \<Rightarrow> string" where
  "protocol_version_debug v =
     ''ProtocolVersion { major: '' @ show_nat (unat (pv_major v)) @ '', minor: ''
       @ show_nat (unat (pv_minor v)) @ '' }''"

definition backtick :: string where
  "backtick = [CHR 0x60]"

fun bus_error_display :: "bus_error \<Rightarrow> string" where
  "bus_error_display (Io m) = ''I/O error: '' @ m"
| "bus_error_display (Codec m) = ''codec: '' @ m"
| "bus_error_display (FrameTooLarge n m) =
     ''frame too large: '' @ show_nat (unat n) @ '' bytes > '' @ show_nat (unat m)"
| "bus_error_display ConnectionClosed = ''connection closed''"
| "bus_error_display (ProtocolMismatch b c) =
     ''protocol mismatch: broker='' @ protocol_version_debug b @ '', client='' @ protocol_version_debug c"
| "bus_error_display InvalidAuthToken = ''invalid spawn token''"
| "bus_error_display (ServiceNotFound s) = ''service '' @ backtick @ s @ backtick @ '' not registered''"
| "bus_error_display (MethodNotFound s m) =
     ''method '' @ backtick @ s @ ''.'' @ m @ backtick @ '' not found''"
| "bus_error_display (Unauthorized s m) =
     ''method '' @ backtick @ s @ ''.'' @ m @ backtick @ '' requires authentication''"
| "bus_error_display (Timeout ms) = ''call timed out after '' @ show_nat (unat ms) @ '' ms''"
| "bus_error_display (BadRequest m) = ''bad request: '' @ m"
| "bus_error_display (Internal m) = ''internal error: '' @ m"
| "bus_error_display (App m) = ''app error: '' @ m"

subsection \<open>I/O errors\<close>

text \<open>\<open>std::io::Error\<close>: its kind and its \<open>Display\<close> text; \<open>From\<close> keeps the text only.\<close>

datatype io_kind =
    UnexpectedEof | ConnectionRefused | NotFound | Unsupported | InvalidInput | PipeBusy | OtherKind

record io_error =
  io_kind_of :: io_kind
  io_text :: string

definition bus_error_of_io :: "io_error \<Rightarrow> bus_error" where
  "bus_error_of_io e = Io (io_text e)"

subsection \<open>The millisecond encoding of durations\<close>

definition serialize_duration :: "duration \<Rightarrow> u64" where
  "serialize_duration d = as_millis_u64 d"

definition deserialize_duration :: "u64 \<Rightarrow> duration" where
  "deserialize_duration ms = duration_from_millis (unat ms)"

section \<open>Lemmas\<close>

lemma deserialize_serialize_mod:
  "as_nanos (deserialize_duration (serialize_duration d)) = (as_millis d mod 2 ^ 64) * 1000000"
  by (simp add: deserialize_duration_def serialize_duration_def as_millis_u64_def
      duration_from_millis_def unat_of_nat)

text \<open>
  The encoding of the heartbeat interval loses nothing exactly on the durations that are a
  whole number of milliseconds below \<open>2 ^ 64\<close>: for those, and only those, decoding the encoded
  value gives the duration back. (Every other duration is cut to its milliseconds, or wraps.)
\<close>

theorem duration_millis_roundtrip:
  "deserialize_duration (serialize_duration d) = d \<longleftrightarrow>
     as_nanos d mod 1000000 = 0 \<and> as_millis d < 2 ^ 64"
proof -
  have "deserialize_duration (serialize_duration d) = d \<longleftrightarrow>
      (as_millis d mod 2 ^ 64) * 1000000 = as_nanos d"
    using deserialize_serialize_mod [of d] by (metis duration.expand)
  also have "\<dots> \<longleftrightarrow> as_nanos d mod 1000000 = 0 \<and> as_millis d < 2 ^ 64"
  proof
    assume *: "(as_millis d mod 2 ^ 64) * 1000000 = as_nanos d"
    then have "as_millis d = as_millis d mod 2 ^ 64"
      by (metis as_millis_def nonzero_mult_div_cancel_right zero_neq_numeral)
    moreover have "as_millis d mod 2 ^ 64 < 2 ^ 64" by simp
    ultimately have "as_millis d < 2 ^ 64" by simp
    with * show "as_nanos d mod 1000000 = 0 \<and> as_millis d < 2 ^ 64" by (metis mod_mult_self2_is_0)
  next
    assume "as_nanos d mod 1000000 = 0 \<and> as_millis d < 2 ^ 64"
    then show "(as_millis d mod 2 ^ 64) * 1000000 = as_nanos d"
      by (simp add: as_millis_def mod_eq_0_iff_dvd)
  qed
  finally show ?thesis .
qed

end
