(* ===== verification/Codec.thy ===== *)
theory Codec
  imports Frames
begin

text \<open>
  The length-prefixed frame codec of \<open>crates/protocol/src/codec.rs\<close>. The byte stream is explicit
  state: a reader holds the bytes still to come and the error that \<open>read_exact\<close> reports when they
  run out (kind \<open>UnexpectedEof\<close> at the end of the stream), a writer holds the bytes written so far,
  how many more the peer takes and the error after that. The MessagePack serializer \<open>rmp_serde\<close>
  is a parameter: \<open>enc\<close> stands for \<open>to_vec_named\<close> and \<open>dec\<close> for \<open>from_slice\<close>, each with the text
  of its error on the left. \<open>serde_roundtrip enc dec\<close> is the hypothesis that decoding an encoded
  value gives it back.

  The lemmas: a written frame is read back, alone and in a sequence, and what the peer reads from a
  stream cut at any byte is a prefix of the frames sent; the size limit on both sides; what
  each truncation gives; and that the reader loop ends.
\<close>

section \<open>Definitions\<close>

record reader =
  rd_data :: bytes
  rd_end :: io_error

record writer =
  wr_out :: bytes
  wr_room :: "nat option"
  wr_err :: io_error
  wr_flush_err :: "io_error option"

definition read_exact :: "nat \<Rightarrow> reader \<Rightarrow> (io_error + bytes) \<times> reader" where
  "read_exact n r =
     (if n \<le> length (rd_data r)
      then (Inr (take n (rd_data r)), r\<lparr>rd_data := drop n (rd_data r)\<rparr>)
      else (Inl (rd_end r), r\<lparr>rd_data := []\<rparr>))"

definition write_all :: "bytes \<Rightarrow> writer \<Rightarrow> (io_error + unit) \<times> writer" where
  "write_all bs w =
     (case wr_room w of
        None \<Rightarrow> (Inr (), w\<lparr>wr_out := wr_out w @ bs\<rparr>)
      | Some k \<Rightarrow>
          (if length bs \<le> k
           then (Inr (), w\<lparr>wr_out := wr_out w @ bs, wr_room := Some (k - length bs)\<rparr>)
           else (Inl (wr_err w), w\<lparr>wr_out := wr_out w @ take k bs, wr_room := Some 0\<rparr>)))"

definition flush :: "writer \<Rightarrow> io_error + unit" where
  "flush w = (case wr_flush_err w of None \<Rightarrow> Inr () | Some e \<Rightarrow> Inl e)"

definition u32_to_be_bytes :: "u32 \<Rightarrow> bytes" where
  "u32_to_be_bytes n =
     [word_of_nat (unat n div 2 ^ 24), word_of_nat (unat n div 2 ^ 16), word_of_nat (unat n div 2 ^ 8),
      word_of_nat (unat n)]"

definition u32_from_be_bytes :: "bytes \<Rightarrow> u32" where
  "u32_from_be_bytes bs = word_of_nat (foldl (\<lambda>acc b. acc * 256 + unat b) 0 bs)"

definition MAX_FRAME_BYTES :: u32 where
  "MAX_FRAME_BYTES = 32 * 1024 * 1024"

definition write_frame ::
  "('a \<Rightarrow> string + bytes) \<Rightarrow> 'a \<Rightarrow> writer \<Rightarrow> unit bus_result \<times> writer" where
  "write_frame enc v w =
     (case enc v of
        Inl e \<Rightarrow> (Inl (Codec (''encode: '' @ e)), w)
      | Inr bs \<Rightarrow>
          (if unat MAX_FRAME_BYTES < length bs
           then (Inl (FrameTooLarge (word_of_nat (length bs)) MAX_FRAME_BYTES), w)
           else
             (case write_all (u32_to_be_bytes (word_of_nat (length bs))) w of
                (Inl e, w1) \<Rightarrow> (Inl (bus_error_of_io e), w1)
              | (Inr _, w1) \<Rightarrow>
                  (case write_all bs w1 of
                     (Inl e, w2) \<Rightarrow> (Inl (bus_error_of_io e), w2)
                   | (Inr _, w2) \<Rightarrow>
                       (case flush w2 of
                          Inl e \<Rightarrow> (Inl (bus_error_of_io e), w2)
                        | Inr _ \<Rightarrow> (Inr (), w2))))))"

definition read_frame_opt ::
  "(bytes \<Rightarrow> string + 'a) \<Rightarrow> reader \<Rightarrow> 'a option bus_result \<times> reader" where
  "read_frame_opt dec r =
     (case read_exact 4 r of
        (Inl e, r1) \<Rightarrow>
          (if io_kind_of e = UnexpectedEof then (Inr None, r1) else (Inl (bus_error_of_io e), r1))
      | (Inr len_buf, r1) \<Rightarrow>
          (let len = u32_from_be_bytes len_buf in
           if MAX_FRAME_BYTES < len
           then (Inl (FrameTooLarge (ucast len) MAX_FRAME_BYTES), r1)
           else
             (case read_exact (unat len) r1 of
                (Inl e, r2) \<Rightarrow> (Inl (bus_error_of_io e), r2)
              | (Inr buf, r2) \<Rightarrow>
                  (case dec buf of
                     Inl e \<Rightarrow> (Inl (Codec (''decode: '' @ e)), r2)
                   | Inr v \<Rightarrow> (Inr (Some v), r2)))))"

definition read_frame :: "(bytes \<Rightarrow> string + 'a) \<Rightarrow> reader \<Rightarrow> 'a bus_result \<times> reader" where
  "read_frame dec r =
     (case read_frame_opt dec r of
        (Inl e, r1) \<Rightarrow> (Inl e, r1)
      | (Inr (Some v), r1) \<Rightarrow> (Inr v, r1)
      | (Inr None, r1) \<Rightarrow> (Inl ConnectionClosed, r1))"

lemma read_frame_opt_shrinks:
  "read_frame_opt dec r = (Inr (Some v), r1) \<Longrightarrow> length (rd_data r1) < length (rd_data r)"
  by (auto simp: read_frame_opt_def read_exact_def Let_def split: if_splits sum.splits)

text \<open>
  The loop that both ends of a connection run over \<open>read_frame_opt\<close>: frames are handled one by
  one until the end of the stream or an error (\<open>Some\<close> of the error that ended it).
\<close>

function read_frames ::
  "(bytes \<Rightarrow> string + 'a) \<Rightarrow> reader \<Rightarrow> 'a list \<times> bus_error option" where
  "read_frames dec r =
     (case read_frame_opt dec r of
        (Inr (Some v), r1) \<Rightarrow> (let (vs, e) = read_frames dec r1 in (v # vs, e))
      | (Inr None, r1) \<Rightarrow> ([], None)
      | (Inl e, r1) \<Rightarrow> ([], Some e))"
  by pat_completeness auto

termination read_frames
  by (relation "measure (\<lambda>(dec, r). length (rd_data r))") (auto dest: read_frame_opt_shrinks [OF sym])

text \<open>The writer task: frames are written in order until one write fails.\<close>

fun write_frames ::
  "('a \<Rightarrow> string + bytes) \<Rightarrow> 'a list \<Rightarrow> writer \<Rightarrow> bus_error option \<times> writer" where
  "write_frames enc [] w = (None, w)"
| "write_frames enc (v # vs) w =
     (case write_frame enc v w of
        (Inl e, w1) \<Rightarrow> (Some e, w1)
      | (Inr _, w1) \<Rightarrow> write_frames enc vs w1)"

text \<open>The bytes of one frame, and the two hypotheses the round trips use.\<close>

definition frame_bytes :: "bytes \<Rightarrow> bytes" where
  "frame_bytes bs = u32_to_be_bytes (word_of_nat (length bs)) @ bs"

definition serde_roundtrip :: "('a \<Rightarrow> string + bytes) \<Rightarrow> (bytes \<Rightarrow> string + 'a) \<Rightarrow> bool" where
  "serde_roundtrip enc dec \<longleftrightarrow> (\<forall>v bs. enc v = Inr bs \<longrightarrow> dec bs = Inr v)"

definition fits_frame :: "('a \<Rightarrow> string + bytes) \<Rightarrow> 'a \<Rightarrow> bool" where
  "fits_frame enc v \<longleftrightarrow> (\<exists>bs. enc v = Inr bs \<and> length bs \<le> unat MAX_FRAME_BYTES)"

definition fresh_writer :: writer where
  "fresh_writer =
     \<lparr>wr_out = [], wr_room = None, wr_err = \<lparr>io_kind_of = OtherKind, io_text = ''''\<rparr>, wr_flush_err = None\<rparr>"

definition eof_reader :: "bytes \<Rightarrow> string \<Rightarrow> reader" where
  "eof_reader bs msg = \<lparr>rd_data = bs, rd_end = \<lparr>io_kind_of = UnexpectedEof, io_text = msg\<rparr>\<rparr>"

section \<open>Lemmas\<close>

declare read_frames.simps [simp del]

subsection \<open>The length prefix\<close>

lemma MAX_FRAME_BYTES_unat [simp]: "unat MAX_FRAME_BYTES = 33554432"
  by (simp add: MAX_FRAME_BYTES_def)

lemma length_u32_to_be_bytes [simp]: "length (u32_to_be_bytes n) = 4"
  by (simp add: u32_to_be_bytes_def)

lemma be_digit: "m div (256 * k) * 256 + m div k mod 256 = m div (k :: nat)"
  by (metis div_mult2_eq div_mult_mod_eq mult.commute)

lemma unat_be_byte: "unat (word_of_nat m :: u8) = m mod 256"
  by (simp add: unat_of_nat)

lemma u32_be_value: "foldl (\<lambda>acc b. acc * 256 + unat b) 0 (u32_to_be_bytes n) = unat n"
proof -
  have "unat n < 2 ^ 32" using unsigned_less [of n] by simp
  then have "unat n div 16777216 mod 256 = unat n div 16777216" by simp
  with be_digit [of "unat n" 65536] be_digit [of "unat n" 256] be_digit [of "unat n" 1]
  show ?thesis
    unfolding u32_to_be_bytes_def foldl.simps unat_be_byte by simp
qed

lemma u32_be_roundtrip [simp]: "u32_from_be_bytes (u32_to_be_bytes n) = n"
  by (simp add: u32_from_be_bytes_def u32_be_value)

lemma unat_frame_len [simp]:
  "length bs \<le> 33554432 \<Longrightarrow> unat (word_of_nat (length bs) :: u32) = length bs"
  by (simp add: unat_of_nat)

lemma frame_len_ok: "length bs \<le> 33554432 \<Longrightarrow> \<not> MAX_FRAME_BYTES < (word_of_nat (length bs) :: u32)"
  by (simp add: word_less_nat_alt)

subsection \<open>One frame\<close>

lemma write_frame_ok:
  assumes "enc v = Inr bs" "length bs \<le> 33554432" "wr_room w = None" "wr_flush_err w = None"
  shows "write_frame enc v w = (Inr (), w\<lparr>wr_out := wr_out w @ frame_bytes bs\<rparr>)"
  using assms by (simp add: write_frame_def write_all_def flush_def frame_bytes_def)

lemma read_frame_opt_ok:
  assumes "dec bs = Inr v" "length bs \<le> 33554432" "rd_data r = frame_bytes bs @ rest"
  shows "read_frame_opt dec r = (Inr (Some v), r\<lparr>rd_data := rest\<rparr>)"
  using assms frame_len_ok [of bs]
  by (simp add: read_frame_opt_def read_exact_def frame_bytes_def)

lemma read_frame_opt_eof:
  "length (rd_data r) < 4 \<Longrightarrow> io_kind_of (rd_end r) = UnexpectedEof \<Longrightarrow>
   read_frame_opt dec r = (Inr None, r\<lparr>rd_data := []\<rparr>)"
  by (simp add: read_frame_opt_def read_exact_def)

lemma take_frame_bytes:
  assumes "4 \<le> k" shows "take 4 (take k (frame_bytes bs @ rest)) = u32_to_be_bytes (word_of_nat (length bs))"
    and "drop 4 (take k (frame_bytes bs @ rest)) = take (k - 4) (bs @ rest)"
  using assms by (simp_all add: frame_bytes_def min_def drop_take)

lemma read_frame_opt_cut:
  assumes "4 \<le> k" "k < 4 + length bs" "length bs \<le> 33554432" "rd_data r = take k (frame_bytes bs @ rest)"
  shows "read_frame_opt dec r = (Inl (bus_error_of_io (rd_end r)), r\<lparr>rd_data := []\<rparr>)"
proof -
  have "4 \<le> length (rd_data r)" using assms(1,4) by (simp add: frame_bytes_def)
  moreover have "take 4 (rd_data r) = u32_to_be_bytes (word_of_nat (length bs))"
    unfolding assms(4) by (rule take_frame_bytes(1) [OF assms(1)])
  moreover have "length (rd_data r) - 4 < length bs"
    using assms(1,2,4) by (simp add: frame_bytes_def)
  ultimately show ?thesis
    using assms(3) frame_len_ok [of bs] by (simp add: read_frame_opt_def read_exact_def)
qed

subsection \<open>Streams of frames\<close>

lemma write_frames_ok:
  assumes "\<forall>v \<in> set vs. fits_frame enc v" "wr_room w = None" "wr_flush_err w = None"
  shows "write_frames enc vs w =
    (None, w\<lparr>wr_out := wr_out w @ concat (map (\<lambda>v. frame_bytes (projr (enc v))) vs)\<rparr>)"
  using assms
proof (induction vs arbitrary: w)
  case Nil
  then show ?case by simp
next
  case (Cons v vs)
  then obtain bs where "enc v = Inr bs" "length bs \<le> 33554432" by (auto simp: fits_frame_def)
  with Cons show ?case by (simp add: write_frame_ok)
qed

lemma read_frames_cut_prefix:
  assumes "serde_roundtrip enc dec" "\<forall>v \<in> set vs. fits_frame enc v" "io_kind_of (rd_end r) = UnexpectedEof"
    and "rd_data r = take k (concat (map (\<lambda>v. frame_bytes (projr (enc v))) vs))"
  shows "prefix (fst (read_frames dec r)) vs"
  using assms
proof (induction vs arbitrary: r k)
  case Nil
  then show ?case by (simp add: read_frames.simps [of dec r] read_frame_opt_eof)
next
  case (Cons v vs)
  obtain bs where bs: "enc v = Inr bs" "length bs \<le> 33554432" "dec bs = Inr v"
    using Cons.prems(1,2) by (auto simp: fits_frame_def serde_roundtrip_def)
  let ?rest = "concat (map (\<lambda>v. frame_bytes (projr (enc v))) vs)"
  have data: "rd_data r = take k (frame_bytes bs @ ?rest)" using Cons.prems(4) bs(1) by simp
  consider (hdr) "k < 4" | (cut) "4 \<le> k" "k < 4 + length bs" | (full) "4 + length bs \<le> k" by linarith
  then show ?case
  proof cases
    case hdr
    then show ?thesis
      using Cons.prems(3) data by (simp add: read_frames.simps [of dec r] read_frame_opt_eof)
  next
    case cut
    show ?thesis
      by (simp add: read_frames.simps [of dec r] read_frame_opt_cut [OF cut bs(2) data])
  next
    case full
    have split: "rd_data r = frame_bytes bs @ take (k - (4 + length bs)) ?rest"
      using data full by (simp add: frame_bytes_def)
    have "prefix (fst (read_frames dec (r\<lparr>rd_data := take (k - (4 + length bs)) ?rest\<rparr>))) vs"
      using Cons.prems by (intro Cons.IH [of _ "k - (4 + length bs)"]) auto
    then show ?thesis
      using read_frame_opt_ok [of dec bs v r, OF bs(3,2) split]
      by (simp add: read_frames.simps [of dec r] split_def Let_def)
  qed
qed

lemma read_frames_all:
  assumes "serde_roundtrip enc dec" "\<forall>v \<in> set vs. fits_frame enc v" "io_kind_of (rd_end r) = UnexpectedEof"
    and "rd_data r = concat (map (\<lambda>v. frame_bytes (projr (enc v))) vs)"
  shows "read_frames dec r = (vs, None)"
  using assms
proof (induction vs arbitrary: r)
  case Nil
  then show ?case by (simp add: read_frames.simps [of dec r] read_frame_opt_eof)
next
  case (Cons v vs)
  obtain bs where bs: "enc v = Inr bs" "length bs \<le> 33554432" "dec bs = Inr v"
    using Cons.prems(1,2) by (auto simp: fits_frame_def serde_roundtrip_def)
  let ?rest = "concat (map (\<lambda>v. frame_bytes (projr (enc v))) vs)"
  have "read_frame_opt dec r = (Inr (Some v), r\<lparr>rd_data := ?rest\<rparr>)"
    using Cons.prems(4) bs by (intro read_frame_opt_ok) auto
  with Cons.IH [of "r\<lparr>rd_data := ?rest\<rparr>"] Cons.prems show ?case
    by (simp add: read_frames.simps [of dec r])
qed


subsection \<open>Properties\<close>

text \<open>
  A serializer for the witnesses: two heartbeat frames have an encoding, every other frame fails.
\<close>

fun heartbeat_enc :: "bus_frame \<Rightarrow> string + bytes" where
  "heartbeat_enc Ping = Inr [1]"
| "heartbeat_enc Pong = Inr [2, 3]"
| "heartbeat_enc f = Inl ''unsupported''"

definition heartbeat_dec :: "bytes \<Rightarrow> string + bus_frame" where
  "heartbeat_dec bs = (if bs = [1] then Inr Ping else if bs = [2, 3] then Inr Pong else Inl ''bad'')"

lemma heartbeat_roundtrip: "serde_roundtrip heartbeat_enc heartbeat_dec"
proof -
  have "heartbeat_enc v = Inr bs \<Longrightarrow> heartbeat_dec bs = Inr v" for v bs
    by (cases v) (auto simp: heartbeat_dec_def)
  then show ?thesis by (simp add: serde_roundtrip_def)
qed

lemma heartbeat_fits: "\<forall>v \<in> set [Ping, Pong, Ping]. fits_frame heartbeat_enc v"
  by (simp add: fits_frame_def)

text \<open>
  C13. Any sequence of frames that the serializer encodes within the size limit, written by the
  writer task to a peer that takes every byte, is read back by the reader loop exactly, in order,
  and the loop then ends at the end of the stream without an error.
\<close>

theorem frame_stream_roundtrip:
  assumes "serde_roundtrip enc dec" and "\<forall>v \<in> set vs. fits_frame enc v"
  shows "fst (write_frames enc vs fresh_writer) = None \<and>
    read_frames dec (eof_reader (wr_out (snd (write_frames enc vs fresh_writer))) msg) = (vs, None)"
  using assms write_frames_ok [OF assms(2), of fresh_writer]
  by (auto simp: fresh_writer_def eof_reader_def intro!: read_frames_all)

theorem frame_stream_roundtrip_witness:
  "read_frames heartbeat_dec
     (eof_reader (wr_out (snd (write_frames heartbeat_enc [Ping, Pong, Ping] fresh_writer))) ''early eof'')
   = ([Ping, Pong, Ping], None)"
  by (rule frame_stream_roundtrip [OF heartbeat_roundtrip heartbeat_fits, THEN conjunct2])

text \<open>
  A connection that dies at an arbitrary byte never makes the peer see a frame that was not
  sent: whatever prefix of the byte stream arrives before the end of the stream, the frames the
  reader loop hands on are a prefix of the frames written.
\<close>

theorem frame_stream_cut_prefix:
  assumes "serde_roundtrip enc dec" and "\<forall>v \<in> set vs. fits_frame enc v"
  shows "prefix
    (fst (read_frames dec (eof_reader (take k (wr_out (snd (write_frames enc vs fresh_writer)))) msg))) vs"
  using assms write_frames_ok [OF assms(2), of fresh_writer]
  by (auto simp: fresh_writer_def eof_reader_def intro!: read_frames_cut_prefix [of enc dec vs _ k])

theorem frame_stream_cut_prefix_witness:
  "prefix (fst (read_frames heartbeat_dec (eof_reader
     (take 9 (wr_out (snd (write_frames heartbeat_enc [Ping, Pong, Ping] fresh_writer)))) ''early eof'')))
   [Ping, Pong, Ping]"
  by (rule frame_stream_cut_prefix [OF heartbeat_roundtrip heartbeat_fits])

text \<open>
  What \<open>read_frame_opt\<close> returns when the stream ends inside a frame: an end of stream within
  the four bytes of the length prefix is reported as the clean end \<open>Ok(None)\<close>, also after one, two
  or three bytes; an end of stream within the payload is an I/O error. (The documentation of
  \<open>read_frame_opt\<close> promises \<open>Ok(None)\<close> only before any byte.)
\<close>

theorem truncated_frame_result:
  assumes "length bs \<le> unat MAX_FRAME_BYTES" and "k < length (frame_bytes bs)"
  shows "fst (read_frame_opt dec (eof_reader (take k (frame_bytes bs)) msg)) =
    (if k < 4 then Inr None else Inl (Io msg))"
proof (cases "k < 4")
  case True
  then show ?thesis by (simp add: read_frame_opt_eof eof_reader_def)
next
  case False
  with assms read_frame_opt_cut [of k bs "eof_reader (take k (frame_bytes bs)) msg" "[]" dec]
  show ?thesis by (simp add: eof_reader_def bus_error_of_io_def frame_bytes_def)
qed

theorem truncated_frame_result_witness:
  "fst (read_frame_opt heartbeat_dec (eof_reader (take 3 (frame_bytes [2, 3])) ''early eof'')) = Inr None
   \<and> fst (read_frame_opt heartbeat_dec (eof_reader (take 5 (frame_bytes [2, 3])) ''early eof''))
     = Inl (Io ''early eof'')"
  using truncated_frame_result [of "[2, 3]" 3 heartbeat_dec "''early eof''"]
    truncated_frame_result [of "[2, 3]" 5 heartbeat_dec "''early eof''"]
  by (simp add: frame_bytes_def)

lemma write_frame_result_cases:
  "fst (write_frame enc v w) = Inr () \<Longrightarrow>
   \<exists>bs. enc v = Inr bs \<and> length bs \<le> 33554432 \<and> wr_out (snd (write_frame enc v w)) = wr_out w @ frame_bytes bs"
  by (auto simp: write_frame_def write_all_def flush_def frame_bytes_def not_less
      split: sum.splits if_splits option.splits)

lemma split_two: "xs = take m xs @ take n (drop m xs) @ drop (n + m) xs"
  by (metis append_take_drop_id drop_drop)

lemma read_frame_opt_Some_size:
  "fst (read_frame_opt dec r) = Inr (Some v) \<Longrightarrow>
   \<exists>bs. dec bs = Inr v \<and> length bs \<le> 33554432 \<and>
     rd_data r = take 4 (rd_data r) @ bs @ rd_data (snd (read_frame_opt dec r))"
  by (auto simp: read_frame_opt_def read_exact_def Let_def word_less_nat_alt not_less
      split: sum.splits if_splits intro!: exI [of _ "take _ (drop 4 (rd_data r))"] split_two)

text \<open>
  C38. The 32 MiB limit holds on both sides. A write that reports success has appended exactly one
  complete frame, of a payload within the limit; an oversized payload is refused before any byte is
  written; a length prefix over the limit is refused before any payload byte is taken from the
  stream; and a frame that is read had a payload within the limit.
\<close>

theorem frame_size_limit:
  "(fst (write_frame enc v w) = Inr () \<longrightarrow>
      (\<exists>bs. enc v = Inr bs \<and> length bs \<le> unat MAX_FRAME_BYTES \<and>
        wr_out (snd (write_frame enc v w)) = wr_out w @ frame_bytes bs)) \<and>
   (enc v = Inr big \<and> unat MAX_FRAME_BYTES < length big \<longrightarrow>
      write_frame enc v w = (Inl (FrameTooLarge (word_of_nat (length big)) MAX_FRAME_BYTES), w)) \<and>
   (MAX_FRAME_BYTES < n \<longrightarrow>
      read_frame_opt dec (eof_reader (u32_to_be_bytes n @ rest) msg)
      = (Inl (FrameTooLarge (ucast n) MAX_FRAME_BYTES), eof_reader rest msg)) \<and>
   (fst (read_frame_opt dec r) = Inr (Some f) \<longrightarrow>
      (\<exists>bs. dec bs = Inr f \<and> length bs \<le> unat MAX_FRAME_BYTES \<and>
        rd_data r = take 4 (rd_data r) @ bs @ rd_data (snd (read_frame_opt dec r))))"
proof (intro conjI impI)
  assume "enc v = Inr big \<and> unat MAX_FRAME_BYTES < length big"
  then show "write_frame enc v w = (Inl (FrameTooLarge (word_of_nat (length big)) MAX_FRAME_BYTES), w)"
    by (simp add: write_frame_def)
next
  assume "MAX_FRAME_BYTES < n"
  then show "read_frame_opt dec (eof_reader (u32_to_be_bytes n @ rest) msg)
      = (Inl (FrameTooLarge (ucast n) MAX_FRAME_BYTES), eof_reader rest msg)"
    by (simp add: read_frame_opt_def read_exact_def eof_reader_def)
qed (use write_frame_result_cases read_frame_opt_Some_size in simp_all)

theorem frame_size_limit_witness:
  "wr_out (snd (write_frame heartbeat_enc Pong fresh_writer)) = [0, 0, 0, 2, 2, 3] \<and>
   read_frame_opt heartbeat_dec (eof_reader (u32_to_be_bytes 33554433 @ [7, 7]) ''early eof'')
   = (Inl (FrameTooLarge 33554433 MAX_FRAME_BYTES), eof_reader [7, 7] ''early eof'')"
proof -
  have "fst (write_frame heartbeat_enc Pong fresh_writer) = Inr ()"
    by (simp add: write_frame_def write_all_def flush_def fresh_writer_def)
  moreover have "MAX_FRAME_BYTES < (33554433 :: u32)"
    by (simp add: MAX_FRAME_BYTES_def)
  ultimately show ?thesis
    using frame_size_limit [of heartbeat_enc Pong fresh_writer "[]" 33554433 heartbeat_dec "[7, 7]" "''early eof''"
      "eof_reader [] ''eof''" Ping]
    by (simp add: frame_bytes_def u32_to_be_bytes_def fresh_writer_def)
qed

end
