(* ===== verification/Registry.thy ===== *)
theory Registry
  imports Frames
begin

text \<open>
  The service registry of \<open>crates/broker/src/registry.rs\<close>: a map from service names to the entry
  of the connection that registered last, and the generation counter. The sender half \<open>tx\<close> of
  an entry's outbound channel is the number of the connection whose writer task drains it.
  \<open>service_directory\<close> is the contract the broker's sessions rely on: registering replaces the entry
  of one service, and an eviction that names another generation than the current one does nothing.
\<close>

section \<open>Definitions\<close>

type_synonym conn_id = nat

record service_entry =
  se_service :: string
  se_generation :: u64
  se_tx :: conn_id
  se_methods :: "method_decl list"
  se_pid :: u32
  se_data_plane :: "data_plane_socket option"

record registry =
  reg_entries :: "(string, service_entry) dashmap"
  reg_next_gen :: u64

definition registry_default :: registry where
  "registry_default = \<lparr>reg_entries = [], reg_next_gen = 0\<rparr>"

definition registry_insert :: "registry \<Rightarrow> service_entry \<Rightarrow> registry \<times> u64" where
  "registry_insert r entry =
     (let generation = reg_next_gen r + 1;
          entry' = entry\<lparr>se_generation := generation\<rparr>
      in (r\<lparr>reg_next_gen := generation,
            reg_entries := dm_insert (se_service entry') entry' (reg_entries r)\<rparr>, generation))"

definition registry_get :: "registry \<Rightarrow> string \<Rightarrow> service_entry option" where
  "registry_get r service = dm_get (reg_entries r) service"

definition registry_remove_if :: "registry \<Rightarrow> string \<Rightarrow> u64 \<Rightarrow> registry \<times> bool" where
  "registry_remove_if r service generation =
     (case dm_get (reg_entries r) service of
        None \<Rightarrow> (r, False)
      | Some v \<Rightarrow>
          (if se_generation v = generation
           then (r\<lparr>reg_entries := dm_remove service (reg_entries r)\<rparr>, True)
           else (r, False)))"

definition registry_list :: "registry \<Rightarrow> service_entry list" where
  "registry_list r = map snd (reg_entries r)"

text \<open>Sequences of the two updates, and the generations the insertions among them return.\<close>

datatype registry_op = RegInsert service_entry | RegRemoveIf string u64

fun registry_apply :: "registry \<Rightarrow> registry_op \<Rightarrow> registry" where
  "registry_apply r (RegInsert e) = fst (registry_insert r e)"
| "registry_apply r (RegRemoveIf s g) = fst (registry_remove_if r s g)"

fun registry_run :: "registry \<Rightarrow> registry_op list \<Rightarrow> registry" where
  "registry_run r [] = r"
| "registry_run r (op # ops) = registry_run (registry_apply r op) ops"

fun generations :: "registry \<Rightarrow> registry_op list \<Rightarrow> u64 list" where
  "generations r [] = []"
| "generations r (RegInsert e # ops) =
     snd (registry_insert r e) # generations (registry_apply r (RegInsert e)) ops"
| "generations r (RegRemoveIf s g # ops) = generations (registry_apply r (RegRemoveIf s g)) ops"

section \<open>The contract of a service directory\<close>

locale service_directory =
  fixes lookup :: "'d \<Rightarrow> string \<Rightarrow> 'e option"
    and register :: "'d \<Rightarrow> 'e \<Rightarrow> 'd \<times> u64"
    and evict :: "'d \<Rightarrow> string \<Rightarrow> u64 \<Rightarrow> 'd \<times> bool"
    and name_of :: "'e \<Rightarrow> string"
    and gen_of :: "'e \<Rightarrow> u64"
    and stamp :: "u64 \<Rightarrow> 'e \<Rightarrow> 'e"
  assumes lookup_register:
      "lookup (fst (register d e)) s =
        (if s = name_of e then Some (stamp (snd (register d e)) e) else lookup d s)"
    and gen_stamp: "gen_of (stamp g e) = g"
    and name_stamp: "name_of (stamp g e) = name_of e"
    and lookup_evict:
      "lookup (fst (evict d t g)) s =
        (if s = t \<and> map_option gen_of (lookup d t) = Some g then None else lookup d s)"
    and evict_result: "snd (evict d t g) \<longleftrightarrow> map_option gen_of (lookup d t) = Some g"
begin

lemma evict_stale:
  "map_option gen_of (lookup d t) \<noteq> Some g \<Longrightarrow> lookup (fst (evict d t g)) = lookup d"
  by (rule ext) (auto simp: lookup_evict)

lemma evict_own: "gen_of e = g \<Longrightarrow> lookup d t = Some e \<Longrightarrow> lookup (fst (evict d t g)) t = None"
  by (simp add: lookup_evict)

lemma register_survives_stale:
  "g \<noteq> snd (register d e) \<Longrightarrow>
   lookup (fst (evict (fst (register d e)) (name_of e) g)) (name_of e)
   = Some (stamp (snd (register d e)) e)"
  by (simp add: lookup_evict lookup_register gen_stamp)

lemma evict_other: "s \<noteq> t \<Longrightarrow> lookup (fst (evict d t g)) s = lookup d s"
  by (simp add: lookup_evict)

lemma register_other: "s \<noteq> name_of e \<Longrightarrow> lookup (fst (register d e)) s = lookup d s"
  by (simp add: lookup_register)

end

section \<open>Lemmas\<close>

lemma registry_get_default [simp]: "registry_get registry_default s = None"
  by (simp add: registry_get_def registry_default_def)

lemma registry_insert_gen [simp]: "snd (registry_insert r e) = reg_next_gen r + 1"
  by (simp add: registry_insert_def Let_def)

lemma registry_insert_next [simp]: "reg_next_gen (fst (registry_insert r e)) = reg_next_gen r + 1"
  by (simp add: registry_insert_def Let_def)

lemma registry_remove_if_next [simp]: "reg_next_gen (fst (registry_remove_if r s g)) = reg_next_gen r"
  by (simp add: registry_remove_if_def split: option.split)

interpretation dir: service_directory registry_get registry_insert registry_remove_if
  se_service se_generation "\<lambda>g e. e\<lparr>se_generation := g\<rparr>"
  by unfold_locales
    (auto simp: registry_get_def registry_insert_def registry_remove_if_def Let_def split: option.split)

lemmas registry_get_insert = dir.lookup_register
lemmas registry_get_remove_if = dir.lookup_evict

text \<open>The generations returned along a run count the insertions.\<close>

lemma generations_count:
  "g \<in> set (generations r ops) \<Longrightarrow>
   \<exists>i. 1 \<le> i \<and> i \<le> length (generations r ops) \<and> g = reg_next_gen r + word_of_nat i"
proof (induction r ops rule: generations.induct)
  case (2 r e ops)
  from "2.prems" consider "g = reg_next_gen r + 1"
    | "g \<in> set (generations (registry_apply r (RegInsert e)) ops)" by auto
  then show ?case
  proof cases
    case 1
    then show ?thesis by (intro exI [of _ 1]) simp
  next
    case 2
    from "2.IH" [OF this] obtain i where "i \<le> length (generations (fst (registry_insert r e)) ops)"
      "g = reg_next_gen r + 1 + word_of_nat i" by auto
    then show ?thesis by (intro exI [of _ "Suc i"]) (simp add: add.assoc)
  qed
qed simp_all

lemma registry_run_next_gen:
  "reg_next_gen (registry_run r ops) = reg_next_gen r + word_of_nat (length (generations r ops))"
  by (induction r ops rule: generations.induct) (simp_all add: add.assoc)

lemma fresh_generation:
  assumes "length (generations registry_default ops) < 2 ^ 64 - 1"
  shows "reg_next_gen (registry_run registry_default ops) + 1 \<notin> set (generations registry_default ops)"
proof
  let ?n = "length (generations registry_default ops)"
  have zero: "reg_next_gen registry_default = 0" by (simp add: registry_default_def)
  assume "reg_next_gen (registry_run registry_default ops) + 1 \<in> set (generations registry_default ops)"
  from generations_count [OF this] obtain i where i: "i \<le> ?n" and
    eq: "(word_of_nat (Suc ?n) :: u64) = word_of_nat i"
    by (auto simp: registry_run_next_gen zero add.commute)
  from word_of_nat_inj_u64 [OF _ _ eq] i assms have "Suc ?n = i" by simp
  with i show False by simp
qed

lemma registry_run_keeps:
  assumes "registry_get r s = Some e" and "se_generation e = g"
    and "\<forall>e'. RegInsert e' \<in> set ops \<longrightarrow> se_service e' \<noteq> s"
    and "\<forall>g'. RegRemoveIf s g' \<in> set ops \<longrightarrow> g' \<noteq> g"
  shows "registry_get (registry_run r ops) s = Some e"
  using assms
proof (induction ops arbitrary: r)
  case Nil
  then show ?case by simp
next
  case (Cons op ops)
  have "registry_get (registry_apply r op) s = Some e"
    using Cons.prems by (cases op) (auto simp: registry_get_insert registry_get_remove_if)
  with Cons show ?case by simp
qed

text \<open>
  C21. A stale reader task never evicts a freshly registered successor: start from an empty
  registry, make any updates \<open>before\<close>, register an entry, and make any updates \<open>after\<close> that
  register other services and evict this one only with generations returned before; the entry is
  still there, under the generation its registration returned. (At most \<open>2 ^ 64 - 2\<close>
  registrations: the counter is a \<open>u64\<close>.)
\<close>

theorem stale_remove_keeps_successor:
  assumes "length (generations registry_default before) < 2 ^ 64 - 1"
    and "registry_insert (registry_run registry_default before) e = (r, g)"
    and "\<forall>e'. RegInsert e' \<in> set after \<longrightarrow> se_service e' \<noteq> se_service e"
    and "\<forall>g'. RegRemoveIf (se_service e) g' \<in> set after \<longrightarrow> g' \<in> set (generations registry_default before)"
  shows "registry_get (registry_run r after) (se_service e) = Some (e\<lparr>se_generation := g\<rparr>)"
proof -
  have g: "g = reg_next_gen (registry_run registry_default before) + 1"
    using registry_insert_gen [of "registry_run registry_default before" e] assms(2) by simp
  have "g \<notin> set (generations registry_default before)"
    using fresh_generation [OF assms(1)] g by simp
  moreover have "registry_get r (se_service e) = Some (e\<lparr>se_generation := g\<rparr>)"
    using registry_get_insert [of "registry_run registry_default before" e "se_service e"] assms(2) by simp
  ultimately show ?thesis using assms(3,4) by (intro registry_run_keeps) auto
qed

theorem stale_remove_keeps_successor_witness:
  "let e = \<lparr>se_service = ''video'', se_generation = 0, se_tx = 0, se_methods = [], se_pid = 7,
            se_data_plane = None\<rparr>;
       r = registry_run registry_default [RegInsert e];
       r2 = fst (registry_insert r (e\<lparr>se_tx := 1\<rparr>))
   in registry_get (registry_run r2 [RegRemoveIf ''video'' 1]) ''video''
      = Some (e\<lparr>se_tx := 1, se_generation := 2\<rparr>)"
  using stale_remove_keeps_successor
    [of "[RegInsert \<lparr>se_service = ''video'', se_generation = 0, se_tx = 0, se_methods = [], se_pid = 7,
       se_data_plane = None\<rparr>]"
     "\<lparr>se_service = ''video'', se_generation = 0, se_tx = 1, se_methods = [], se_pid = 7,
       se_data_plane = None\<rparr>" _ _ "[RegRemoveIf ''video'' 1]", OF _ surjective_pairing]
  by (simp add: registry_default_def Let_def)

end
