(* ===== verification/Broker.thy ===== *)
theory Broker
  imports Registry
begin

text \<open>
  The broker of \<open>crates/broker/src/broker.rs\<close>: its state and its operations, one function per
  method. Objects the code shares by \<open>Arc\<close> or by channel handles live in cells, one per
  connection: the outbound \<open>mpsc\<close> channel (its queued frames and whether its receiver is still
  alive), the table \<open>pending_out\<close> of oneshot senders (each the number of the call that waits on
  it) and the counter \<open>next_req_id\<close>. A session handle holds the address of its table and counter.

  \<open>call_with_timeout\<close> suspends, so it is two functions: \<open>call_begin\<close> runs up to the point where
  the call either has failed or awaits, \<open>call_resume\<close> runs from the wake-up to the result. Code
  that is not in the repository is a parameter: the clock and the process id of \<open>random_token\<close>, the
  local handlers (a call to one awaits a result of the environment's choosing) and \<open>serde_json\<close>.
\<close>

section \<open>Definitions\<close>

type_synonym call_id = nat
type_synonym handler_id = nat

subsection \<open>State\<close>

record broker_config =
  bc_heartbeat_interval :: duration
  bc_default_call_timeout :: duration

definition broker_config_default :: broker_config where
  "broker_config_default =
     \<lparr>bc_heartbeat_interval = duration_from_secs 15, bc_default_call_timeout = duration_from_secs 30\<rparr>"

record service_capabilities =
  sc_version :: string
  sc_methods :: "string set"

record capability_response =
  cr_version :: string
  cr_methods :: "string list"

record session_handle =
  sh_pending_out :: conn_id
  sh_next_req_id :: conn_id

record cell =
  cl_queue :: "bus_frame list"
  cl_open :: bool
  cl_pending :: "(u64, call_id) dashmap"
  cl_next_req :: u64

type_synonym cells = "conn_id \<Rightarrow> cell"

record broker =
  br_config :: broker_config
  br_registry :: registry
  br_next_client_id :: u64
  br_tokens :: "(string, string) dashmap"
  br_sessions :: "(string \<times> u64, session_handle) dashmap"
  br_subscriptions :: "(string, string set) dashmap"
  br_local_services :: "(string, handler_id) dashmap"
  br_local_service_methods :: "(string, method_decl list) dashmap"
  br_capabilities :: "(string, service_capabilities) dashmap"

definition broker_new :: "broker_config \<Rightarrow> broker" where
  "broker_new config =
     \<lparr>br_config = config, br_registry = registry_default, br_next_client_id = 1, br_tokens = [],
      br_sessions = [], br_subscriptions = [], br_local_services = [], br_local_service_methods = [],
      br_capabilities = []\<rparr>"

subsection \<open>Spawn tokens\<close>

text \<open>\<open>random_token\<close> prints the clock, the process id and a process-wide counter in hexadecimal.\<close>

definition random_token :: "u64 \<Rightarrow> u32 \<Rightarrow> u64 \<Rightarrow> string" where
  "random_token ns pid ctr =
     show_hex_padded 16 (unat ns) @ show_hex_padded 8 (unat pid) @ show_hex_padded 16 (unat ctr)"

definition issue_token :: "u64 \<Rightarrow> u32 \<Rightarrow> u64 \<Rightarrow> string \<Rightarrow> broker \<Rightarrow> broker \<times> string" where
  "issue_token ns pid ctr service b =
     (let token = random_token ns pid ctr
      in (b\<lparr>br_tokens := dm_insert service token (br_tokens b)\<rparr>, token))"

definition consume_token :: "string \<Rightarrow> string \<Rightarrow> broker \<Rightarrow> broker \<times> bool" where
  "consume_token service token b =
     (b\<lparr>br_tokens := dm_remove service (br_tokens b)\<rparr>,
      case dm_get (br_tokens b) service of
        Some expected \<Rightarrow> expected = token
      | None \<Rightarrow> False)"

subsection \<open>Local services and introspection\<close>

definition register_local_service ::
  "string \<Rightarrow> method_decl list \<Rightarrow> handler_id \<Rightarrow> broker \<Rightarrow> broker" where
  "register_local_service name methods handler b =
     b\<lparr>br_local_service_methods := dm_insert name methods (br_local_service_methods b),
       br_local_services := dm_insert name handler (br_local_services b)\<rparr>"

definition has_local_service :: "broker \<Rightarrow> string \<Rightarrow> bool" where
  "has_local_service b service = dm_contains_key (br_local_services b) service"

definition local_service_methods :: "broker \<Rightarrow> string \<Rightarrow> method_decl list option" where
  "local_service_methods b service = dm_get (br_local_service_methods b) service"

definition local_service_names :: "broker \<Rightarrow> string list" where
  "local_service_names b = dm_keys (br_local_services b)"

definition registry_methods :: "broker \<Rightarrow> string \<Rightarrow> method_decl list option" where
  "registry_methods b service = map_option se_methods (registry_get (br_registry b) service)"

definition registry_data_plane :: "broker \<Rightarrow> string \<Rightarrow> data_plane_socket option" where
  "registry_data_plane b service = Option.bind (registry_get (br_registry b) service) se_data_plane"

definition get_capabilities :: "broker \<Rightarrow> string \<Rightarrow> service_capabilities option" where
  "get_capabilities b service = dm_get (br_capabilities b) service"

subsection \<open>Channels\<close>

text \<open>\<open>UnboundedSender::send\<close> fails exactly when the receiver is gone.\<close>

definition chan_send :: "conn_id \<Rightarrow> bus_frame \<Rightarrow> cells \<Rightarrow> cells \<times> bool" where
  "chan_send c f cs =
     (if cl_open (cs c) then (cs(c := (cs c)\<lparr>cl_queue := cl_queue (cs c) @ [f]\<rparr>), True)
      else (cs, False))"

subsection \<open>Calls\<close>

definition find_method :: "string \<Rightarrow> method_decl list \<Rightarrow> method_decl option" where
  "find_method m methods = List.find (\<lambda>d. md_name d = m) methods"

text \<open>The check both branches of \<open>call_with_timeout\<close> make of a method catalog.\<close>

definition check_method ::
  "string \<Rightarrow> string \<Rightarrow> caller_ctx \<Rightarrow> method_decl list \<Rightarrow> bus_error option" where
  "check_method service m caller methods =
     (case find_method m methods of
        None \<Rightarrow> Some (MethodNotFound service m)
      | Some decl \<Rightarrow>
          (if md_requires_auth decl \<and> cc_user_id caller = None then Some (Unauthorized service m) else None))"

text \<open>What a call awaits: the future of a local handler (with its arguments), or a response.\<close>

datatype call_wait =
    WaitLocal handler_id string bytes caller_ctx
  | WaitRemote session_handle u64

definition call_remote ::
  "broker \<Rightarrow> call_id \<Rightarrow> string \<Rightarrow> string \<Rightarrow> bytes \<Rightarrow> caller_ctx \<Rightarrow> cells \<Rightarrow> call_wait bus_result \<times> cells" where
  "call_remote b me service m payload caller cs =
     (case registry_get (br_registry b) service of
        None \<Rightarrow> (Inl (ServiceNotFound service), cs)
      | Some entry \<Rightarrow>
          (case check_method service m caller (se_methods entry) of
             Some e \<Rightarrow> (Inl e, cs)
           | None \<Rightarrow>
               (case dm_get (br_sessions b) (service, se_generation entry) of
                  None \<Rightarrow> (Inl (ServiceNotFound service), cs)
                | Some handle \<Rightarrow>
                    (let ctr = cs (sh_next_req_id handle);
                         req_id = cl_next_req ctr;
                         cs1 = cs(sh_next_req_id handle := ctr\<lparr>cl_next_req := req_id + 1\<rparr>);
                         tbl = cs1 (sh_pending_out handle);
                         cs2 = cs1(sh_pending_out handle :=
                                     tbl\<lparr>cl_pending := dm_insert req_id me (cl_pending tbl)\<rparr>);
                         frame = Invoke \<lparr>inv_req_id = req_id, inv_method = m, inv_payload = payload,
                                         inv_caller = caller\<rparr>
                     in case chan_send (se_tx entry) frame cs2 of
                          (cs3, True) \<Rightarrow> (Inr (WaitRemote handle req_id), cs3)
                        | (cs3, False) \<Rightarrow> (Inl (ServiceNotFound service), cs3)))))"

definition call_begin ::
  "broker \<Rightarrow> call_id \<Rightarrow> string \<Rightarrow> string \<Rightarrow> bytes \<Rightarrow> caller_ctx \<Rightarrow> cells \<Rightarrow> call_wait bus_result \<times> cells" where
  "call_begin b me service m payload caller cs =
     (case dm_get (br_local_services b) service of
        Some handler \<Rightarrow>
          (case dm_get (br_local_service_methods b) service of
             Some methods \<Rightarrow>
               (case check_method service m caller methods of
                  Some e \<Rightarrow> (Inl e, cs)
                | None \<Rightarrow> (Inr (WaitLocal handler m payload caller), cs))
           | None \<Rightarrow> (Inr (WaitLocal handler m payload caller), cs))
      | None \<Rightarrow> call_remote b me service m payload caller cs)"

text \<open>What ends the await: a result, the loss of the oneshot's sender, or the timer.\<close>

datatype wake = Resolved "bytes bus_result" | SenderDropped | Elapsed

fun call_resume :: "call_wait \<Rightarrow> duration \<Rightarrow> wake \<Rightarrow> cells \<Rightarrow> bytes bus_result \<times> cells" where
  "call_resume w timeout (Resolved r) cs = (r, cs)"
| "call_resume w timeout SenderDropped cs = (Inl ConnectionClosed, cs)"
| "call_resume (WaitLocal h m p cl) timeout Elapsed cs = (Inl (Timeout (as_millis_u64 timeout)), cs)"
| "call_resume (WaitRemote h req_id) timeout Elapsed cs =
     (Inl (Timeout (as_millis_u64 timeout)),
      cs(sh_pending_out h :=
           (cs (sh_pending_out h))\<lparr>cl_pending := dm_remove req_id (cl_pending (cs (sh_pending_out h)))\<rparr>))"

definition shutdown_service :: "broker \<Rightarrow> string \<Rightarrow> cells \<Rightarrow> unit bus_result \<times> cells" where
  "shutdown_service b service cs =
     (case registry_get (br_registry b) service of
        None \<Rightarrow> (Inl (ServiceNotFound service), cs)
      | Some entry \<Rightarrow>
          (case chan_send (se_tx entry) Shutdown cs of
             (cs1, True) \<Rightarrow> (Inr (), cs1)
           | (cs1, False) \<Rightarrow> (Inl ConnectionClosed, cs1)))"

subsection \<open>Publish and subscribe\<close>

definition subscribe :: "string \<Rightarrow> string \<Rightarrow> broker \<Rightarrow> broker" where
  "subscribe service pfx b =
     b\<lparr>br_subscriptions :=
         dm_insert service
           (insert pfx (case dm_get (br_subscriptions b) service of None \<Rightarrow> {} | Some s \<Rightarrow> s))
           (br_subscriptions b)\<rparr>"

definition unsubscribe :: "string \<Rightarrow> string \<Rightarrow> broker \<Rightarrow> broker" where
  "unsubscribe service pfx b =
     (case dm_get (br_subscriptions b) service of
        None \<Rightarrow> b
      | Some s \<Rightarrow> b\<lparr>br_subscriptions := dm_insert service (s - {pfx}) (br_subscriptions b)\<rparr>)"

definition fanout_targets :: "broker \<Rightarrow> string \<Rightarrow> event \<Rightarrow> string list" where
  "fanout_targets b from_service ev =
     map fst (filter (\<lambda>(svc, prefixes). svc \<noteq> from_service \<and> (\<exists>p \<in> prefixes. starts_with (ev_topic ev) p))
                (br_subscriptions b))"

fun fanout_send :: "broker \<Rightarrow> event \<Rightarrow> string list \<Rightarrow> cells \<Rightarrow> cells" where
  "fanout_send b ev [] cs = cs"
| "fanout_send b ev (subscriber # rest) cs =
     fanout_send b ev rest
       (case registry_get (br_registry b) subscriber of
          None \<Rightarrow> cs
        | Some entry \<Rightarrow> fst (chan_send (se_tx entry) (Event ev) cs))"

definition fanout :: "broker \<Rightarrow> string \<Rightarrow> event \<Rightarrow> cells \<Rightarrow> cells" where
  "fanout b from_service ev cs =
     (let event = ev\<lparr>ev_from := Some from_service\<rparr>
      in fanout_send b event (fanout_targets b from_service event) cs)"

subsection \<open>Sessions and capabilities\<close>

definition next_client_id :: "broker \<Rightarrow> broker \<times> u64" where
  "next_client_id b = (b\<lparr>br_next_client_id := br_next_client_id b + 1\<rparr>, br_next_client_id b)"

definition attach_session :: "string \<Rightarrow> u64 \<Rightarrow> session_handle \<Rightarrow> broker \<Rightarrow> broker" where
  "attach_session service generation h b =
     b\<lparr>br_sessions := dm_insert (service, generation) h (br_sessions b)\<rparr>"

definition still_current :: "broker \<Rightarrow> string \<Rightarrow> u64 \<Rightarrow> bool \<Rightarrow> bool" where
  "still_current b service generation absent =
     (case registry_get (br_registry b) service of
        None \<Rightarrow> absent
      | Some entry \<Rightarrow> se_generation entry = generation)"

definition detach_session :: "string \<Rightarrow> u64 \<Rightarrow> broker \<Rightarrow> broker" where
  "detach_session service generation b =
     (let b1 = b\<lparr>br_sessions := dm_remove (service, generation) (br_sessions b)\<rparr>
      in if still_current b1 service generation True
         then b1\<lparr>br_capabilities := dm_remove service (br_capabilities b1)\<rparr>
         else b1)"

text \<open>
  \<open>probe_capabilities\<close> drops the cached answer and spawns a call of the method \<open>capabilities\<close>;
  \<open>probe_done\<close> is the rest of the spawned task, from the result of that call.
\<close>

definition probe_start :: "string \<Rightarrow> broker \<Rightarrow> broker" where
  "probe_start service b = b\<lparr>br_capabilities := dm_remove service (br_capabilities b)\<rparr>"

definition probe_payload :: bytes where
  "probe_payload = [0x7B, 0x7D]"

definition probe_done ::
  "(bytes \<Rightarrow> capability_response option) \<Rightarrow> string \<Rightarrow> u64 \<Rightarrow> bytes bus_result \<Rightarrow> broker \<Rightarrow> broker" where
  "probe_done json service generation result b =
     (case result of
        Inl e \<Rightarrow> b
      | Inr bs \<Rightarrow>
          (case json bs of
             None \<Rightarrow> b
           | Some r \<Rightarrow>
               (if still_current b service generation False
                then b\<lparr>br_capabilities :=
                         dm_insert service \<lparr>sc_version = cr_version r, sc_methods = set (cr_methods r)\<rparr>
                           (br_capabilities b)\<rparr>
                else b)))"

end
