(* ===== verification/Session.thy ===== *)
theory Session
  imports Broker
begin

text \<open>
  The connection task \<open>serve\<close> of \<open>crates/broker/src/session.rs\<close> and the system it forms with the
  broker: connections, calls in flight and the environment that drives them. A block of code
  between two awaits is one action; \<open>bus_exec\<close> performs an action where it is enabled, and the
  argument of an action is what the environment decides (the frame that arrives, whether a write
  succeeds, which call's timer fires, the clock). A run is a list of actions from \<open>bus_init\<close>.

  \<open>held\<close> is the reference count of a session's \<open>Arc\<close>ed table: the serving task, the broker's
  session map and every call in flight own one. A oneshot sender is dropped when no held table
  contains it, which is the guard of the action \<open>OneshotClosed\<close>.
\<close>

section \<open>Definitions\<close>

subsection \<open>The handshake\<close>

datatype conn_phase = AwaitAck | Serving | Ended

record conn =
  cn_hello :: hello_request
  cn_client_id :: u64
  cn_generation :: u64
  cn_phase :: conn_phase

text \<open>What the handshake does: nothing, a reply that refuses the connection, or a registration.\<close>

datatype handshake =
    HsDropped
  | HsRejected bus_frame
  | HsAccepted conn

definition reject_frame :: "bus_error \<Rightarrow> bus_frame" where
  "reject_frame e = Response \<lparr>rsp_req_id = 0, rsp_result = Inl e\<rparr>"

definition serve_handshake ::
  "conn_id \<Rightarrow> bus_frame option bus_result \<Rightarrow> broker \<Rightarrow> broker \<times> handshake" where
  "serve_handshake c inbound b =
     (case inbound of
        Inr (Some (Hello hello)) \<Rightarrow>
          (if pv_major (hr_protocol hello) \<noteq> pv_major PROTOCOL_CURRENT
           then (b, HsRejected (reject_frame (ProtocolMismatch PROTOCOL_CURRENT (hr_protocol hello))))
           else
             (case consume_token (hr_service hello) (hr_auth_token hello) b of
                (b1, False) \<Rightarrow> (b1, HsRejected (reject_frame InvalidAuthToken))
              | (b1, True) \<Rightarrow>
                  (let (b2, client_id) = next_client_id b1;
                       entry = \<lparr>se_service = hr_service hello, se_generation = 0, se_tx = c,
                                se_methods = hr_methods hello, se_pid = hr_pid hello,
                                se_data_plane = hr_data_plane hello\<rparr>;
                       (reg, generation) = registry_insert (br_registry b2) entry
                   in (b2\<lparr>br_registry := reg\<rparr>,
                       HsAccepted \<lparr>cn_hello = hello, cn_client_id = client_id, cn_generation = generation,
                                   cn_phase = AwaitAck\<rparr>))))
      | _ \<Rightarrow> (b, HsDropped))"

definition ack_frame :: "broker \<Rightarrow> conn \<Rightarrow> bus_frame" where
  "ack_frame b k =
     HelloAck \<lparr>ha_client_id = cn_client_id k,
               ha_heartbeat_interval = bc_heartbeat_interval (br_config b)\<rparr>"

subsection \<open>Calls in flight\<close>

record call_spec =
  cs_service :: string
  cs_method :: string
  cs_payload :: bytes
  cs_caller :: caller_ctx
  cs_timeout :: duration

text \<open>Who awaits a call: the server's HTTP side, an app's \<open>Invoke\<close>, or the capability probe.\<close>

datatype origin =
    FromHttp
  | FromApp conn_id u64
  | FromProbe string u64

text \<open>A task: spawned and not yet run, awaiting in \<open>call_with_timeout\<close>, or done with a result.\<close>

datatype task =
    ReadyHttp call_spec
  | ReadyInvoke conn_id string invoke
  | ReadyProbe string u64
  | Awaiting origin call_spec call_wait
  | Done "bytes bus_result"

record bus =
  bus_broker :: broker
  bus_cells :: cells
  bus_conns :: "conn_id \<Rightarrow> conn option"
  bus_n_conns :: nat
  bus_tasks :: "call_id \<Rightarrow> task option"
  bus_n_tasks :: nat
  bus_oneshots :: "call_id \<Rightarrow> response option"
  bus_token_counter :: u64

definition fresh_cell :: cell where
  "fresh_cell = \<lparr>cl_queue = [], cl_open = True, cl_pending = [], cl_next_req = 1\<rparr>"

definition bus_init :: "broker_config \<Rightarrow> bus" where
  "bus_init config =
     \<lparr>bus_broker = broker_new config, bus_cells = (\<lambda>_. fresh_cell), bus_conns = (\<lambda>_. None),
      bus_n_conns = 0, bus_tasks = (\<lambda>_. None), bus_n_tasks = 0, bus_oneshots = (\<lambda>_. None),
      bus_token_counter = 0\<rparr>"

definition spawn_task :: "task \<Rightarrow> bus \<Rightarrow> bus" where
  "spawn_task t s =
     s\<lparr>bus_tasks := (bus_tasks s)(bus_n_tasks s \<mapsto> t), bus_n_tasks := Suc (bus_n_tasks s)\<rparr>"

subsection \<open>From the end of a call to its continuation\<close>

definition finish_task ::
  "(bytes \<Rightarrow> capability_response option) \<Rightarrow> call_id \<Rightarrow> origin \<Rightarrow> bytes bus_result \<Rightarrow> bus \<Rightarrow> bus" where
  "finish_task json i og result s =
     (let s1 = s\<lparr>bus_tasks := (bus_tasks s)(i \<mapsto> Done result)\<rparr>
      in case og of
           FromHttp \<Rightarrow> s1
         | FromApp c req_id \<Rightarrow>
             s1\<lparr>bus_cells :=
                  fst (chan_send c (Response \<lparr>rsp_req_id = req_id, rsp_result = result\<rparr>) (bus_cells s1))\<rparr>
         | FromProbe service generation \<Rightarrow>
             s1\<lparr>bus_broker := probe_done json service generation result (bus_broker s1)\<rparr>)"

definition start_call ::
  "(bytes \<Rightarrow> capability_response option) \<Rightarrow> call_id \<Rightarrow> origin \<Rightarrow> call_spec \<Rightarrow> bus \<Rightarrow> bus" where
  "start_call json i og spec s =
     (case call_begin (bus_broker s) i (cs_service spec) (cs_method spec) (cs_payload spec)
             (cs_caller spec) (bus_cells s) of
        (Inl e, cells) \<Rightarrow> finish_task json i og (Inl e) (s\<lparr>bus_cells := cells\<rparr>)
      | (Inr w, cells) \<Rightarrow>
          s\<lparr>bus_cells := cells, bus_tasks := (bus_tasks s)(i \<mapsto> Awaiting og spec w)\<rparr>)"

definition bad_invoke_text :: "string \<Rightarrow> string" where
  "bad_invoke_text m =
     ''invoke method must be '' @ backtick @ ''service.method'' @ backtick @ '', got '' @ backtick @ m @ backtick"

definition stamp_caller :: "string \<Rightarrow> caller_ctx \<Rightarrow> caller_ctx" where
  "stamp_caller originator caller = caller\<lparr>cc_caller_app_id := Some originator\<rparr>"

fun start_task :: "(bytes \<Rightarrow> capability_response option) \<Rightarrow> call_id \<Rightarrow> task \<Rightarrow> bus \<Rightarrow> bus" where
  "start_task json i (ReadyHttp spec) s = start_call json i FromHttp spec s"
| "start_task json i (ReadyInvoke c originator ivk) s =
     (case split_once (inv_method ivk) (CHR ''.'') of
        None \<Rightarrow>
          finish_task json i (FromApp c (inv_req_id ivk)) (Inl (BadRequest (bad_invoke_text (inv_method ivk)))) s
      | Some (target_service, target_method) \<Rightarrow>
          start_call json i (FromApp c (inv_req_id ivk))
            \<lparr>cs_service = target_service, cs_method = target_method, cs_payload = inv_payload ivk,
             cs_caller = stamp_caller originator (inv_caller ivk),
             cs_timeout = bc_default_call_timeout (br_config (bus_broker s))\<rparr> s)"
| "start_task json i (ReadyProbe service generation) s =
     start_call json i (FromProbe service generation)
       \<lparr>cs_service = service, cs_method = ''capabilities'', cs_payload = probe_payload,
        cs_caller = caller_ctx_default, cs_timeout = bc_default_call_timeout (br_config (bus_broker s))\<rparr> s"
| "start_task json i t s = s"

subsection \<open>The connection task\<close>

definition accept :: "bus_frame option bus_result \<Rightarrow> bus \<Rightarrow> bus" where
  "accept inbound s =
     (case serve_handshake (bus_n_conns s) inbound (bus_broker s) of
        (b, HsAccepted k) \<Rightarrow>
          s\<lparr>bus_broker := b, bus_conns := (bus_conns s)(bus_n_conns s \<mapsto> k),
            bus_n_conns := Suc (bus_n_conns s)\<rparr>
      | (b, _) \<Rightarrow> s\<lparr>bus_broker := b\<rparr>)"

definition close_channel :: "conn_id \<Rightarrow> cells \<Rightarrow> cells" where
  "close_channel c cs = cs(c := (cs c)\<lparr>cl_queue := [], cl_open := False\<rparr>)"

definition set_phase :: "conn_id \<Rightarrow> conn \<Rightarrow> conn_phase \<Rightarrow> bus \<Rightarrow> bus" where
  "set_phase c k ph s = s\<lparr>bus_conns := (bus_conns s)(c \<mapsto> k\<lparr>cn_phase := ph\<rparr>)\<rparr>"

text \<open>A failed acknowledgement undoes the registration; a written one attaches the session.\<close>

definition ack_failed :: "conn_id \<Rightarrow> conn \<Rightarrow> bus \<Rightarrow> bus" where
  "ack_failed c k s =
     set_phase c k Ended
       (s\<lparr>bus_broker := (bus_broker s)\<lparr>br_registry :=
            fst (registry_remove_if (br_registry (bus_broker s)) (hr_service (cn_hello k)) (cn_generation k))\<rparr>,
          bus_cells := close_channel c (bus_cells s)\<rparr>)"

definition ack_written :: "conn_id \<Rightarrow> conn \<Rightarrow> bus \<Rightarrow> bus" where
  "ack_written c k s =
     (let service = hr_service (cn_hello k);
          b1 = attach_session service (cn_generation k) \<lparr>sh_pending_out = c, sh_next_req_id = c\<rparr> (bus_broker s);
          b2 = probe_start service b1
      in spawn_task (ReadyProbe service (cn_generation k)) (set_phase c k Serving (s\<lparr>bus_broker := b2\<rparr>)))"

definition session_end :: "conn_id \<Rightarrow> conn \<Rightarrow> bus \<Rightarrow> bus" where
  "session_end c k s =
     (let service = hr_service (cn_hello k);
          b1 = detach_session service (cn_generation k) (bus_broker s);
          b2 = b1\<lparr>br_registry := fst (registry_remove_if (br_registry b1) service (cn_generation k))\<rparr>
      in set_phase c k Ended (s\<lparr>bus_broker := b2, bus_cells := close_channel c (bus_cells s)\<rparr>))"

definition deliver_response :: "conn_id \<Rightarrow> response \<Rightarrow> bus \<Rightarrow> bus" where
  "deliver_response c resp s =
     (case dm_get (cl_pending (bus_cells s c)) (rsp_req_id resp) of
        None \<Rightarrow> s
      | Some waker \<Rightarrow>
          s\<lparr>bus_cells := (bus_cells s)(c := (bus_cells s c)\<lparr>cl_pending :=
              dm_remove (rsp_req_id resp) (cl_pending (bus_cells s c))\<rparr>),
            bus_oneshots := (bus_oneshots s)(waker \<mapsto> resp)\<rparr>)"

definition session_inbound :: "conn_id \<Rightarrow> conn \<Rightarrow> bus_frame option bus_result \<Rightarrow> bus \<Rightarrow> bus" where
  "session_inbound c k inbound s =
     (case inbound of
        Inl e \<Rightarrow> session_end c k s
      | Inr None \<Rightarrow> session_end c k s
      | Inr (Some f) \<Rightarrow>
          (case f of
             Pong \<Rightarrow> s
           | Response resp \<Rightarrow> deliver_response c resp s
           | Publish ev \<Rightarrow>
               s\<lparr>bus_cells := fanout (bus_broker s) (hr_service (cn_hello k)) ev (bus_cells s)\<rparr>
           | Subscribe topic_prefix \<Rightarrow>
               s\<lparr>bus_broker := subscribe (hr_service (cn_hello k)) topic_prefix (bus_broker s)\<rparr>
           | Unsubscribe topic_prefix \<Rightarrow>
               s\<lparr>bus_broker := unsubscribe (hr_service (cn_hello k)) topic_prefix (bus_broker s)\<rparr>
           | Invoke ivk \<Rightarrow> spawn_task (ReadyInvoke c (hr_service (cn_hello k)) ivk) s
           | _ \<Rightarrow> s))"

subsection \<open>Actions\<close>

datatype bus_action =
    IssueToken string u64 u32
  | RegisterLocal string "method_decl list" handler_id
  | Accept "bus_frame option bus_result"
  | AckWrite conn_id bool
  | Inbound conn_id "bus_frame option bus_result"
  | WriterStep conn_id bool
  | HttpCall call_spec
  | ShutdownService string
  | StartTask call_id
  | LocalResolves call_id "bytes bus_result"
  | TimerFires call_id
  | OneshotReady call_id
  | OneshotClosed call_id

definition held :: "bus \<Rightarrow> conn_id \<Rightarrow> bool" where
  "held s c \<longleftrightarrow>
     (case bus_conns s c of None \<Rightarrow> False | Some k \<Rightarrow> cn_phase k = Serving) \<or>
     (\<exists>h \<in> set (map snd (br_sessions (bus_broker s))). sh_pending_out h = c) \<or>
     (\<exists>i \<in> {..<bus_n_tasks s}.
        case bus_tasks s i of
          Some (Awaiting og spec (WaitRemote h req_id)) \<Rightarrow> sh_pending_out h = c
        | _ \<Rightarrow> False)"

definition sender_alive :: "bus \<Rightarrow> call_id \<Rightarrow> bool" where
  "sender_alive s i \<longleftrightarrow>
     (\<exists>c \<in> {..<bus_n_conns s}. held s c \<and> i \<in> set (map snd (cl_pending (bus_cells s c))))"

definition resume_task ::
  "(bytes \<Rightarrow> capability_response option) \<Rightarrow> call_id \<Rightarrow> origin \<Rightarrow> call_spec \<Rightarrow> call_wait \<Rightarrow> wake \<Rightarrow> bus \<Rightarrow> bus" where
  "resume_task json i og spec w wk s =
     (case call_resume w (cs_timeout spec) wk (bus_cells s) of
        (result, cells) \<Rightarrow> finish_task json i og result (s\<lparr>bus_cells := cells\<rparr>))"

fun bus_exec :: "(bytes \<Rightarrow> capability_response option) \<Rightarrow> bus_action \<Rightarrow> bus \<Rightarrow> bus option" where
  "bus_exec json (IssueToken service ns pid) s =
     Some (s\<lparr>bus_broker := fst (issue_token ns pid (bus_token_counter s) service (bus_broker s)),
             bus_token_counter := bus_token_counter s + 1\<rparr>)"
| "bus_exec json (RegisterLocal name methods handler) s =
     Some (s\<lparr>bus_broker := register_local_service name methods handler (bus_broker s)\<rparr>)"
| "bus_exec json (Accept inbound) s = Some (accept inbound s)"
| "bus_exec json (AckWrite c ok) s =
     (case bus_conns s c of
        None \<Rightarrow> None
      | Some k \<Rightarrow>
          (if cn_phase k = AwaitAck
           then Some (if ok then ack_written c k s else ack_failed c k s) else None))"
| "bus_exec json (Inbound c inbound) s =
     (case bus_conns s c of
        None \<Rightarrow> None
      | Some k \<Rightarrow> (if cn_phase k = Serving then Some (session_inbound c k inbound s) else None))"
| "bus_exec json (WriterStep c ok) s =
     (case bus_conns s c of
        None \<Rightarrow> None
      | Some k \<Rightarrow>
          (if cn_phase k = Serving \<and> cl_open (bus_cells s c) \<and> cl_queue (bus_cells s c) \<noteq> []
           then Some (s\<lparr>bus_cells :=
                  (if ok then (bus_cells s)(c := (bus_cells s c)\<lparr>cl_queue := tl (cl_queue (bus_cells s c))\<rparr>)
                   else close_channel c (bus_cells s))\<rparr>)
           else None))"
| "bus_exec json (HttpCall spec) s = Some (spawn_task (ReadyHttp spec) s)"
| "bus_exec json (ShutdownService service) s =
     Some (s\<lparr>bus_cells := snd (shutdown_service (bus_broker s) service (bus_cells s))\<rparr>)"
| "bus_exec json (StartTask i) s =
     (case bus_tasks s i of
        Some (Awaiting og spec w) \<Rightarrow> None
      | Some (Done r) \<Rightarrow> None
      | Some t \<Rightarrow> Some (start_task json i t s)
      | None \<Rightarrow> None)"
| "bus_exec json (LocalResolves i result) s =
     (case bus_tasks s i of
        Some (Awaiting og spec (WaitLocal h m p cl)) \<Rightarrow>
          Some (resume_task json i og spec (WaitLocal h m p cl) (Resolved result) s)
      | _ \<Rightarrow> None)"
| "bus_exec json (TimerFires i) s =
     (case bus_tasks s i of
        Some (Awaiting og spec w) \<Rightarrow>
          (if duration_is_zero (cs_timeout spec) then None
           else Some (resume_task json i og spec w Elapsed s))
      | _ \<Rightarrow> None)"
| "bus_exec json (OneshotReady i) s =
     (case (bus_tasks s i, bus_oneshots s i) of
        (Some (Awaiting og spec (WaitRemote h req_id)), Some resp) \<Rightarrow>
          Some (resume_task json i og spec (WaitRemote h req_id) (Resolved (rsp_result resp)) s)
      | _ \<Rightarrow> None)"
| "bus_exec json (OneshotClosed i) s =
     (case (bus_tasks s i, bus_oneshots s i) of
        (Some (Awaiting og spec (WaitRemote h req_id)), None) \<Rightarrow>
          (if sender_alive s i then None
           else Some (resume_task json i og spec (WaitRemote h req_id) SenderDropped s))
      | _ \<Rightarrow> None)"

section \<open>Lemmas\<close>

named_theorems bus_views

subsection \<open>What an operation leaves alone\<close>

lemma chan_send_views [bus_views]:
  "cl_pending (fst (chan_send c f cs) d) = cl_pending (cs d)"
  "cl_next_req (fst (chan_send c f cs) d) = cl_next_req (cs d)"
  "cl_open (fst (chan_send c f cs) d) = cl_open (cs d)"
  by (simp_all add: chan_send_def)

lemma chan_send_queue:
  "cl_queue (fst (chan_send c f cs) d) =
     cl_queue (cs d) @ (if d = c \<and> cl_open (cs c) then [f] else [])"
  by (simp add: chan_send_def)

lemma fanout_send_views [bus_views]:
  "cl_pending (fanout_send b ev ts cs d) = cl_pending (cs d)"
  "cl_next_req (fanout_send b ev ts cs d) = cl_next_req (cs d)"
  "cl_open (fanout_send b ev ts cs d) = cl_open (cs d)"
  by (induction b ev ts cs rule: fanout_send.induct) (simp_all add: bus_views split: option.splits)

lemma fanout_views [bus_views]:
  "cl_pending (fanout b sv ev cs d) = cl_pending (cs d)"
  "cl_next_req (fanout b sv ev cs d) = cl_next_req (cs d)"
  "cl_open (fanout b sv ev cs d) = cl_open (cs d)"
  by (simp_all add: fanout_def Let_def bus_views)

lemma close_channel_views [bus_views]:
  "cl_pending (close_channel c cs d) = cl_pending (cs d)"
  "cl_next_req (close_channel c cs d) = cl_next_req (cs d)"
  "cl_queue (close_channel c cs d) = (if d = c then [] else cl_queue (cs d))"
  by (simp_all add: close_channel_def)

lemma shutdown_service_snd:
  "snd (shutdown_service b sv cs) =
     (case registry_get (br_registry b) sv of None \<Rightarrow> cs | Some e \<Rightarrow> fst (chan_send (se_tx e) Shutdown cs))"
  by (auto simp: shutdown_service_def split: option.splits prod.splits bool.splits)

lemma shutdown_service_views [bus_views]:
  "cl_pending (snd (shutdown_service b sv cs) d) = cl_pending (cs d)"
  "cl_next_req (snd (shutdown_service b sv cs) d) = cl_next_req (cs d)"
  by (simp_all add: shutdown_service_snd bus_views split: option.splits)

lemma probe_done_views [bus_views]:
  "br_registry (probe_done json sv g r b) = br_registry b"
  "br_sessions (probe_done json sv g r b) = br_sessions b"
  "br_config (probe_done json sv g r b) = br_config b"
  "br_tokens (probe_done json sv g r b) = br_tokens b"
  "br_subscriptions (probe_done json sv g r b) = br_subscriptions b"
  by (simp_all add: probe_done_def split: sum.splits option.splits)

lemma detach_session_views [bus_views]:
  "br_registry (detach_session sv g b) = br_registry b"
  "br_sessions (detach_session sv g b) = dm_remove (sv, g) (br_sessions b)"
  "br_config (detach_session sv g b) = br_config b"
  "br_tokens (detach_session sv g b) = br_tokens b"
  "br_subscriptions (detach_session sv g b) = br_subscriptions b"
  by (simp_all add: detach_session_def Let_def)

lemma sub_views [bus_views]:
  "br_registry (subscribe sv p b) = br_registry b" "br_sessions (subscribe sv p b) = br_sessions b"
  "br_registry (unsubscribe sv p b) = br_registry b" "br_sessions (unsubscribe sv p b) = br_sessions b"
  "br_config (subscribe sv p b) = br_config b" "br_config (unsubscribe sv p b) = br_config b"
  "br_tokens (subscribe sv p b) = br_tokens b" "br_tokens (unsubscribe sv p b) = br_tokens b"
  by (simp_all add: subscribe_def unsubscribe_def split: option.splits)

lemma finish_task_views [bus_views]:
  "br_registry (bus_broker (finish_task json i og r s)) = br_registry (bus_broker s)"
  "br_sessions (bus_broker (finish_task json i og r s)) = br_sessions (bus_broker s)"
  "br_config (bus_broker (finish_task json i og r s)) = br_config (bus_broker s)"
  "br_tokens (bus_broker (finish_task json i og r s)) = br_tokens (bus_broker s)"
  "br_subscriptions (bus_broker (finish_task json i og r s)) = br_subscriptions (bus_broker s)"
  "bus_conns (finish_task json i og r s) = bus_conns s"
  "bus_n_conns (finish_task json i og r s) = bus_n_conns s"
  "bus_n_tasks (finish_task json i og r s) = bus_n_tasks s"
  "bus_oneshots (finish_task json i og r s) = bus_oneshots s"
  "bus_tasks (finish_task json i og r s) = (bus_tasks s)(i \<mapsto> Done r)"
  "cl_pending (bus_cells (finish_task json i og r s) d) = cl_pending (bus_cells s d)"
  "cl_next_req (bus_cells (finish_task json i og r s) d) = cl_next_req (bus_cells s d)"
  by (simp_all add: finish_task_def Let_def bus_views split: origin.splits)


lemma start_call_views [bus_views]:
  "br_registry (bus_broker (start_call json i og sp s)) = br_registry (bus_broker s)"
  "br_sessions (bus_broker (start_call json i og sp s)) = br_sessions (bus_broker s)"
  "br_config (bus_broker (start_call json i og sp s)) = br_config (bus_broker s)"
  "br_tokens (bus_broker (start_call json i og sp s)) = br_tokens (bus_broker s)"
  "br_subscriptions (bus_broker (start_call json i og sp s)) = br_subscriptions (bus_broker s)"
  "bus_conns (start_call json i og sp s) = bus_conns s"
  "bus_n_conns (start_call json i og sp s) = bus_n_conns s"
  "bus_n_tasks (start_call json i og sp s) = bus_n_tasks s"
  "bus_oneshots (start_call json i og sp s) = bus_oneshots s"
  by (simp_all add: start_call_def bus_views split: prod.splits sum.splits)

lemma start_task_views [bus_views]:
  "br_registry (bus_broker (start_task json i t s)) = br_registry (bus_broker s)"
  "br_sessions (bus_broker (start_task json i t s)) = br_sessions (bus_broker s)"
  "br_config (bus_broker (start_task json i t s)) = br_config (bus_broker s)"
  "br_tokens (bus_broker (start_task json i t s)) = br_tokens (bus_broker s)"
  "br_subscriptions (bus_broker (start_task json i t s)) = br_subscriptions (bus_broker s)"
  "bus_conns (start_task json i t s) = bus_conns s"
  "bus_n_conns (start_task json i t s) = bus_n_conns s"
  "bus_n_tasks (start_task json i t s) = bus_n_tasks s"
  "bus_oneshots (start_task json i t s) = bus_oneshots s"
  by (cases t; simp add: bus_views split: option.splits)+

lemma resume_task_views [bus_views]:
  "br_registry (bus_broker (resume_task json i og sp w wk s)) = br_registry (bus_broker s)"
  "br_sessions (bus_broker (resume_task json i og sp w wk s)) = br_sessions (bus_broker s)"
  "br_config (bus_broker (resume_task json i og sp w wk s)) = br_config (bus_broker s)"
  "br_tokens (bus_broker (resume_task json i og sp w wk s)) = br_tokens (bus_broker s)"
  "br_subscriptions (bus_broker (resume_task json i og sp w wk s)) = br_subscriptions (bus_broker s)"
  "bus_conns (resume_task json i og sp w wk s) = bus_conns s"
  "bus_n_conns (resume_task json i og sp w wk s) = bus_n_conns s"
  "bus_n_tasks (resume_task json i og sp w wk s) = bus_n_tasks s"
  "bus_oneshots (resume_task json i og sp w wk s) = bus_oneshots s"
  by (simp_all add: resume_task_def bus_views split: prod.splits)

lemma spawn_task_views [bus_views]:
  "bus_broker (spawn_task t s) = bus_broker s" "bus_cells (spawn_task t s) = bus_cells s"
  "bus_conns (spawn_task t s) = bus_conns s" "bus_n_conns (spawn_task t s) = bus_n_conns s"
  "bus_oneshots (spawn_task t s) = bus_oneshots s" "bus_n_tasks (spawn_task t s) = Suc (bus_n_tasks s)"
  "bus_tasks (spawn_task t s) = (bus_tasks s)(bus_n_tasks s \<mapsto> t)"
  by (simp_all add: spawn_task_def)

lemma deliver_response_views [bus_views]:
  "bus_broker (deliver_response c r s) = bus_broker s" "bus_conns (deliver_response c r s) = bus_conns s"
  "bus_n_conns (deliver_response c r s) = bus_n_conns s" "bus_tasks (deliver_response c r s) = bus_tasks s"
  "bus_n_tasks (deliver_response c r s) = bus_n_tasks s"
  "cl_next_req (bus_cells (deliver_response c r s) d) = cl_next_req (bus_cells s d)"
  "cl_queue (bus_cells (deliver_response c r s) d) = cl_queue (bus_cells s d)"
  by (simp_all add: deliver_response_def split: option.splits)

lemma set_phase_views [bus_views]:
  "bus_broker (set_phase c k ph s) = bus_broker s" "bus_cells (set_phase c k ph s) = bus_cells s"
  "bus_n_conns (set_phase c k ph s) = bus_n_conns s" "bus_tasks (set_phase c k ph s) = bus_tasks s"
  "bus_n_tasks (set_phase c k ph s) = bus_n_tasks s" "bus_oneshots (set_phase c k ph s) = bus_oneshots s"
  "bus_conns (set_phase c k ph s) = (bus_conns s)(c \<mapsto> k\<lparr>cn_phase := ph\<rparr>)"
  by (simp_all add: set_phase_def)

end
