(* ===== verification/Connections.thy ===== *)
theory Connections
  imports Session
begin

text \<open>
  What holds of the connections in every reachable state of the bus: the invariant \<open>conn_inv\<close> ties
  the registry and the session map to the connections (a generation names one connection, the
  registry routes a service to its newest connection while that one lives, the session map holds
  exactly the serving connections). Every action keeps it, so it holds after every run shorter
  than the range of the generation counter. The account \<open>token_level\<close> bounds the connections a
  service can have by the tokens issued for it.
\<close>

section \<open>Definitions\<close>

abbreviation handle :: "conn_id \<Rightarrow> session_handle" where
  "handle c \<equiv> \<lparr>sh_pending_out = c, sh_next_req_id = c\<rparr>"

abbreviation cn_service :: "conn \<Rightarrow> string" where
  "cn_service k \<equiv> hr_service (cn_hello k)"

text \<open>The entry a connection registers.\<close>

definition entry_of :: "conn_id \<Rightarrow> conn \<Rightarrow> service_entry" where
  "entry_of c k =
     \<lparr>se_service = hr_service (cn_hello k), se_generation = cn_generation k, se_tx = c,
      se_methods = hr_methods (cn_hello k), se_pid = hr_pid (cn_hello k),
      se_data_plane = hr_data_plane (cn_hello k)\<rparr>"

text \<open>
  Generations are bounded by the number of steps and name one connection each; the registry holds
  entries of live connections, and the newest connection of a service while it lives; the session
  map holds exactly the serving connections.
\<close>

definition gens_ok :: "nat \<Rightarrow> registry \<Rightarrow> (conn_id \<Rightarrow> conn option) \<Rightarrow> nat \<Rightarrow> bool" where
  "gens_ok n reg conns nc \<longleftrightarrow>
     unat (reg_next_gen reg) \<le> n \<and>
     (\<forall>c k. conns c = Some k \<longrightarrow> c < nc \<and> unat (cn_generation k) \<le> unat (reg_next_gen reg)) \<and>
     (\<forall>c d k l. conns c = Some k \<and> conns d = Some l \<and> cn_generation k = cn_generation l \<longrightarrow> c = d)"

definition entries_ok :: "registry \<Rightarrow> (conn_id \<Rightarrow> conn option) \<Rightarrow> bool" where
  "entries_ok reg conns \<longleftrightarrow>
     (\<forall>sv e. registry_get reg sv = Some e \<longrightarrow>
        (\<exists>k. conns (se_tx e) = Some k \<and> cn_phase k \<noteq> Ended \<and> cn_service k = sv \<and> e = entry_of (se_tx e) k))"

definition newest_ok :: "registry \<Rightarrow> (conn_id \<Rightarrow> conn option) \<Rightarrow> bool" where
  "newest_ok reg conns \<longleftrightarrow>
     (\<forall>c k. conns c = Some k \<and> cn_phase k \<noteq> Ended \<and>
        (\<forall>d l. conns d = Some l \<and> cn_service l = cn_service k \<longrightarrow>
           unat (cn_generation l) \<le> unat (cn_generation k)) \<longrightarrow>
        registry_get reg (cn_service k) = Some (entry_of c k))"

definition serving :: "(conn_id \<Rightarrow> conn option) \<Rightarrow> conn_id \<Rightarrow> conn \<Rightarrow> bool" where
  "serving conns c k \<longleftrightarrow> conns c = Some k \<and> cn_phase k = Serving"

definition sessions_ok ::
  "(string \<times> u64, session_handle) dashmap \<Rightarrow> (conn_id \<Rightarrow> conn option) \<Rightarrow> bool" where
  "sessions_ok sess conns \<longleftrightarrow>
     (\<forall>sv g h. dm_get sess (sv, g) = Some h \<longleftrightarrow>
        (\<exists>c k. h = handle c \<and> serving conns c k \<and> cn_service k = sv \<and> cn_generation k = g))"

definition conn_inv :: "nat \<Rightarrow> bus \<Rightarrow> bool" where
  "conn_inv n s \<longleftrightarrow>
     gens_ok n (br_registry (bus_broker s)) (bus_conns s) (bus_n_conns s) \<and>
     entries_ok (br_registry (bus_broker s)) (bus_conns s) \<and>
     newest_ok (br_registry (bus_broker s)) (bus_conns s) \<and>
     sessions_ok (br_sessions (bus_broker s)) (bus_conns s)"

definition accepted_conns :: "string \<Rightarrow> bus \<Rightarrow> nat" where
  "accepted_conns service s =
     length (filter (\<lambda>c. case bus_conns s c of None \<Rightarrow> False | Some k \<Rightarrow> cn_service k = service)
               [0..<bus_n_conns s])"

definition token_level :: "string \<Rightarrow> bus \<Rightarrow> nat" where
  "token_level service s =
     accepted_conns service s + (if dm_contains_key (br_tokens (bus_broker s)) service then 1 else 0)"

definition issues :: "string \<Rightarrow> bus_action \<Rightarrow> nat" where
  "issues service a =
     (case a of IssueToken sv ns pid \<Rightarrow> if sv = service then 1 else 0 | _ \<Rightarrow> 0)"

section \<open>Lemmas\<close>

subsection \<open>Connections, the registry and the session map\<close>

lemma conn_inv_mono: "conn_inv n s \<Longrightarrow> n \<le> m \<Longrightarrow> conn_inv m s"
  by (auto simp: conn_inv_def gens_ok_def)

lemma conn_inv_frame:
  assumes "conn_inv n s" "n \<le> m"
    and "br_registry (bus_broker t) = br_registry (bus_broker s)"
    and "br_sessions (bus_broker t) = br_sessions (bus_broker s)"
    and "bus_conns t = bus_conns s" "bus_n_conns t = bus_n_conns s"
  shows "conn_inv m t"
  using conn_inv_mono [OF assms(1,2)] assms(3-) by (simp add: conn_inv_def)

lemma entry_of_sel [simp]:
  "se_tx (entry_of c k) = c" "se_service (entry_of c k) = cn_service k"
  "se_generation (entry_of c k) = cn_generation k" "se_methods (entry_of c k) = hr_methods (cn_hello k)"
  by (simp_all add: entry_of_def)

lemma entry_of_phase [simp]: "entry_of c (k\<lparr>cn_phase := ph\<rparr>) = entry_of c k"
  by (simp add: entry_of_def)

lemma serve_handshake_accepted:
  assumes "serve_handshake c inbound b = (b', HsAccepted k)"
  shows "\<exists>hello. inbound = Inr (Some (Hello hello)) \<and> cn_hello k = hello \<and> cn_phase k = AwaitAck \<and>
    pv_major (hr_protocol hello) = pv_major PROTOCOL_CURRENT \<and>
    dm_get (br_tokens b) (hr_service hello) = Some (hr_auth_token hello) \<and>
    br_tokens b' = dm_remove (hr_service hello) (br_tokens b) \<and>
    cn_generation k = reg_next_gen (br_registry b) + 1 \<and>
    cn_client_id k = br_next_client_id b \<and>
    br_registry b' = fst (registry_insert (br_registry b) (entry_of c k)) \<and>
    br_sessions b' = br_sessions b \<and> br_config b' = br_config b"
  using assms
  by (auto simp: serve_handshake_def consume_token_def next_client_id_def registry_insert_def Let_def entry_of_def
      split: sum.splits option.splits bus_frame.splits if_splits bool.splits)

lemma serve_handshake_refused:
  assumes "serve_handshake c inbound b = (b', h)" "\<nexists>k. h = HsAccepted k"
  shows "br_registry b' = br_registry b \<and> br_sessions b' = br_sessions b \<and> br_config b' = br_config b"
  using assms
  by (auto simp: serve_handshake_def consume_token_def next_client_id_def registry_insert_def Let_def
      split: sum.splits option.splits bus_frame.splits if_splits bool.splits)

lemma get_insert_entry:
  "cn_generation k = reg_next_gen reg + 1 \<Longrightarrow>
   registry_get (fst (registry_insert reg (entry_of c k))) sv =
     (if sv = cn_service k then Some (entry_of c k) else registry_get reg sv)"
  by (simp add: registry_get_insert entry_of_def)

lemma gens_okD:
  "gens_ok n reg conns nc \<Longrightarrow> conns c = Some k \<Longrightarrow> c < nc \<and> unat (cn_generation k) \<le> unat (reg_next_gen reg)"
  by (simp add: gens_ok_def)

lemma newest_okD:
  "newest_ok reg conns \<Longrightarrow> conns c = Some k \<Longrightarrow> cn_phase k \<noteq> Ended \<Longrightarrow>
   (\<And>d l. conns d = Some l \<Longrightarrow> cn_service l = cn_service k \<Longrightarrow>
      unat (cn_generation l) \<le> unat (cn_generation k)) \<Longrightarrow>
   registry_get reg (cn_service k) = Some (entry_of c k)"
  unfolding newest_ok_def by blast

lemma gens_ok_fresh:
  assumes "gens_ok n reg conns nc" "n < 2 ^ 64 - 2"
  shows "conns nc = None" "unat (reg_next_gen reg + 1) = unat (reg_next_gen reg) + 1"
    "conns c = Some k \<Longrightarrow> unat (cn_generation k) < unat (reg_next_gen reg + 1)"
    "conns c = Some k \<Longrightarrow> cn_generation k \<noteq> reg_next_gen reg + 1"
proof -
  from assms show "conns nc = None" by (cases "conns nc") (auto simp: gens_ok_def)
  from assms show u: "unat (reg_next_gen reg + 1) = unat (reg_next_gen reg) + 1"
    by (intro unat_Suc_u64) (simp add: gens_ok_def)
  {
    assume k: "conns c = Some k"
    with assms(1) have "unat (cn_generation k) \<le> unat (reg_next_gen reg)" by (simp add: gens_ok_def)
    with u show "unat (cn_generation k) < unat (reg_next_gen reg + 1)" by simp
    then show "cn_generation k \<noteq> reg_next_gen reg + 1" by auto
  }
qed

lemma gens_ok_accept:
  assumes "gens_ok n reg conns nc" "n < 2 ^ 64 - 2" "cn_generation k = reg_next_gen reg + 1"
  shows "gens_ok (Suc n) (fst (registry_insert reg (entry_of nc k))) (conns(nc \<mapsto> k)) (Suc nc)"
proof -
  note fresh = gens_ok_fresh [OF assms(1,2)]
  have "c < Suc nc \<and> unat (cn_generation l) \<le> unat (reg_next_gen reg + 1)"
    if "(conns(nc \<mapsto> k)) c = Some l" for c l
    using that assms(3) fresh(2) gens_okD [OF assms(1), of c l] by (auto split: if_splits)
  moreover have "c = d" if "(conns(nc \<mapsto> k)) c = Some l" "(conns(nc \<mapsto> k)) d = Some m"
    "cn_generation l = cn_generation m" for c d l m
    using that fresh(4) [of c l] fresh(4) [of d m] assms(1,3) by (auto simp: gens_ok_def split: if_splits)
  moreover have "unat (reg_next_gen reg + 1) \<le> Suc n"
    using assms(1) fresh(2) by (simp add: gens_ok_def)
  ultimately show ?thesis
    unfolding gens_ok_def registry_insert_next by blast
qed

lemma entries_ok_accept:
  assumes "entries_ok reg conns" "conns nc = None" "cn_generation k = reg_next_gen reg + 1"
    "cn_phase k \<noteq> Ended"
  shows "entries_ok (fst (registry_insert reg (entry_of nc k))) (conns(nc \<mapsto> k))"
  using assms by (fastforce simp: entries_ok_def get_insert_entry)

lemma newest_ok_accept:
  assumes "newest_ok reg conns" "gens_ok n reg conns nc" "n < 2 ^ 64 - 2"
    "cn_generation k = reg_next_gen reg + 1" "cn_phase k \<noteq> Ended"
  shows "newest_ok (fst (registry_insert reg (entry_of nc k))) (conns(nc \<mapsto> k))"
  unfolding newest_ok_def
proof (intro allI impI, elim conjE)
  fix c l
  assume l: "(conns(nc \<mapsto> k)) c = Some l" "cn_phase l \<noteq> Ended"
    and top: "\<forall>d m. (conns(nc \<mapsto> k)) d = Some m \<and> cn_service m = cn_service l \<longrightarrow>
      unat (cn_generation m) \<le> unat (cn_generation l)"
  note fresh = gens_ok_fresh [OF assms(2,3)]
  show "registry_get (fst (registry_insert reg (entry_of nc k))) (cn_service l) = Some (entry_of c l)"
  proof (cases "c = nc")
    case True
    with l(1) assms(4) show ?thesis by (simp add: get_insert_entry)
  next
    case False
    with l(1) have old: "conns c = Some l" by simp
    have "cn_service l \<noteq> cn_service k"
      using top [rule_format, of nc k] fresh(3) [OF old] assms(4) by auto
    moreover have "unat (cn_generation m) \<le> unat (cn_generation l)"
      if "conns d = Some m" "cn_service m = cn_service l" for d m
      using top [rule_format, of d m] that fresh(1) by (cases "d = nc") auto
    then have "registry_get reg (cn_service l) = Some (entry_of c l)"
      by (rule newest_okD [OF assms(1) old l(2)])
    ultimately show ?thesis using assms(4) by (simp add: get_insert_entry)
  qed
qed

lemma sessions_ok_accept:
  assumes "sessions_ok sess conns" "conns nc = None" "cn_phase k \<noteq> Serving"
  shows "sessions_ok sess (conns(nc \<mapsto> k))"
proof -
  have "serving (conns(nc \<mapsto> k)) = serving conns"
    using assms(2,3) by (intro ext) (auto simp: serving_def)
  with assms(1) show ?thesis by (simp add: sessions_ok_def)
qed

lemma conn_inv_accept:
  assumes "conn_inv n s" "n < 2 ^ 64 - 2"
  shows "conn_inv (Suc n) (accept inbound s)"
proof (cases "serve_handshake (bus_n_conns s) inbound (bus_broker s)")
  case (Pair b h)
  show ?thesis
  proof (cases "\<exists>k. h = HsAccepted k")
    case True
    then obtain k where h: "h = HsAccepted k" by blast
    note acc = serve_handshake_accepted [OF Pair [unfolded h]]
    from assms have inv: "gens_ok n (br_registry (bus_broker s)) (bus_conns s) (bus_n_conns s)"
      "entries_ok (br_registry (bus_broker s)) (bus_conns s)" "newest_ok (br_registry (bus_broker s)) (bus_conns s)"
      "sessions_ok (br_sessions (bus_broker s)) (bus_conns s)"
      by (simp_all add: conn_inv_def)
    show ?thesis
      using Pair h acc gens_ok_fresh(1) [OF inv(1) assms(2)]
        gens_ok_accept [OF inv(1) assms(2)] entries_ok_accept [OF inv(2)]
        newest_ok_accept [OF inv(3,1) assms(2)] sessions_ok_accept [OF inv(4)]
      by (auto simp: accept_def conn_inv_def)
  next
    case False
    with serve_handshake_refused [OF Pair] Pair assms(1) show ?thesis
      by (intro conn_inv_frame [OF assms(1)]) (auto simp: accept_def split: handshake.splits)
  qed
qed

subsubsection \<open>The end of a connection\<close>

lemma gens_ok_phase:
  "gens_ok n reg conns nc \<Longrightarrow> conns c = Some k \<Longrightarrow> gens_ok (Suc n) reg (conns(c \<mapsto> k\<lparr>cn_phase := ph\<rparr>)) nc"
  by (auto simp: gens_ok_def le_SucI)

lemma get_remove_own:
  assumes "entries_ok reg conns" "gens_ok n reg conns nc" "conns c = Some k"
  shows "registry_get (fst (registry_remove_if reg (cn_service k) (cn_generation k))) sv = Some e \<longleftrightarrow>
    registry_get reg sv = Some e \<and> se_tx e \<noteq> c"
proof -
  have own: "se_tx e = c \<longleftrightarrow> se_generation e = cn_generation k" if "registry_get reg sv = Some e" for sv e
  proof -
    from assms(1) that obtain l where l: "conns (se_tx e) = Some l" "e = entry_of (se_tx e) l"
      by (auto simp: entries_ok_def)
    then have gen: "se_generation e = cn_generation l" by (metis entry_of_sel(3))
    show ?thesis
    proof
      assume "se_tx e = c"
      with l(1) assms(3) gen show "se_generation e = cn_generation k" by simp
    next
      assume "se_generation e = cn_generation k"
      with assms(2,3) l(1) gen show "se_tx e = c" by (simp add: gens_ok_def)
    qed
  qed
  have sv: "sv = cn_service k" if "registry_get reg sv = Some e" "se_tx e = c" for e
    using assms(1,3) that by (fastforce simp: entries_ok_def)
  have "registry_get reg sv = Some e \<Longrightarrow>
      se_tx e = c \<longleftrightarrow> sv = cn_service k \<and> se_generation e = cn_generation k"
    using own sv by blast
  then show ?thesis by (auto simp: registry_get_remove_if)
qed

lemma entries_ok_end:
  assumes "entries_ok reg conns" "gens_ok n reg conns nc" "conns c = Some k"
  shows "entries_ok (fst (registry_remove_if reg (cn_service k) (cn_generation k)))
    (conns(c \<mapsto> k\<lparr>cn_phase := Ended\<rparr>))"
  using assms(1) unfolding entries_ok_def get_remove_own [OF assms] by auto

lemma newest_ok_end:
  assumes "newest_ok reg conns" "entries_ok reg conns" "gens_ok n reg conns nc" "conns c = Some k"
  shows "newest_ok (fst (registry_remove_if reg (cn_service k) (cn_generation k)))
    (conns(c \<mapsto> k\<lparr>cn_phase := Ended\<rparr>))"
  unfolding newest_ok_def get_remove_own [OF assms(2-4)]
proof (intro allI impI, elim conjE)
  fix d l
  assume l: "(conns(c \<mapsto> k\<lparr>cn_phase := Ended\<rparr>)) d = Some l" "cn_phase l \<noteq> Ended"
    and top: "\<forall>d' m. (conns(c \<mapsto> k\<lparr>cn_phase := Ended\<rparr>)) d' = Some m \<and> cn_service m = cn_service l \<longrightarrow>
      unat (cn_generation m) \<le> unat (cn_generation l)"
  have "d \<noteq> c" using l by auto
  with l have old: "conns d = Some l" by simp
  have "unat (cn_generation m) \<le> unat (cn_generation l)" if "conns d' = Some m" "cn_service m = cn_service l" for d' m
    using top [rule_format, of d' "if d' = c then k\<lparr>cn_phase := Ended\<rparr> else m"] that assms(4)
    by (cases "d' = c") auto
  then have "registry_get reg (cn_service l) = Some (entry_of d l)"
    by (rule newest_okD [OF assms(1) old l(2)])
  with \<open>d \<noteq> c\<close> show "registry_get reg (cn_service l) = Some (entry_of d l) \<and> se_tx (entry_of d l) \<noteq> c"
    by simp
qed

lemma sessions_ok_end:
  assumes "sessions_ok sess conns" "gens_ok n reg conns nc" "conns c = Some k"
  shows "sessions_ok (dm_remove (cn_service k, cn_generation k) sess) (conns(c \<mapsto> k\<lparr>cn_phase := Ended\<rparr>))"
proof -
  have "serving (conns(c \<mapsto> k\<lparr>cn_phase := Ended\<rparr>)) d l \<longleftrightarrow>
      serving conns d l \<and> (cn_service l, cn_generation l) \<noteq> (cn_service k, cn_generation k)" for d l
    using assms(2,3) by (cases "d = c") (auto simp: serving_def gens_ok_def)
  with assms(1) show ?thesis by (auto simp: sessions_ok_def)
qed

lemma sessions_ok_attach:
  assumes "sessions_ok sess conns" "gens_ok n reg conns nc" "conns c = Some k"
  shows "sessions_ok (dm_insert (cn_service k, cn_generation k) (handle c) sess)
    (conns(c \<mapsto> k\<lparr>cn_phase := Serving\<rparr>))"
proof -
  have other: "serving (conns(c \<mapsto> k\<lparr>cn_phase := Serving\<rparr>)) d l \<longleftrightarrow>
      d = c \<and> l = k\<lparr>cn_phase := Serving\<rparr> \<or>
      serving conns d l \<and> (cn_service l, cn_generation l) \<noteq> (cn_service k, cn_generation k)" for d l
    using assms(2,3) by (cases "d = c") (auto simp: serving_def gens_ok_def)
  show ?thesis
    unfolding sessions_ok_def
  proof (intro allI)
    fix sv g h
    show "dm_get (dm_insert (cn_service k, cn_generation k) (handle c) sess) (sv, g) = Some h \<longleftrightarrow>
      (\<exists>d l. h = handle d \<and> serving (conns(c \<mapsto> k\<lparr>cn_phase := Serving\<rparr>)) d l \<and> cn_service l = sv \<and> cn_generation l = g)"
    proof (cases "(sv, g) = (cn_service k, cn_generation k)")
      case True
      then show ?thesis
        unfolding other
        apply auto
        apply (rule exI [where x = "k\<lparr>cn_phase := Serving\<rparr>"])
        apply simp
        done
    next
      case False
      then show ?thesis using assms(1) unfolding other sessions_ok_def by auto
    qed
  qed
qed

lemma entries_ok_phase:
  "entries_ok reg conns \<Longrightarrow> conns c = Some k \<Longrightarrow> ph \<noteq> Ended \<Longrightarrow>
   entries_ok reg (conns(c \<mapsto> k\<lparr>cn_phase := ph\<rparr>))"
  by (fastforce simp: entries_ok_def)

lemma newest_ok_phase:
  assumes "newest_ok reg conns" "conns c = Some k" "cn_phase k \<noteq> Ended" "ph \<noteq> Ended"
  shows "newest_ok reg (conns(c \<mapsto> k\<lparr>cn_phase := ph\<rparr>))"
  unfolding newest_ok_def
proof (intro allI impI, elim conjE)
  let ?conns = "conns(c \<mapsto> k\<lparr>cn_phase := ph\<rparr>)"
  fix d l
  assume l: "?conns d = Some l" "cn_phase l \<noteq> Ended"
    and top: "\<forall>d' m. ?conns d' = Some m \<and> cn_service m = cn_service l \<longrightarrow>
      unat (cn_generation m) \<le> unat (cn_generation l)"
  obtain l0 where l0: "conns d = Some l0" "cn_phase l0 \<noteq> Ended" "cn_service l0 = cn_service l"
    "cn_generation l0 = cn_generation l" "entry_of d l0 = entry_of d l"
    using l assms(2,3) by (cases "d = c") auto
  have "unat (cn_generation m) \<le> unat (cn_generation l0)" if "conns d' = Some m" "cn_service m = cn_service l0" for d' m
    using top [rule_format, of d' "if d' = c then k\<lparr>cn_phase := ph\<rparr> else m"] that assms(2) l0
    by (cases "d' = c") auto
  then have "registry_get reg (cn_service l0) = Some (entry_of d l0)"
    by (rule newest_okD [OF assms(1) l0(1,2)])
  with l0 show "registry_get reg (cn_service l) = Some (entry_of d l)" by simp
qed

lemma gens_ok_remove:
  "gens_ok n reg conns nc \<Longrightarrow> gens_ok n (fst (registry_remove_if reg sv g)) conns nc"
  by (simp add: gens_ok_def)

lemma conn_inv_ack_failed:
  assumes "conn_inv n s" "bus_conns s c = Some k" "cn_phase k = AwaitAck"
  shows "conn_inv (Suc n) (ack_failed c k s)"
proof -
  have "serving ((bus_conns s)(c \<mapsto> k\<lparr>cn_phase := Ended\<rparr>)) = serving (bus_conns s)"
    using assms(2,3) by (intro ext) (auto simp: serving_def)
  with assms show ?thesis
    by (auto simp: ack_failed_def conn_inv_def bus_views sessions_ok_def
        intro: gens_ok_remove gens_ok_phase entries_ok_end newest_ok_end)
qed

lemma conn_inv_session_end:
  assumes "conn_inv n s" "bus_conns s c = Some k"
  shows "conn_inv (Suc n) (session_end c k s)"
  using assms
  by (auto simp: session_end_def Let_def conn_inv_def bus_views
      intro: gens_ok_remove gens_ok_phase entries_ok_end newest_ok_end sessions_ok_end)

lemma conn_inv_ack_written:
  assumes "conn_inv n s" "bus_conns s c = Some k" "cn_phase k = AwaitAck"
  shows "conn_inv (Suc n) (ack_written c k s)"
  using assms
  by (auto simp: ack_written_def Let_def conn_inv_def bus_views attach_session_def probe_start_def
      intro: gens_ok_phase entries_ok_phase newest_ok_phase sessions_ok_attach)

subsubsection \<open>Every action\<close>

lemma conn_inv_inbound:
  assumes "conn_inv n s" "bus_conns s c = Some k"
  shows "conn_inv (Suc n) (session_inbound c k inbound s)"
  using conn_inv_session_end [OF assms] conn_inv_frame [OF assms(1), of "Suc n"]
  by (auto simp: session_inbound_def bus_views split: sum.splits option.splits bus_frame.splits)

lemma conn_inv_exec:
  assumes "conn_inv n s" "n < 2 ^ 64 - 2" "bus_exec json a s = Some t"
  shows "conn_inv (Suc n) t"
proof (cases a)
  case (Accept inbound)
  with assms conn_inv_accept show ?thesis by auto
next
  case (AckWrite c ok)
  with assms show ?thesis
    by (auto simp: conn_inv_ack_written conn_inv_ack_failed split: option.splits if_splits)
next
  case (Inbound c inbound)
  with assms conn_inv_inbound show ?thesis by (auto split: option.splits if_splits)
qed (use assms in \<open>auto simp: bus_views issue_token_def register_local_service_def Let_def
      intro!: conn_inv_frame [OF assms(1), of "Suc n"]
      split: option.splits task.splits if_splits call_wait.splits prod.splits\<close>)

lemma conn_inv_init: "conn_inv 0 (bus_init config)"
  by (simp add: conn_inv_def bus_init_def broker_new_def gens_ok_def registry_default_def registry_get_def entries_ok_def newest_ok_def
      sessions_ok_def serving_def)

interpretation conn: guarded_system "bus_exec json" conn_inv "2 ^ 64 - 2" "bus_init config" for json config
  by unfold_locales (rule conn_inv_exec, assumption+, rule conn_inv_init)

subsection \<open>Tokens\<close>

lemma accepted_conns_cong:
  assumes "bus_n_conns t = bus_n_conns s"
    and "\<And>c. map_option cn_service (bus_conns t c) = map_option cn_service (bus_conns s c)"
  shows "accepted_conns sv t = accepted_conns sv s"
proof -
  have "(case bus_conns t c of None \<Rightarrow> False | Some k \<Rightarrow> cn_service k = sv) \<longleftrightarrow>
      (case bus_conns s c of None \<Rightarrow> False | Some k \<Rightarrow> cn_service k = sv)" for c
    using assms(2) [of c] by (auto split: option.splits)
  with assms(1) show ?thesis by (simp add: accepted_conns_def)
qed

lemma token_level_cong:
  "bus_n_conns t = bus_n_conns s \<Longrightarrow>
   (\<And>c. map_option cn_service (bus_conns t c) = map_option cn_service (bus_conns s c)) \<Longrightarrow>
   br_tokens (bus_broker t) = br_tokens (bus_broker s) \<Longrightarrow> token_level sv t = token_level sv s"
  using accepted_conns_cong [of t s sv] by (simp add: token_level_def)

lemma token_level_accept: "token_level sv (accept inbound s) \<le> token_level sv s"
proof (cases "serve_handshake (bus_n_conns s) inbound (bus_broker s)")
  case (Pair b h)
  show ?thesis
  proof (cases "\<exists>k. h = HsAccepted k")
    case True
    then obtain k where h: "h = HsAccepted k" by blast
    have "accepted_conns sv (accept inbound s) = accepted_conns sv s + (if cn_service k = sv then 1 else 0)"
      using Pair h by (auto simp: accept_def accepted_conns_def intro!: arg_cong [of _ _ length] filter_cong)
    with serve_handshake_accepted [OF Pair [unfolded h]] Pair h show ?thesis
      by (auto simp: accept_def token_level_def dm_contains_key_def)
  next
    case False
    with Pair have "bus_conns (accept inbound s) = bus_conns s" "bus_n_conns (accept inbound s) = bus_n_conns s"
      "bus_broker (accept inbound s) = b"
      by (auto simp: accept_def split: handshake.splits)
    moreover have "dm_contains_key (br_tokens b) sv \<Longrightarrow> dm_contains_key (br_tokens (bus_broker s)) sv"
      using Pair False
      by (auto simp: serve_handshake_def consume_token_def next_client_id_def registry_insert_def Let_def
          dm_contains_key_def
          split: sum.splits option.splits bus_frame.splits if_splits bool.splits)
    ultimately show ?thesis
      using accepted_conns_cong [of "accept inbound s" s sv] by (auto simp: token_level_def)
  qed
qed

lemma token_level_inbound:
  "bus_conns s c = Some k \<Longrightarrow> token_level sv (session_inbound c k inbound s) = token_level sv s"
  by (rule token_level_cong)
    (auto simp: session_inbound_def session_end_def Let_def bus_views
      split: sum.splits option.splits bus_frame.splits)

lemma token_level_exec:
  assumes "bus_exec json a s = Some t"
  shows "token_level sv t \<le> token_level sv s + issues sv a"
proof (cases a)
  case (IssueToken service ns pid)
  with assms have "bus_conns t = bus_conns s" "bus_n_conns t = bus_n_conns s"
    "br_tokens (bus_broker t) =
       dm_insert service (random_token ns pid (bus_token_counter s)) (br_tokens (bus_broker s))"
    by (auto simp: issue_token_def Let_def)
  with accepted_conns_cong [of t s sv] IssueToken show ?thesis
    by (simp add: token_level_def issues_def dm_contains_key_def)
next
  case (Accept inbound)
  with assms token_level_accept [of sv inbound s] show ?thesis by (simp add: issues_def)
next
  case (AckWrite c ok)
  with assms have "token_level sv t = token_level sv s"
    by (intro token_level_cong)
      (auto simp: ack_failed_def ack_written_def Let_def bus_views attach_session_def probe_start_def
        split: option.splits if_splits)
  then show ?thesis by simp
next
  case (Inbound c inbound)
  with assms token_level_inbound [of s c _ sv inbound] show ?thesis
    by (auto split: option.splits if_splits)
qed (use assms in \<open>auto simp: bus_views register_local_service_def
      intro!: trans_le_add1 eq_imp_le [OF token_level_cong]
      split: option.splits task.splits if_splits call_wait.splits prod.splits\<close>)

interpretation tok: metered_system "bus_exec json" "issues sv" "token_level sv" for json sv
  by unfold_locales (rule token_level_exec)

end
