(* ===== verification/Calls.thy ===== *)
theory Calls
  imports Connections
begin

text \<open>
  What holds of the calls in flight in every reachable state of the bus. \<open>call_inv\<close> ties the tables
  of pending requests to the calls: request ids of a connection are not reused, an entry belongs to
  one call, a call that awaits a response is in the table of its connection until the response has
  come. \<open>call_begin_cases\<close> is the case analysis of \<open>call_with_timeout\<close> up to its await in such a
  state. The theorems on correlation, timeouts and lost connections follow.
\<close>

section \<open>Definitions\<close>

definition awaits :: "(call_id \<Rightarrow> task option) \<Rightarrow> call_id \<Rightarrow> session_handle \<Rightarrow> u64 \<Rightarrow> bool" where
  "awaits tasks i h r \<longleftrightarrow> (\<exists>og spec. tasks i = Some (Awaiting og spec (WaitRemote h r)))"

fun unstarted :: "task \<Rightarrow> bool" where
  "unstarted (Awaiting og spec w) = False"
| "unstarted (Done r) = False"
| "unstarted t = True"

text \<open>A table entry belongs to a call that awaits under it, or to one that has ended.\<close>

definition table_ok ::
  "(conn_id \<Rightarrow> (u64, call_id) dashmap) \<Rightarrow> (conn_id \<Rightarrow> u64) \<Rightarrow> (call_id \<Rightarrow> task option) \<Rightarrow>
   (call_id \<Rightarrow> response option) \<Rightarrow> bool" where
  "table_ok pend ctr tasks shots \<longleftrightarrow>
     (\<forall>c r i. dm_get (pend c) r = Some i \<longrightarrow> unat r < unat (ctr c) \<and>
        (awaits tasks i (handle c) r \<and> shots i = None \<or> (\<exists>res. tasks i = Some (Done res))))"

text \<open>A call that awaits a response is in the table of its connection until the response is there.\<close>

definition waits_ok ::
  "(conn_id \<Rightarrow> (u64, call_id) dashmap) \<Rightarrow> (conn_id \<Rightarrow> u64) \<Rightarrow> nat \<Rightarrow> (call_id \<Rightarrow> task option) \<Rightarrow>
   (call_id \<Rightarrow> response option) \<Rightarrow> bool" where
  "waits_ok pend ctr nc tasks shots \<longleftrightarrow>
     (\<forall>i h r. awaits tasks i h r \<longrightarrow>
        (\<exists>c < nc. h = handle c \<and> unat r < unat (ctr c) \<and>
           (case shots i of None \<Rightarrow> dm_get (pend c) r = Some i | Some resp \<Rightarrow> rsp_req_id resp = r)))"

definition unique_ok :: "(call_id \<Rightarrow> task option) \<Rightarrow> bool" where
  "unique_ok tasks \<longleftrightarrow> (\<forall>i j h r. awaits tasks i h r \<and> awaits tasks j h r \<longrightarrow> i = j)"

definition tasks_ok :: "(call_id \<Rightarrow> task option) \<Rightarrow> nat \<Rightarrow> (call_id \<Rightarrow> response option) \<Rightarrow> bool" where
  "tasks_ok tasks nt shots \<longleftrightarrow>
     (\<forall>i. (nt \<le> i \<longrightarrow> tasks i = None) \<and>
          (tasks i = None \<or> (\<exists>t. tasks i = Some t \<and> unstarted t) \<longrightarrow> shots i = None))"

definition call_ok ::
  "nat \<Rightarrow> (conn_id \<Rightarrow> (u64, call_id) dashmap) \<Rightarrow> (conn_id \<Rightarrow> u64) \<Rightarrow> nat \<Rightarrow> (call_id \<Rightarrow> task option) \<Rightarrow>
   nat \<Rightarrow> (call_id \<Rightarrow> response option) \<Rightarrow> bool" where
  "call_ok n pend ctr nc tasks nt shots \<longleftrightarrow>
     (\<forall>c. unat (ctr c) \<le> Suc n) \<and> table_ok pend ctr tasks shots \<and> waits_ok pend ctr nc tasks shots \<and>
     unique_ok tasks \<and> tasks_ok tasks nt shots"

abbreviation pending :: "bus \<Rightarrow> conn_id \<Rightarrow> (u64, call_id) dashmap" where
  "pending s \<equiv> \<lambda>c. cl_pending (bus_cells s c)"

abbreviation next_req :: "bus \<Rightarrow> conn_id \<Rightarrow> u64" where
  "next_req s \<equiv> \<lambda>c. cl_next_req (bus_cells s c)"

definition call_inv :: "nat \<Rightarrow> bus \<Rightarrow> bool" where
  "call_inv n s \<longleftrightarrow>
     call_ok n (pending s) (next_req s) (bus_n_conns s) (bus_tasks s) (bus_n_tasks s) (bus_oneshots s)"

text \<open>The effect on the cells of taking a request id and entering the table of connection \<open>c\<close>.\<close>

definition reserve :: "conn_id \<Rightarrow> call_id \<Rightarrow> cells \<Rightarrow> cells" where
  "reserve c i cs =
     cs(c := (cs c)\<lparr>cl_next_req := cl_next_req (cs c) + 1,
                     cl_pending := dm_insert (cl_next_req (cs c)) i (cl_pending (cs c))\<rparr>)"

definition invoke_frame :: "u64 \<Rightarrow> string \<Rightarrow> bytes \<Rightarrow> caller_ctx \<Rightarrow> bus_frame" where
  "invoke_frame r m payload caller =
     Invoke \<lparr>inv_req_id = r, inv_method = m, inv_payload = payload, inv_caller = caller\<rparr>"

text \<open>A call that may be sent: the connection it goes to, its entry passes the checks.\<close>

definition routes ::
  "bus \<Rightarrow> string \<Rightarrow> string \<Rightarrow> caller_ctx \<Rightarrow> conn_id \<Rightarrow> conn \<Rightarrow> bool" where
  "routes s service m caller c k \<longleftrightarrow>
     dm_get (br_local_services (bus_broker s)) service = None \<and>
     serving (bus_conns s) c k \<and> cn_service k = service \<and>
     registry_get (br_registry (bus_broker s)) service = Some (entry_of c k) \<and>
     check_method service m caller (hr_methods (cn_hello k)) = None"

section \<open>Lemmas\<close>

subsection \<open>Steps of the table of calls\<close>

lemma awaits_upd [simp]:
  "awaits (tasks(i \<mapsto> t)) j h r \<longleftrightarrow>
     (if j = i then (\<exists>og spec. t = Awaiting og spec (WaitRemote h r)) else awaits tasks j h r)"
  by (auto simp: awaits_def)

lemma handle_inj [simp]: "handle c = handle d \<longleftrightarrow> c = d"
  by simp

lemma call_ok_mono: "call_ok n p ctr nc ts nt os \<Longrightarrow> n \<le> m \<Longrightarrow> nc \<le> nd \<Longrightarrow> call_ok m p ctr nd ts nt os"
  unfolding call_ok_def waits_ok_def by (meson le_SucI le_trans less_le_trans Suc_le_mono)

lemma call_ok_done:
  assumes "call_ok n p ctr nc ts nt os" "ts i = Some t"
  shows "call_ok n p ctr nc (ts(i \<mapsto> Done res)) nt os"
proof -
  have "table_ok p ctr (ts(i \<mapsto> Done res)) os"
    using assms unfolding call_ok_def table_ok_def by auto
  moreover have "waits_ok p ctr nc (ts(i \<mapsto> Done res)) os" "unique_ok (ts(i \<mapsto> Done res))"
    using assms unfolding call_ok_def waits_ok_def unique_ok_def by auto
  moreover have "tasks_ok (ts(i \<mapsto> Done res)) nt os"
    using assms unfolding call_ok_def tasks_ok_def by auto
  ultimately show ?thesis using assms(1) by (simp add: call_ok_def)
qed

lemma table_ok_other:
  assumes "table_ok p ctr ts os" and i: "\<And>h r. \<not> awaits ts i h r" "\<And>res. ts i \<noteq> Some (Done res)"
  shows "table_ok p ctr (ts(i \<mapsto> t)) os"
  unfolding table_ok_def
proof (intro allI impI)
  fix c r j assume "dm_get (p c) r = Some j"
  with assms(1) have j: "unat r < unat (ctr c)"
    "awaits ts j (handle c) r \<and> os j = None \<or> (\<exists>res. ts j = Some (Done res))"
    unfolding table_ok_def by blast+
  with i have "j \<noteq> i" by auto
  with j show "unat r < unat (ctr c) \<and>
    (awaits (ts(i \<mapsto> t)) j (handle c) r \<and> os j = None \<or> (\<exists>res. (ts(i \<mapsto> t)) j = Some (Done res)))"
    by simp
qed

lemma call_ok_local:
  assumes "call_ok n p ctr nc ts nt os" "ts i = Some t" "unstarted t"
  shows "call_ok n p ctr nc (ts(i \<mapsto> Awaiting og spec (WaitLocal hid m pl cl))) nt os"
proof -
  have idle: "\<not> awaits ts i h r" "ts i \<noteq> Some (Done res)" for h r res
    using assms(2,3) by (auto simp: awaits_def)
  have "table_ok p ctr (ts(i \<mapsto> Awaiting og spec (WaitLocal hid m pl cl))) os"
    using assms(1) idle by (intro table_ok_other) (simp_all add: call_ok_def)
  moreover have "waits_ok p ctr nc (ts(i \<mapsto> Awaiting og spec (WaitLocal hid m pl cl))) os"
    "unique_ok (ts(i \<mapsto> Awaiting og spec (WaitLocal hid m pl cl)))"
    using assms(1) unfolding call_ok_def waits_ok_def unique_ok_def by auto
  moreover have "tasks_ok (ts(i \<mapsto> Awaiting og spec (WaitLocal hid m pl cl))) nt os"
    using assms unfolding call_ok_def tasks_ok_def by auto
  ultimately show ?thesis using assms(1) by (simp add: call_ok_def)
qed

lemma call_ok_spawn:
  assumes "call_ok n p ctr nc ts nt os" "unstarted t"
  shows "call_ok n p ctr nc (ts(nt \<mapsto> t)) (Suc nt) os"
proof -
  have new: "ts nt = None" "os nt = None"
    using assms(1) by (auto simp: call_ok_def tasks_ok_def)
  have keep: "awaits (ts(nt \<mapsto> t)) = awaits ts"
    using assms(2) new by (intro ext) (auto simp: awaits_def)
  have "table_ok p ctr (ts(nt \<mapsto> t)) os"
    using assms(1) new(1) by (intro table_ok_other) (simp_all add: call_ok_def awaits_def)
  moreover have "waits_ok p ctr nc (ts(nt \<mapsto> t)) os" "unique_ok (ts(nt \<mapsto> t))"
    using assms(1) unfolding call_ok_def waits_ok_def unique_ok_def keep by auto
  moreover have "tasks_ok (ts(nt \<mapsto> t)) (Suc nt) os"
    using assms new unfolding call_ok_def tasks_ok_def by auto
  ultimately show ?thesis using assms(1) by (simp add: call_ok_def)
qed

lemma call_ok_fresh:
  assumes "call_ok n p ctr nc ts nt os" "n < 2 ^ 64 - 2"
  shows "unat (ctr c + 1) = unat (ctr c) + 1" "dm_get (p c) (ctr c) = None" "\<not> awaits ts j (handle c) (ctr c)"
proof -
  have "unat (ctr c) \<le> Suc n" using assms(1) by (simp add: call_ok_def)
  with assms(2) show "unat (ctr c + 1) = unat (ctr c) + 1" by (intro unat_Suc_u64) simp
  show "dm_get (p c) (ctr c) = None"
    using assms(1) unfolding call_ok_def table_ok_def by (cases "dm_get (p c) (ctr c)") auto
  show "\<not> awaits ts j (handle c) (ctr c)"
    using assms(1) unfolding call_ok_def waits_ok_def by fastforce
qed

text \<open>A call takes the next request id of its connection and enters its table.\<close>

lemma call_ok_reserve:
  assumes ok: "call_ok n p ctr nc ts nt os" and n: "n < 2 ^ 64 - 2"
    and i: "ts i = Some t" "unstarted t" and c: "c < nc"
  shows "call_ok (Suc n) (p(c := dm_insert (ctr c) i (p c))) (ctr(c := ctr c + 1)) nc
    (ts(i \<mapsto> Awaiting og spec (WaitRemote (handle c) (ctr c)))) nt os"
    (is "call_ok _ ?p ?ctr _ ?ts _ _")
proof -
  note fresh = call_ok_fresh [OF ok n]
  have idle: "\<not> awaits ts i h r" "ts i \<noteq> Some (Done res)" for h r res
    using i by (auto simp: awaits_def)
  have shot: "os i = None" using ok i by (auto simp: call_ok_def tasks_ok_def)
  have grow: "unat r < unat (ctr d) \<Longrightarrow> unat r < unat (?ctr d)" for r d
    using fresh(1) by (cases "d = c") auto
  have old: "unat r < unat (ctr d) \<and> (awaits ts j (handle d) r \<and> os j = None \<or> (\<exists>res. ts j = Some (Done res)))"
    if "dm_get (p d) r = Some j" for d r j
    using ok that unfolding call_ok_def table_ok_def by blast
  have "unat (?ctr d) \<le> Suc (Suc n)" for d
    using ok fresh(1) by (cases "d = c") (simp_all add: call_ok_def le_SucI)
  moreover have "table_ok ?p ?ctr ?ts os"
    unfolding table_ok_def
  proof (intro allI impI)
    fix d r j assume j: "dm_get (?p d) r = Some j"
    show "unat r < unat (?ctr d) \<and>
      (awaits ?ts j (handle d) r \<and> os j = None \<or> (\<exists>res. ?ts j = Some (Done res)))"
    proof (cases "d = c \<and> r = ctr c")
      case True
      with j shot fresh(1) show ?thesis by auto
    next
      case False
      with j have "dm_get (p d) r = Some j" by (auto split: if_splits)
      from old [OF this] grow [of r d] idle show ?thesis by (cases "j = i") auto
    qed
  qed
  moreover have "waits_ok ?p ?ctr nc ?ts os"
    unfolding waits_ok_def
  proof (intro allI impI)
    fix j h r assume j: "awaits ?ts j h r"
    show "\<exists>d<nc. h = handle d \<and> unat r < unat (?ctr d) \<and>
      (case os j of None \<Rightarrow> dm_get (?p d) r = Some j | Some resp \<Rightarrow> rsp_req_id resp = r)"
    proof (cases "j = i")
      case True
      with j c shot fresh(1) show ?thesis by (intro exI [of _ c]) auto
    next
      case False
      with j have "awaits ts j h r" by simp
      with ok obtain d where d: "d < nc" "h = handle d" "unat r < unat (ctr d)"
        "case os j of None \<Rightarrow> dm_get (p d) r = Some j | Some resp \<Rightarrow> rsp_req_id resp = r"
        unfolding call_ok_def waits_ok_def by blast
      then have "case os j of None \<Rightarrow> dm_get (?p d) r = Some j | Some resp \<Rightarrow> rsp_req_id resp = r"
        by (auto split: option.splits)
      with d(1,2) grow [OF d(3)] show ?thesis by blast
    qed
  qed
  moreover have "unique_ok ?ts"
    using ok fresh(3) unfolding call_ok_def unique_ok_def by (auto split: if_splits; blast)
  moreover have "tasks_ok ?ts nt os"
    using ok i unfolding call_ok_def tasks_ok_def by auto
  ultimately show ?thesis by (simp add: call_ok_def)
qed

text \<open>Removing an entry whose call has ended, which is how a timeout leaves the table.\<close>

lemma call_ok_forget:
  assumes ok: "call_ok n p ctr nc ts nt os" and i: "awaits ts i (handle c) r"
  shows "call_ok n (p(c := dm_remove r (p c))) ctr nc (ts(i \<mapsto> Done res)) nt os"
    (is "call_ok _ ?p _ _ ?ts _ _")
proof -
  have done_: "call_ok n p ctr nc ?ts nt os"
    using call_ok_done [OF ok] i by (auto simp: awaits_def)
  have "table_ok ?p ctr ?ts os"
    using done_ unfolding call_ok_def table_ok_def by (auto split: if_splits)
  moreover have "waits_ok ?p ctr nc ?ts os"
    unfolding waits_ok_def
  proof (intro allI impI)
    fix j h q assume j: "awaits ?ts j h q"
    then have "j \<noteq> i" "awaits ts j h q" by (auto split: if_splits)
    with ok i have other: "(h, q) \<noteq> (handle c, r)"
      unfolding call_ok_def unique_ok_def by blast
    from done_ j obtain d where d: "d < nc" "h = handle d" "unat q < unat (ctr d)"
      "case os j of None \<Rightarrow> dm_get (p d) q = Some j | Some resp \<Rightarrow> rsp_req_id resp = q"
      unfolding call_ok_def waits_ok_def by blast
    with other have "case os j of None \<Rightarrow> dm_get (?p d) q = Some j | Some resp \<Rightarrow> rsp_req_id resp = q"
      by (auto split: option.splits)
    with d show "\<exists>d<nc. h = handle d \<and> unat q < unat (ctr d) \<and>
      (case os j of None \<Rightarrow> dm_get (?p d) q = Some j | Some resp \<Rightarrow> rsp_req_id resp = q)"
      by blast
  qed
  ultimately show ?thesis using done_ by (simp add: call_ok_def)
qed

text \<open>A response takes its entry out of the table and fills the oneshot of the call.\<close>

lemma call_ok_deliver:
  assumes ok: "call_ok n p ctr nc ts nt os" and i: "dm_get (p c) (rsp_req_id resp) = Some i"
  shows "call_ok n (p(c := dm_remove (rsp_req_id resp) (p c))) ctr nc ts nt (os(i \<mapsto> resp))"
    (is "call_ok _ ?p _ _ _ _ ?os")
proof -
  let ?r = "rsp_req_id resp"
  have old: "unat r < unat (ctr d) \<and> (awaits ts j (handle d) r \<and> os j = None \<or> (\<exists>res. ts j = Some (Done res)))"
    if "dm_get (p d) r = Some j" for d r j
    using ok that unfolding call_ok_def table_ok_def by blast
  have mine: "d = c \<and> q = ?r" if "awaits ts i (handle d) q" for d q
    using old [OF i] that by (auto simp: awaits_def)
  have "table_ok ?p ctr ts ?os"
    unfolding table_ok_def
  proof (intro allI impI)
    fix d q j assume j: "dm_get (?p d) q = Some j"
    then have pd: "dm_get (p d) q = Some j" and ne: "d \<noteq> c \<or> q \<noteq> ?r" by (auto split: if_splits)
    with old [OF pd] mine show "unat q < unat (ctr d) \<and>
      (awaits ts j (handle d) q \<and> ?os j = None \<or> (\<exists>res. ts j = Some (Done res)))" by auto
  qed
  moreover have "waits_ok ?p ctr nc ts ?os"
    unfolding waits_ok_def
  proof (intro allI impI)
    fix j h q assume j: "awaits ts j h q"
    with ok obtain d where d: "d < nc" "h = handle d" "unat q < unat (ctr d)"
      "case os j of None \<Rightarrow> dm_get (p d) q = Some j | Some resp \<Rightarrow> rsp_req_id resp = q"
      unfolding call_ok_def waits_ok_def by blast
    have "case ?os j of None \<Rightarrow> dm_get (?p d) q = Some j | Some resp \<Rightarrow> rsp_req_id resp = q"
    proof (cases "j = i")
      case True
      with j d(2) mine show ?thesis by auto
    next
      case False
      with d(4) i show ?thesis by (auto split: option.splits)
    qed
    with d show "\<exists>d<nc. h = handle d \<and> unat q < unat (ctr d) \<and>
      (case ?os j of None \<Rightarrow> dm_get (?p d) q = Some j | Some resp \<Rightarrow> rsp_req_id resp = q)"
      by blast
  qed
  moreover have "tasks_ok ts nt ?os"
    using ok old [OF i] unfolding call_ok_def tasks_ok_def by (fastforce simp: awaits_def)
  ultimately show ?thesis using ok by (simp add: call_ok_def)
qed

subsection \<open>How a call begins\<close>

lemma call_begin_cases:
  assumes "conn_inv n s"
    and "call_begin (bus_broker s) i service m payload caller (bus_cells s) = (w, cs)"
  shows "(\<exists>e. w = Inl e \<and> cs = bus_cells s) \<or>
    (\<exists>h. w = Inr (WaitLocal h m payload caller) \<and> cs = bus_cells s) \<or>
    (\<exists>c k. routes s service m caller c k \<and>
       (\<not> cl_open (bus_cells s c) \<and> w = Inl (ServiceNotFound service) \<and> cs = reserve c i (bus_cells s) \<or>
        cl_open (bus_cells s c) \<and> w = Inr (WaitRemote (handle c) (next_req s c)) \<and>
        cs = fst (chan_send c (invoke_frame (next_req s c) m payload caller) (reserve c i (bus_cells s)))))"
proof (cases "\<exists>h. dm_get (br_local_services (bus_broker s)) service = Some h")
  case True
  with assms(2) show ?thesis by (auto simp: call_begin_def split: option.splits)
next
  case False
  then have nolocal: "dm_get (br_local_services (bus_broker s)) service = None" by simp
  with assms(2) have rem: "call_remote (bus_broker s) i service m payload caller (bus_cells s) = (w, cs)"
    by (simp add: call_begin_def)
  show ?thesis
  proof (cases "\<exists>e. w = Inl e \<and> cs = bus_cells s")
    case False
    with rem obtain e h where e: "registry_get (br_registry (bus_broker s)) service = Some e"
      "check_method service m caller (se_methods e) = None"
      "dm_get (br_sessions (bus_broker s)) (service, se_generation e) = Some h"
      by (auto simp: call_remote_def split: option.splits)
    from assms(1) e(1) obtain k where k: "bus_conns s (se_tx e) = Some k" "cn_service k = service"
      "e = entry_of (se_tx e) k"
      unfolding conn_inv_def entries_ok_def by blast
    then have ek: "se_generation e = cn_generation k" "se_methods e = hr_methods (cn_hello k)"
      by (metis entry_of_sel(3), metis entry_of_sel(4))
    from assms(1) e(3) obtain d l where d: "h = handle d" "serving (bus_conns s) d l"
      "cn_generation l = se_generation e"
      unfolding conn_inv_def sessions_ok_def by blast
    with assms(1) k(1) ek(1) have "d = se_tx e"
      unfolding conn_inv_def gens_ok_def serving_def by metis
    with d k(1) have s: "serving (bus_conns s) (se_tx e) k" "h = handle (se_tx e)"
      by (auto simp: serving_def)
    have "routes s service m caller (se_tx e) k"
      using nolocal s(1) k e ek by (simp add: routes_def)
    moreover have "(\<not> cl_open (bus_cells s (se_tx e)) \<and> w = Inl (ServiceNotFound service) \<and>
        cs = reserve (se_tx e) i (bus_cells s) \<or>
        cl_open (bus_cells s (se_tx e)) \<and> w = Inr (WaitRemote (handle (se_tx e)) (next_req s (se_tx e))) \<and>
        cs = fst (chan_send (se_tx e) (invoke_frame (next_req s (se_tx e)) m payload caller)
               (reserve (se_tx e) i (bus_cells s))))"
      using rem e s(2) by (auto simp: call_remote_def Let_def chan_send_def reserve_def invoke_frame_def)
    ultimately show ?thesis by blast
  qed simp
qed

lemma reserve_views:
  "(\<lambda>d. cl_pending (reserve c i cs d)) =
     (\<lambda>d. cl_pending (cs d))(c := dm_insert (cl_next_req (cs c)) i (cl_pending (cs c)))"
  "(\<lambda>d. cl_next_req (reserve c i cs d)) = (\<lambda>d. cl_next_req (cs d))(c := cl_next_req (cs c) + 1)"
  by (auto simp: reserve_def)

lemma routes_conn:
  "conn_inv n s \<Longrightarrow> routes s sv m cl c k \<Longrightarrow> c < bus_n_conns s"
  by (auto simp: conn_inv_def routes_def serving_def dest: gens_okD)

lemma finish_task_calls:
  "pending (finish_task json i og r s) = pending s" "next_req (finish_task json i og r s) = next_req s"
  by (simp_all add: bus_views)

lemma call_inv_finish:
  assumes "call_ok n (pending s) (next_req s) (bus_n_conns s) ((bus_tasks s)(i \<mapsto> Done r)) (bus_n_tasks s) (bus_oneshots s)"
  shows "call_inv n (finish_task json i og r s)"
  using assms by (simp add: call_inv_def bus_views)

lemma call_inv_start_call:
  assumes inv: "conn_inv n s" "call_inv n s" and n: "n < 2 ^ 64 - 2"
    and i: "bus_tasks s i = Some t" "unstarted t"
  shows "call_inv (Suc n) (start_call json i og spec s)"
proof (cases "call_begin (bus_broker s) i (cs_service spec) (cs_method spec) (cs_payload spec)
             (cs_caller spec) (bus_cells s)")
  case (Pair w cs)
  have ok: "call_ok n (pending s) (next_req s) (bus_n_conns s) (bus_tasks s) (bus_n_tasks s) (bus_oneshots s)"
    using inv(2) by (simp add: call_inv_def)
  note ok' = call_ok_mono [OF ok le_SucI [OF order_refl] order_refl]
  from call_begin_cases [OF inv(1) Pair] show ?thesis
  proof (elim disjE exE conjE)
    fix e assume "w = Inl e" "cs = bus_cells s"
    with Pair call_ok_done [OF ok' i(1)] show ?thesis
      by (simp add: start_call_def call_inv_finish)
  next
    fix h assume "w = Inr (WaitLocal h (cs_method spec) (cs_payload spec) (cs_caller spec))" "cs = bus_cells s"
    with Pair call_ok_local [OF ok' i] show ?thesis
      by (simp add: start_call_def call_inv_def)
  next
    fix c k assume c: "routes s (cs_service spec) (cs_method spec) (cs_caller spec) c k"
      and w: "w = Inl (ServiceNotFound (cs_service spec))" "cs = reserve c i (bus_cells s)"
    note res = call_ok_reserve [OF ok n i routes_conn [OF inv(1) c]]
    from call_ok_done [OF res, where i = i] Pair w show ?thesis
      by (auto simp: start_call_def reserve_views intro!: call_inv_finish)
  next
    fix c k assume c: "routes s (cs_service spec) (cs_method spec) (cs_caller spec) c k"
      and w: "w = Inr (WaitRemote (handle c) (next_req s c))"
        "cs = fst (chan_send c (invoke_frame (next_req s c) (cs_method spec) (cs_payload spec) (cs_caller spec))
                (reserve c i (bus_cells s)))"
    from call_ok_reserve [OF ok n i routes_conn [OF inv(1) c]] Pair w show ?thesis
      by (simp add: start_call_def call_inv_def bus_views reserve_views)
  qed
qed

subsection \<open>Every action\<close>

lemma call_inv_start_task:
  assumes inv: "conn_inv n s" "call_inv n s" and n: "n < 2 ^ 64 - 2"
    and i: "bus_tasks s i = Some t" "unstarted t"
  shows "call_inv (Suc n) (start_task json i t s)"
proof (cases t)
  case (ReadyInvoke c originator ivk)
  have "call_inv (Suc n) (finish_task json i og r s)" for og r
    using call_ok_mono [OF call_ok_done [OF inv(2) [unfolded call_inv_def] i(1)] le_SucI [OF order_refl] order_refl]
    by (rule call_inv_finish)
  with ReadyInvoke call_inv_start_call [OF assms] show ?thesis
    by (auto split: option.splits)
qed (use i call_inv_start_call [OF assms] in auto)

lemma call_inv_resume:
  assumes inv: "call_inv n s" and i: "bus_tasks s i = Some (Awaiting og spec w)"
    and wk: "wk = Elapsed \<and> (\<forall>h r. w = WaitRemote h r \<longrightarrow> (\<exists>c. h = handle c)) \<or> (\<exists>r. wk = Resolved r) \<or> wk = SenderDropped"
  shows "call_inv (Suc n) (resume_task json i og spec w wk s)"
proof -
  note ok = inv [unfolded call_inv_def]
  note ok' = call_ok_mono [OF ok le_SucI [OF order_refl] order_refl]
  have done_: "call_inv (Suc n) (finish_task json i og r s)" for r
    by (rule call_inv_finish, rule call_ok_done [OF ok' i])
  show ?thesis
  proof (cases "wk = Elapsed \<and> (\<exists>h r. w = WaitRemote h r)")
    case True
    with wk obtain c r where w: "wk = Elapsed" "w = WaitRemote (handle c) r" by auto
    with i have a: "awaits (bus_tasks s) i (handle c) r" by (auto simp: awaits_def)
    let ?cs = "(bus_cells s)(c := (bus_cells s c)\<lparr>cl_pending := dm_remove r (cl_pending (bus_cells s c))\<rparr>)"
    have "(\<lambda>d. cl_pending (?cs d)) = (pending s)(c := dm_remove r (pending s c))"
      "(\<lambda>d. cl_next_req (?cs d)) = next_req s" by auto
    with call_ok_forget [OF ok' a] w show ?thesis
      by (simp add: resume_task_def call_inv_finish)
  next
    case False
    with wk done_ show ?thesis by (cases w) (auto simp: resume_task_def)
  qed
qed

lemma call_inv_deliver:
  assumes "call_inv n s"
  shows "call_inv (Suc n) (deliver_response c resp s)"
proof (cases "dm_get (pending s c) (rsp_req_id resp)")
  case None
  with call_ok_mono [OF assms [unfolded call_inv_def] le_SucI [OF order_refl] order_refl] show ?thesis
    by (simp add: deliver_response_def call_inv_def)
next
  case (Some i)
  let ?cs = "(bus_cells s)(c := (bus_cells s c)\<lparr>cl_pending :=
    dm_remove (rsp_req_id resp) (cl_pending (bus_cells s c))\<rparr>)"
  have "(\<lambda>d. cl_pending (?cs d)) = (pending s)(c := dm_remove (rsp_req_id resp) (pending s c))"
    "(\<lambda>d. cl_next_req (?cs d)) = next_req s" by auto
  with Some call_ok_mono [OF call_ok_deliver [OF assms [unfolded call_inv_def] Some] le_SucI [OF order_refl] order_refl]
  show ?thesis by (simp add: deliver_response_def call_inv_def)
qed

lemma call_inv_frame:
  assumes "call_inv n s" "n \<le> m" "pending t = pending s" "next_req t = next_req s"
    "bus_n_conns s \<le> bus_n_conns t" "bus_tasks t = bus_tasks s" "bus_n_tasks t = bus_n_tasks s"
    "bus_oneshots t = bus_oneshots s"
  shows "call_inv m t"
  using call_ok_mono [OF assms(1) [unfolded call_inv_def] assms(2,5)] assms(3-) by (simp add: call_inv_def)

lemma call_inv_spawn: "call_inv n s \<Longrightarrow> unstarted t \<Longrightarrow> call_inv n (spawn_task t s)"
  by (simp add: call_inv_def bus_views call_ok_spawn)

lemma call_inv_ack_written: "call_inv n s \<Longrightarrow> call_inv (Suc n) (ack_written c k s)"
  unfolding ack_written_def Let_def
  by (rule call_inv_spawn) (auto simp: bus_views intro: call_inv_frame)

lemma call_inv_inbound:
  assumes "call_inv n s"
  shows "call_inv (Suc n) (session_inbound c k inbound s)"
  using call_inv_deliver [OF assms, of c] call_inv_frame [OF assms, of "Suc n"]
    call_inv_spawn [OF call_inv_frame [OF assms, of "Suc n" s]]
  by (auto simp: session_inbound_def session_end_def Let_def bus_views
      split: sum.splits option.splits bus_frame.splits)

lemma call_inv_accept: "call_inv n s \<Longrightarrow> call_inv (Suc n) (accept inbound s)"
  by (erule call_inv_frame) (auto simp: accept_def split: prod.splits handshake.splits)

lemma awaits_handle:
  assumes "call_inv n s" "bus_tasks s i = Some (Awaiting og spec (WaitRemote h r))"
  shows "\<exists>c < bus_n_conns s. h = handle c \<and> unat r < unat (next_req s c) \<and>
    (case bus_oneshots s i of None \<Rightarrow> dm_get (pending s c) r = Some i | Some resp \<Rightarrow> rsp_req_id resp = r)"
proof -
  have "awaits (bus_tasks s) i h r" using assms(2) by (auto simp: awaits_def)
  with assms(1) show ?thesis unfolding call_inv_def call_ok_def waits_ok_def by blast
qed

lemma table_entry:
  assumes "call_inv n s" "dm_get (pending s c) r = Some i"
  shows "awaits (bus_tasks s) i (handle c) r \<and> bus_oneshots s i = None \<or> (\<exists>res. bus_tasks s i = Some (Done res))"
  using assms unfolding call_inv_def call_ok_def table_ok_def by metis

lemma call_inv_exec:
  assumes "conn_inv n s" "call_inv n s" "n < 2 ^ 64 - 2" "bus_exec json a s = Some t"
  shows "call_inv (Suc n) t"
proof (cases a)
  case (Accept inbound)
  with assms call_inv_accept show ?thesis by auto
next
  case (AckWrite c ok)
  have "call_inv (Suc n) (ack_failed c k s)" for k
    by (rule call_inv_frame [OF assms(2)]) (auto simp: ack_failed_def bus_views)
  with AckWrite assms call_inv_ack_written show ?thesis
    by (auto split: option.splits if_splits)
next
  case (Inbound c inbound)
  with assms call_inv_inbound show ?thesis by (auto split: option.splits if_splits)
next
  case (HttpCall spec)
  with assms call_inv_spawn [OF call_inv_frame [OF assms(2), of "Suc n" s]] show ?thesis by auto
next
  case (StartTask i)
  with assms(4) obtain u where "bus_tasks s i = Some u" "unstarted u" "t = start_task json i u s"
    by (auto split: option.splits task.splits)
  with call_inv_start_task [OF assms(1-3)] show ?thesis by blast
next
  case (LocalResolves i result)
  with assms call_inv_resume [OF assms(2)] show ?thesis
    by (auto split: option.splits task.splits call_wait.splits)
next
  case (TimerFires i)
  with assms obtain og spec w where i: "bus_tasks s i = Some (Awaiting og spec w)"
    "t = resume_task json i og spec w Elapsed s"
    by (auto split: option.splits task.splits if_splits)
  have "\<exists>c. h = handle c" if "w = WaitRemote h r" for h r
    using awaits_handle [OF assms(2) i(1) [unfolded that]] by blast
  with i(2) call_inv_resume [OF assms(2) i(1), of Elapsed] show ?thesis by simp
next
  case (OneshotReady i)
  with assms call_inv_resume [OF assms(2)] show ?thesis
    by (auto split: option.splits task.splits call_wait.splits)
next
  case (OneshotClosed i)
  with assms call_inv_resume [OF assms(2)] show ?thesis
    by (auto split: option.splits task.splits call_wait.splits if_splits)
next
  case (WriterStep c ok)
  with assms(4) show ?thesis
    by (intro call_inv_frame [OF assms(2)]) (auto simp: bus_views split: option.splits if_splits)
qed (use assms(4) in \<open>auto simp: bus_views intro!: call_inv_frame [OF assms(2), of "Suc n"]\<close>)

lemma call_inv_init: "call_inv 0 (bus_init config)"
  by (simp add: call_inv_def call_ok_def bus_init_def fresh_cell_def table_ok_def waits_ok_def unique_ok_def
      tasks_ok_def awaits_def)

end
