(* ===== verification/Delivery.thy ===== *)
theory Delivery
  imports Calls
begin

text \<open>
  What the broker puts on the wire. \<open>frame_inv\<close> holds of every frame in the channel of a
  connection: the writer task writes no other frames. \<open>origin_inv\<close> says whose calls the calls in
  flight are.
\<close>

section \<open>Definitions\<close>

definition frame_ok :: "(conn_id \<Rightarrow> conn option) \<Rightarrow> conn_id \<Rightarrow> bus_frame \<Rightarrow> bool" where
  "frame_ok conns c f =
     (case f of
        Invoke v \<Rightarrow>
          (\<exists>k decl. conns c = Some k \<and> find_method (inv_method v) (hr_methods (cn_hello k)) = Some decl \<and>
             (md_requires_auth decl \<longrightarrow> cc_user_id (inv_caller v) \<noteq> None))
      | Response r \<Rightarrow> True
      | Event ev \<Rightarrow> (\<exists>d k. conns d = Some k \<and> ev_from ev = Some (cn_service k))
      | Shutdown \<Rightarrow> True
      | _ \<Rightarrow> False)"

definition frame_inv :: "bus \<Rightarrow> bool" where
  "frame_inv s \<longleftrightarrow> (\<forall>c. \<forall>f \<in> set (cl_queue (bus_cells s c)). frame_ok (bus_conns s) c f)"

definition service_of :: "(conn_id \<Rightarrow> conn option) \<Rightarrow> conn_id \<Rightarrow> string \<Rightarrow> bool" where
  "service_of conns c service \<longleftrightarrow> (\<exists>k. conns c = Some k \<and> cn_service k = service)"

definition task_ok :: "(conn_id \<Rightarrow> conn option) \<Rightarrow> task \<Rightarrow> bool" where
  "task_ok conns t =
     (case t of
        ReadyInvoke c originator v \<Rightarrow> service_of conns c originator
      | Awaiting (FromApp c r) spec w \<Rightarrow>
          (\<exists>sv. service_of conns c sv \<and> cc_caller_app_id (cs_caller spec) = Some sv)
      | _ \<Rightarrow> True)"

definition origin_inv :: "bus \<Rightarrow> bool" where
  "origin_inv s \<longleftrightarrow> (\<forall>i t. bus_tasks s i = Some t \<longrightarrow> task_ok (bus_conns s) t)"

text \<open>A connection keeps its hello for ever.\<close>

definition hello_kept :: "(conn_id \<Rightarrow> conn option) \<Rightarrow> (conn_id \<Rightarrow> conn option) \<Rightarrow> bool" where
  "hello_kept conns conns' \<longleftrightarrow>
     (\<forall>c k. conns c = Some k \<longrightarrow> (\<exists>k'. conns' c = Some k' \<and> cn_hello k' = cn_hello k))"

definition bus_inv :: "nat \<Rightarrow> bus \<Rightarrow> bool" where
  "bus_inv n s \<longleftrightarrow> conn_inv n s \<and> call_inv n s \<and> frame_inv s \<and> origin_inv s \<and>
     dm_wf (br_subscriptions (bus_broker s))"

section \<open>Lemmas\<close>

subsection \<open>Frames\<close>

lemma hello_kept_refl [simp]: "hello_kept conns conns"
  by (simp add: hello_kept_def)

lemma hello_kept_phase [simp]: "conns c = Some k \<Longrightarrow> hello_kept conns (conns(c \<mapsto> k\<lparr>cn_phase := ph\<rparr>))"
  by (simp add: hello_kept_def)

lemma hello_kept_new [simp]: "conns c = None \<Longrightarrow> hello_kept conns (conns(c \<mapsto> k))"
  by (simp add: hello_kept_def)

lemma frame_ok_mono: "frame_ok conns c f \<Longrightarrow> hello_kept conns conns' \<Longrightarrow> frame_ok conns' c f"
  unfolding frame_ok_def hello_kept_def by (auto split: bus_frame.splits) metis+

lemma service_of_mono: "service_of conns c sv \<Longrightarrow> hello_kept conns conns' \<Longrightarrow> service_of conns' c sv"
  unfolding service_of_def hello_kept_def by metis

lemma task_ok_mono: "task_ok conns t \<Longrightarrow> hello_kept conns conns' \<Longrightarrow> task_ok conns' t"
  unfolding task_ok_def using service_of_mono by (auto split: task.splits origin.splits)

lemma frame_inv_upd:
  assumes "frame_inv s" "hello_kept (bus_conns s) (bus_conns t)"
    and "\<And>c f. f \<in> set (cl_queue (bus_cells t c)) \<Longrightarrow>
      f \<in> set (cl_queue (bus_cells s c)) \<or> frame_ok (bus_conns t) c f"
  shows "frame_inv t"
  using assms frame_ok_mono unfolding frame_inv_def by blast

lemma frame_ok_simps [simp]:
  "frame_ok conns c (Response r)" "frame_ok conns c Shutdown"
  "frame_ok conns c (Event ev) \<longleftrightarrow> (\<exists>d k. conns d = Some k \<and> ev_from ev = Some (cn_service k))"
  by (simp_all add: frame_ok_def)

lemma check_method_None:
  "check_method service m caller methods = None \<longleftrightarrow>
   (\<exists>decl. find_method m methods = Some decl \<and> (md_requires_auth decl \<longrightarrow> cc_user_id caller \<noteq> None))"
  by (auto simp: check_method_def split: option.splits)

lemma routes_frame_ok: "routes s sv m caller c k \<Longrightarrow> frame_ok (bus_conns s) c (invoke_frame r m payload caller)"
  by (auto simp: routes_def frame_ok_def invoke_frame_def serving_def check_method_None)

lemma finish_task_queue:
  "f \<in> set (cl_queue (bus_cells (finish_task json i og r s) c)) \<Longrightarrow>
   f \<in> set (cl_queue (bus_cells s c)) \<or> (\<exists>resp. f = Response resp)"
  by (auto simp: finish_task_def Let_def chan_send_queue split: origin.splits if_splits)

lemma reserve_queue [simp]: "cl_queue (reserve c i cs d) = cl_queue (cs d)"
  by (simp add: reserve_def)

lemma start_call_queue:
  assumes "conn_inv n s" "f \<in> set (cl_queue (bus_cells (start_call json i og spec s) d))"
  shows "f \<in> set (cl_queue (bus_cells s d)) \<or> frame_ok (bus_conns s) d f"
proof (cases "call_begin (bus_broker s) i (cs_service spec) (cs_method spec) (cs_payload spec)
             (cs_caller spec) (bus_cells s)")
  case (Pair w cs)
  have cs: "f \<in> set (cl_queue (cs d)) \<Longrightarrow> f \<in> set (cl_queue (bus_cells s d)) \<or> frame_ok (bus_conns s) d f"
    using call_begin_cases [OF assms(1) Pair] routes_frame_ok
    by (auto simp: chan_send_queue split: if_splits)
  from Pair assms(2) have "f \<in> set (cl_queue (cs d)) \<or> (\<exists>resp. f = Response resp)"
    by (auto simp: start_call_def split: sum.splits dest!: finish_task_queue)
  with cs show ?thesis by auto
qed

lemma start_task_queue:
  assumes "conn_inv n s" "f \<in> set (cl_queue (bus_cells (start_task json i t s) d))"
  shows "f \<in> set (cl_queue (bus_cells s d)) \<or> frame_ok (bus_conns s) d f"
  using assms(2)
  by (cases t) (auto split: option.splits dest!: finish_task_queue start_call_queue [OF assms(1)])

lemma call_resume_queue: "cl_queue (snd (call_resume w tmo wk cs) d) = cl_queue (cs d)"
  by (cases w; cases wk) simp_all

lemma resume_task_queue:
  assumes "f \<in> set (cl_queue (bus_cells (resume_task json i og spec w wk s) d))"
  shows "f \<in> set (cl_queue (bus_cells s d)) \<or> (\<exists>resp. f = Response resp)"
  using finish_task_queue [of f json i og "fst (call_resume w (cs_timeout spec) wk (bus_cells s))"
      "s\<lparr>bus_cells := snd (call_resume w (cs_timeout spec) wk (bus_cells s))\<rparr>" d] assms
  by (simp add: resume_task_def call_resume_queue split: prod.splits)

lemma fanout_send_queue:
  "f \<in> set (cl_queue (fanout_send b ev ts cs d)) \<Longrightarrow> f \<in> set (cl_queue (cs d)) \<or> f = Event ev"
  by (induction b ev ts cs rule: fanout_send.induct) (auto simp: chan_send_queue split: option.splits if_splits)

lemma fanout_queue:
  "f \<in> set (cl_queue (fanout b sv ev cs d)) \<Longrightarrow>
   f \<in> set (cl_queue (cs d)) \<or> f = Event (ev\<lparr>ev_from := Some sv\<rparr>)"
  by (auto simp: fanout_def Let_def dest: fanout_send_queue)

lemma shutdown_service_queue:
  "f \<in> set (cl_queue (snd (shutdown_service b sv cs) d)) \<Longrightarrow> f \<in> set (cl_queue (cs d)) \<or> f = Shutdown"
  by (auto simp: shutdown_service_snd chan_send_queue split: option.splits if_splits)

lemma frame_inv_inbound:
  assumes "frame_inv s" "bus_conns s c = Some k"
  shows "frame_inv (session_inbound c k inbound s)"
proof (rule frame_inv_upd [OF assms(1)])
  show "hello_kept (bus_conns s) (bus_conns (session_inbound c k inbound s))"
    using assms(2)
    by (auto simp: session_inbound_def session_end_def Let_def bus_views
        split: sum.splits option.splits bus_frame.splits)
  have own: "frame_ok (bus_conns s) d (Event (ev\<lparr>ev_from := Some (cn_service k)\<rparr>))" for d ev
    using assms(2) by auto
  fix d f assume "f \<in> set (cl_queue (bus_cells (session_inbound c k inbound s) d))"
  then show "f \<in> set (cl_queue (bus_cells s d)) \<or> frame_ok (bus_conns (session_inbound c k inbound s)) d f"
    using own
    by (auto simp: session_inbound_def session_end_def Let_def bus_views simp del: frame_ok_simps(3)
        split: sum.splits option.splits bus_frame.splits if_splits dest!: fanout_queue)
qed

lemma bus_conns_exec:
  assumes "conn_inv n s" "n < 2 ^ 64 - 2" "bus_exec json a s = Some t"
  shows "hello_kept (bus_conns s) (bus_conns t)"
proof (cases a)
  case (Accept inbound)
  have "bus_conns s (bus_n_conns s) = None"
    using assms(1,2) gens_ok_fresh(1) by (auto simp: conn_inv_def)
  with Accept assms(3) show ?thesis
    by (auto simp: accept_def split: prod.splits handshake.splits)
next
  case (AckWrite c ok)
  with assms(3) show ?thesis
    by (auto simp: ack_failed_def ack_written_def Let_def bus_views split: option.splits if_splits)
next
  case (Inbound c inbound)
  with assms(3) show ?thesis
    by (auto simp: session_inbound_def session_end_def Let_def bus_views
        split: sum.splits option.splits bus_frame.splits if_splits)
qed (use assms(3) in \<open>auto simp: bus_views split: option.splits task.splits if_splits call_wait.splits prod.splits\<close>)

lemma frame_inv_exec:
  assumes "conn_inv n s" "frame_inv s" "n < 2 ^ 64 - 2" "bus_exec json a s = Some t"
  shows "frame_inv t"
proof (cases "\<exists>c inbound. a = Inbound c inbound")
  case True
  with assms(2,4) frame_inv_inbound show ?thesis by (auto split: option.splits if_splits)
next
  case False
  show ?thesis
  proof (rule frame_inv_upd [OF assms(2) bus_conns_exec [OF assms(1,3,4)]])
    fix c f assume f: "f \<in> set (cl_queue (bus_cells t c))"
    show "f \<in> set (cl_queue (bus_cells s c)) \<or> frame_ok (bus_conns t) c f"
    proof (cases "\<exists>i. a = StartTask i")
      case True
      with assms(4) obtain i u where "t = start_task json i u s"
        by (auto simp del: start_task.simps split: option.splits task.splits)
      with f start_task_queue [OF assms(1)] show ?thesis by (auto simp: bus_views)
    next
      case start: False
      from f False start assms(4) show ?thesis
        by (cases a)
          (auto simp: accept_def ack_failed_def ack_written_def Let_def bus_views
            split: option.splits task.splits if_splits call_wait.splits prod.splits handshake.splits
            dest!: resume_task_queue shutdown_service_queue
            dest: list.set_sel(2) [rotated])
    qed
  qed
qed

subsection \<open>Origins\<close>

lemma origin_inv_upd:
  assumes "origin_inv s" "hello_kept (bus_conns s) (bus_conns t)"
    and "\<And>i u. bus_tasks t i = Some u \<Longrightarrow> bus_tasks s i = Some u \<or> task_ok (bus_conns t) u"
  shows "origin_inv t"
  using assms task_ok_mono unfolding origin_inv_def by blast

lemma task_ok_Done [simp]: "task_ok conns (Done r)"
  by (simp add: task_ok_def)

lemma start_call_tasks:
  assumes "bus_tasks (start_call json i og spec s) j = Some u"
  shows "bus_tasks s j = Some u \<or> (\<exists>r. u = Done r) \<or> (\<exists>w. u = Awaiting og spec w)"
  using assms by (auto simp: start_call_def bus_views split: prod.splits sum.splits if_splits)

lemma start_task_tasks:
  assumes "task_ok (bus_conns s) t" "bus_tasks (start_task json i t s) j = Some u"
  shows "bus_tasks s j = Some u \<or> task_ok (bus_conns s) u"
proof (cases t)
  case (ReadyInvoke c originator v)
  with assms show ?thesis
    by (auto simp: bus_views stamp_caller_def task_ok_def split: option.splits if_splits dest!: start_call_tasks)
qed (use assms in \<open>auto simp: task_ok_def dest!: start_call_tasks\<close>)

lemma resume_task_tasks:
  "bus_tasks (resume_task json i og spec w wk s) j = Some u \<Longrightarrow> bus_tasks s j = Some u \<or> (\<exists>r. u = Done r)"
  by (auto simp: resume_task_def bus_views split: prod.splits if_splits)

lemma origin_inv_exec:
  assumes "conn_inv n s" "origin_inv s" "n < 2 ^ 64 - 2" "bus_exec json a s = Some t"
  shows "origin_inv t"
proof (rule origin_inv_upd [OF assms(2) bus_conns_exec [OF assms(1,3,4)]])
  fix i u assume i: "bus_tasks t i = Some u"
  show "bus_tasks s i = Some u \<or> task_ok (bus_conns t) u"
  proof (cases "\<exists>i. a = StartTask i")
    case True
    with assms(4) obtain j v where "bus_tasks s j = Some v" "t = start_task json j v s"
      by (auto simp del: start_task.simps split: option.splits task.splits)
    with i assms(2) start_task_tasks [of s v json j] show ?thesis
      by (auto simp: bus_views origin_inv_def)
  next
    case False
    with i assms(4) show ?thesis
      by (cases a)
        (auto simp: accept_def ack_failed_def ack_written_def session_inbound_def session_end_def Let_def bus_views
          task_ok_def service_of_def
          split: option.splits task.splits if_splits call_wait.splits prod.splits handshake.splits sum.splits
            bus_frame.splits
          dest!: resume_task_tasks)
  qed
qed

subsection \<open>The invariant of the bus\<close>

lemma subscriptions_exec:
  assumes "dm_wf (br_subscriptions (bus_broker s))" "bus_exec json a s = Some t"
  shows "dm_wf (br_subscriptions (bus_broker t))"
proof (cases a)
  case (Accept inbound)
  with assms show ?thesis
    by (auto simp: accept_def serve_handshake_def consume_token_def next_client_id_def Let_def
        split: prod.splits handshake.splits sum.splits option.splits bus_frame.splits if_splits bool.splits)
qed (use assms in \<open>auto simp: bus_views issue_token_def register_local_service_def Let_def ack_failed_def
      ack_written_def attach_session_def probe_start_def session_inbound_def session_end_def
      subscribe_def unsubscribe_def
      split: option.splits task.splits if_splits call_wait.splits prod.splits sum.splits bus_frame.splits\<close>)

lemma bus_inv_init: "bus_inv 0 (bus_init config)"
  unfolding bus_inv_def
  by (simp add: conn_inv_init call_inv_init)
    (simp add: frame_inv_def origin_inv_def bus_init_def fresh_cell_def broker_new_def)

lemma bus_inv_exec:
  assumes "bus_inv n s" and n: "n < 2 ^ 64 - 2" and t: "bus_exec json a s = Some t"
  shows "bus_inv (Suc n) t"
proof -
  from assms(1) have s: "conn_inv n s" "call_inv n s" "frame_inv s" "origin_inv s"
    "dm_wf (br_subscriptions (bus_broker s))" by (simp_all add: bus_inv_def)
  show ?thesis
    unfolding bus_inv_def
    using conn_inv_exec [OF s(1) n t] call_inv_exec [OF s(1,2) n t] frame_inv_exec [OF s(1,3) n t]
      origin_inv_exec [OF s(1,4) n t] subscriptions_exec [OF s(5) t]
    by blast
qed

interpretation bus: guarded_system "bus_exec json" bus_inv "2 ^ 64 - 2" "bus_init config" for json config
  by unfold_locales (rule bus_inv_exec, assumption+, rule bus_inv_init)

end
