(* ===== verification/Transport.thy ===== *)
theory Transport
  imports Frames
begin

text \<open>
  The transports of \<open>crates/protocol/src/transport.rs\<close>: names of sockets and pipes, binding and
  connecting with the brief retry, and the socket an app serves its data plane on. The target
  platform is an argument (the code selects by \<open>cfg\<close>); what the operating system answers is a
  parameter: the result of each attempt to connect and the reading of the clock after it.

  Paths are the strings they were made from, with \<open>Path::parent\<close> and \<open>Path::join\<close> of the Unix
  standard library written out.
\<close>

section \<open>Definitions\<close>

datatype platform = PlatUnix | PlatWindows | PlatOther

subsection \<open>Paths\<close>

definition slash :: char where
  "slash = CHR ''/''"

fun split_slash :: "string \<Rightarrow> string list" where
  "split_slash [] = [[]]"
| "split_slash (c # s) =
     (if c = slash then [] # split_slash s
      else case split_slash s of [] \<Rightarrow> [[c]] | w # ws \<Rightarrow> (c # w) # ws)"

fun join_slash :: "string list \<Rightarrow> string" where
  "join_slash [] = []"
| "join_slash [w] = w"
| "join_slash (w # ws) = w @ slash # join_slash ws"

text \<open>
  The parts of a path from its end, as \<open>Components::next_back\<close> takes them: empty parts and parts
  that are \<open>.\<close> are no components, except for the first part, which is a name, a \<open>.\<close>, or empty (the
  root of an absolute path, or the empty path).
\<close>

fun trim_parts :: "string list \<Rightarrow> string list" where
  "trim_parts [] = []"
| "trim_parts [w] = [w]"
| "trim_parts (w # ws) = (if w = [] \<or> w = ''.'' then trim_parts ws else w # ws)"

definition path_of_parts :: "string list \<Rightarrow> string" where
  "path_of_parts ws = (if ws = [[]] then [slash] else join_slash (rev ws))"

definition path_parent :: "string \<Rightarrow> string option" where
  "path_parent p =
     (case trim_parts (rev (split_slash p)) of
        [] \<Rightarrow> None
      | [w] \<Rightarrow> if w = [] then None else Some []
      | w # ws \<Rightarrow> Some (path_of_parts (trim_parts ws)))"

definition path_join :: "string \<Rightarrow> string \<Rightarrow> string" where
  "path_join p q =
     (if starts_with q [slash] then q
      else if p = [] \<or> last p = slash then p @ q else p @ [slash] @ q)"

subsection \<open>Names of pipes\<close>

definition pipe_prefix :: string where
  "pipe_prefix = [CHR 0x5C, CHR 0x5C, CHR ''.'', CHR 0x5C] @ ''pipe'' @ [CHR 0x5C]"

definition pipe_full_name :: "string \<Rightarrow> string" where
  "pipe_full_name name = (if starts_with name pipe_prefix then name else pipe_prefix @ name)"

subsection \<open>Listening and connecting\<close>

text \<open>A pipe listener holds the instance of the pipe that the next client connects to.\<close>

type_synonym pipe_instance = nat

datatype listener =
    UnixListener string
  | NamedPipeListener pipe_instance string

datatype bus_stream =
    UnixStream string
  | NamedPipeStream string

definition unsupported :: "string \<Rightarrow> io_error" where
  "unsupported what =
     \<lparr>io_kind_of = Unsupported, io_text = what @ '' not supported on this platform''\<rparr>"

text \<open>\<open>os_bind\<close> and \<open>os_create\<close> are the system calls that bind a path and create a pipe.\<close>

fun bind ::
  "platform \<Rightarrow> (string \<Rightarrow> io_error + unit) \<Rightarrow> (string \<Rightarrow> io_error + pipe_instance) \<Rightarrow> data_plane_socket \<Rightarrow>
   io_error + listener" where
  "bind plat os_bind os_create (UnixSock path) =
     (if plat = PlatUnix
      then (case os_bind path of Inl e \<Rightarrow> Inl e | Inr u \<Rightarrow> Inr (UnixListener path))
      else Inl (unsupported ''Unix sockets''))"
| "bind plat os_bind os_create (NamedPipe name) =
     (if plat = PlatWindows
      then (case os_create (pipe_full_name name) of
              Inl e \<Rightarrow> Inl e | Inr server \<Rightarrow> Inr (NamedPipeListener server (pipe_full_name name)))
      else Inl (unsupported ''Named Pipes''))"

text \<open>
  One connect loop: \<open>attempt n\<close> is the result of attempt \<open>n\<close>, \<open>clock n\<close> what \<open>Instant::now\<close>
  reads when that attempt has failed with an error to retry. Fuel bounds the attempts.
\<close>

fun connect_loop ::
  "(io_kind \<Rightarrow> bool) \<Rightarrow> (nat \<Rightarrow> io_error + 'a) \<Rightarrow> (nat \<Rightarrow> instant) \<Rightarrow> instant \<Rightarrow> nat \<Rightarrow> nat \<Rightarrow>
   (io_error + 'a) option" where
  "connect_loop retry attempt clock deadline 0 n = None"
| "connect_loop retry attempt clock deadline (Suc fuel) n =
     (case attempt n of
        Inr s \<Rightarrow> Some (Inr s)
      | Inl e \<Rightarrow>
          (if retry (io_kind_of e)
           then (if clock n < deadline then connect_loop retry attempt clock deadline fuel (Suc n)
                 else Some (Inl e))
           else Some (Inl e)))"

definition connect_window :: duration where
  "connect_window = duration_from_secs 5"

definition connect_pause :: duration where
  "connect_pause = duration_from_millis 50"

definition retry_unix :: "io_kind \<Rightarrow> bool" where
  "retry_unix k \<longleftrightarrow> k = ConnectionRefused \<or> k = NotFound"

definition retry_pipe :: "io_kind \<Rightarrow> bool" where
  "retry_pipe k \<longleftrightarrow> k = PipeBusy"

fun stream_connect ::
  "platform \<Rightarrow> nat \<Rightarrow> instant \<Rightarrow> (nat \<Rightarrow> instant) \<Rightarrow> (string \<Rightarrow> nat \<Rightarrow> io_error + unit) \<Rightarrow>
   data_plane_socket \<Rightarrow> (io_error + bus_stream) option" where
  "stream_connect plat fuel now clock os_connect (UnixSock path) =
     (if plat = PlatUnix
      then map_option (map_sum id (\<lambda>u. UnixStream path))
             (connect_loop retry_unix (os_connect path) clock (now + as_nanos connect_window) fuel 0)
      else Some (Inl (unsupported ''Unix sockets'')))"
| "stream_connect plat fuel now clock os_connect (NamedPipe name) =
     (if plat = PlatWindows
      then map_option (map_sum id (\<lambda>u. NamedPipeStream (pipe_full_name name)))
             (connect_loop retry_pipe (os_connect (pipe_full_name name)) clock
                (now + as_nanos connect_window) fuel 0)
      else Some (Inl (unsupported ''Named Pipes'')))"

subsection \<open>The socket of an app\<close>

text \<open>
  \<open>app_socket\<close> on the variable \<open>TOKIMO_BUS_SOCKET\<close>, the result of \<open>create_dir_all\<close> and the process
  id; with the files it removes.
\<close>

definition app_socket ::
  "platform \<Rightarrow> string option \<Rightarrow> (string \<Rightarrow> io_error option) \<Rightarrow> u32 \<Rightarrow> string \<Rightarrow>
   (io_error + data_plane_socket) \<times> string list" where
  "app_socket plat bus_var create_dir_all pid service =
     (case plat of
        PlatUnix \<Rightarrow>
          (case bus_var of
             None \<Rightarrow> (Inl \<lparr>io_kind_of = NotFound, io_text = ''TOKIMO_BUS_SOCKET not set''\<rparr>, [])
           | Some bus \<Rightarrow>
               (case path_parent bus of
                  None \<Rightarrow> (Inl \<lparr>io_kind_of = InvalidInput, io_text = ''TOKIMO_BUS_SOCKET has no parent''\<rparr>, [])
                | Some parent \<Rightarrow>
                    (let apps_dir = path_join parent ''apps''
                     in case create_dir_all apps_dir of
                          Some e \<Rightarrow> (Inl e, [])
                        | None \<Rightarrow>
                            (let path = path_join apps_dir (service @ ''.sock'')
                             in (Inr (UnixSock path), [path])))))
      | PlatWindows \<Rightarrow>
          (Inr (NamedPipe (''tokimo-app-'' @ service @ ''-'' @ show_nat (unat pid))), [])
      | PlatOther \<Rightarrow>
          (Inl \<lparr>io_kind_of = Unsupported, io_text = ''no transport available on this platform''\<rparr>, []))"

definition bind_for_app ::
  "platform \<Rightarrow> string option \<Rightarrow> (string \<Rightarrow> io_error option) \<Rightarrow> u32 \<Rightarrow> (string \<Rightarrow> io_error + unit) \<Rightarrow>
   (string \<Rightarrow> io_error + pipe_instance) \<Rightarrow> string \<Rightarrow> io_error + (listener \<times> data_plane_socket)" where
  "bind_for_app plat bus_var create_dir_all pid os_bind os_create service =
     (case fst (app_socket plat bus_var create_dir_all pid service) of
        Inl e \<Rightarrow> Inl e
      | Inr socket \<Rightarrow>
          (case bind plat os_bind os_create socket of Inl e \<Rightarrow> Inl e | Inr l \<Rightarrow> Inr (l, socket)))"

text \<open>\<open>cleanup\<close> names the file it removes.\<close>

fun cleanup :: "data_plane_socket \<Rightarrow> string list" where
  "cleanup (UnixSock path) = [path]"
| "cleanup (NamedPipe name) = []"

subsection \<open>Specifications\<close>

text \<open>A directory that ends in a name: what \<open>parent\<close> of one of its files gives back unchanged.\<close>

definition clean_dir :: "string \<Rightarrow> bool" where
  "clean_dir d \<longleftrightarrow> last (split_slash d) \<noteq> [] \<and> last (split_slash d) \<noteq> ''.''"

text \<open>When the connect loop ends: a success, an error that is not retried, or a late one.\<close>

definition gives_up ::
  "(io_kind \<Rightarrow> bool) \<Rightarrow> (nat \<Rightarrow> io_error + 'a) \<Rightarrow> (nat \<Rightarrow> instant) \<Rightarrow> instant \<Rightarrow> nat \<Rightarrow> bool" where
  "gives_up retry attempt clock deadline n =
     (case attempt n of Inr s \<Rightarrow> True | Inl e \<Rightarrow> \<not> (retry (io_kind_of e) \<and> clock n < deadline))"

section \<open>Lemmas\<close>

subsection \<open>Paths\<close>

lemma split_slash_ne [simp]: "split_slash p \<noteq> []"
  by (induction p) (auto split: list.splits)

lemma split_slash_name: "slash \<notin> set w \<Longrightarrow> split_slash w = [w]"
  by (induction w) auto

lemma split_slash_append: "slash \<notin> set w \<Longrightarrow> split_slash (p @ slash # w) = split_slash p @ [w]"
proof (induction p)
  case Nil
  then show ?case by (simp add: split_slash_name)
next
  case (Cons c p)
  then show ?case by (cases "split_slash p") auto
qed

lemma join_split_slash: "join_slash (split_slash p) = p"
proof (induction p)
  case (Cons c p)
  then show ?case by (cases "split_slash p" rule: join_slash.cases) auto
qed simp

lemma trim_parts_clean:
  assumes "clean_dir d"
  shows "trim_parts (rev (split_slash d)) = rev (split_slash d)"
proof (cases "rev (split_slash d)" rule: trim_parts.cases)
  case (3 w v vs)
  then have "last (split_slash d) = w" by (metis last_rev list.sel(1) rev_rev_ident)
  with assms 3 show ?thesis by (simp add: clean_dir_def)
qed simp_all

lemma path_parent_file:
  assumes "clean_dir d" "w \<noteq> []" "w \<noteq> ''.''" "slash \<notin> set w"
  shows "path_parent (d @ slash # w) = Some d"
proof -
  obtain v vs where d: "rev (split_slash d) = v # vs"
    by (cases "rev (split_slash d)") simp_all
  moreover from d have "split_slash d = rev vs @ [v]" by (metis rev_rev_ident rev.simps(2))
  then have "join_slash (rev vs @ [v]) = d" "v \<noteq> []"
    using join_split_slash [of d] assms(1) by (simp_all add: clean_dir_def)
  ultimately show ?thesis
    using assms trim_parts_clean [OF assms(1)]
    by (simp add: path_parent_def split_slash_append path_of_parts_def)
qed

lemma clean_dir_ends:
  assumes "clean_dir d"
  shows "d \<noteq> []" "last d \<noteq> slash"
proof -
  show "d \<noteq> []" using assms by (auto simp: clean_dir_def)
  show "last d \<noteq> slash"
  proof
    assume "last d = slash"
    with \<open>d \<noteq> []\<close> obtain e where "d = e @ slash # []" by (metis append_butlast_last_id)
    then have "last (split_slash d) = []" using split_slash_append [of "[]" e] by simp
    with assms show False by (simp add: clean_dir_def)
  qed
qed

lemma starts_slash: "starts_with s [slash] \<longleftrightarrow> s \<noteq> [] \<and> hd s = slash"
  by (cases s) auto

lemma app_socket_unix:
  assumes "clean_dir d" "w \<noteq> []" "w \<noteq> ''.''" "slash \<notin> set w" "create (d @ ''/apps'') = None"
    "\<not> starts_with service [slash]"
  shows "app_socket PlatUnix (Some (d @ slash # w)) create pid service =
    (Inr (UnixSock (d @ ''/apps/'' @ service @ ''.sock'')), [d @ ''/apps/'' @ service @ ''.sock''])"
proof -
  have apps: "path_join d ''apps'' = d @ ''/apps''"
    using clean_dir_ends [OF assms(1)] by (simp add: path_join_def slash_def)
  have sock: "path_join (d @ ''/apps'') (service @ ''.sock'') = d @ ''/apps/'' @ service @ ''.sock''"
    using assms(6) by (cases service) (auto simp: path_join_def slash_def)
  from assms(5) show ?thesis
    by (simp add: app_socket_def path_parent_file [OF assms(1-4)] apps sock Let_def)
qed

text \<open>
  Apps do not share a data-plane socket: with the bus socket a file of a directory \<open>d\<close>, the
  socket of an app is \<open>d/apps/service.sock\<close>, the only file that is removed is a leftover at that
  path, and two services get the same socket only if their names are the same.
\<close>

theorem app_socket_per_service:
  assumes "clean_dir d" "w \<noteq> []" "w \<noteq> ''.''" "slash \<notin> set w" "create (d @ ''/apps'') = None"
    "\<not> starts_with service [slash]" "\<not> starts_with other [slash]"
  shows "app_socket PlatUnix (Some (d @ slash # w)) create pid service =
      (Inr (UnixSock (d @ ''/apps/'' @ service @ ''.sock'')), [d @ ''/apps/'' @ service @ ''.sock'']) \<and>
    (fst (app_socket PlatUnix (Some (d @ slash # w)) create pid service) =
       fst (app_socket PlatUnix (Some (d @ slash # w)) create pid' other) \<longleftrightarrow> service = other)"
  using app_socket_unix [of d w create service] app_socket_unix [of d w create other] assms by simp

theorem app_socket_per_service_witness:
  "app_socket PlatUnix (Some ''/run/tokimo/bus.sock'') (\<lambda>d. None) 7 ''photos'' =
     (Inr (UnixSock ''/run/tokimo/apps/photos.sock''), [''/run/tokimo/apps/photos.sock''])"
  using app_socket_per_service [of "''/run/tokimo''" "''bus.sock''" "\<lambda>d. None" "''photos''" "''notes''" 7]
  by (simp add: clean_dir_def slash_def)

subsection \<open>Connecting\<close>

interpretation conn_loop: retry_loop "connect_loop retry attempt clock deadline"
  "gives_up retry attempt clock deadline" attempt for retry attempt clock deadline
  by unfold_locales (auto simp: gives_up_def split: sum.splits)

lemma connect_loop_returns:
  assumes clock: "\<And>n. clock n + as_nanos connect_pause \<le> clock (Suc n)" "now \<le> clock 0"
  shows "\<exists>j \<le> 100. connect_loop retry attempt clock (now + as_nanos connect_window) 101 0 = Some (attempt j) \<and>
    gives_up retry attempt clock (now + as_nanos connect_window) j \<and>
    (\<forall>i < j. \<not> gives_up retry attempt clock (now + as_nanos connect_window) i)"
proof -
  have "now + as_nanos connect_window \<le> clock 100"
    using clock_linear [of clock "as_nanos connect_pause" 100] clock
    by (simp add: connect_window_def connect_pause_def duration_from_secs_def duration_from_millis_def)
  then have "gives_up retry attempt clock (now + as_nanos connect_window) 100"
    by (auto simp: gives_up_def split: sum.splits)
  from conn_loop.loop_returns [OF this, of 0 101] show ?thesis by auto
qed

text \<open>
  Connecting to the bus always returns: if each pause of the retry loop lasts at least the 50
  milliseconds asked for, at most 101 attempts are made. The result is that of an attempt \<open>j\<close>:
  every earlier attempt was refused or found no socket, before the five seconds were over, and
  attempt \<open>j\<close> either succeeded, or failed with another error, or failed after the five seconds.
\<close>

theorem stream_connect_returns:
  assumes "\<forall>n. clock n + as_nanos connect_pause \<le> clock (Suc n)" "now \<le> clock 0"
  shows "\<exists>j \<le> 100.
    stream_connect PlatUnix 101 now clock os_connect (UnixSock path) =
      Some (map_sum id (\<lambda>u. UnixStream path) (os_connect path j)) \<and>
    (\<forall>i < j. \<exists>e. os_connect path i = Inl e \<and> (io_kind_of e = ConnectionRefused \<or> io_kind_of e = NotFound) \<and>
       clock i < now + 5 * 10 ^ 9) \<and>
    (\<forall>e. os_connect path j = Inl e \<longrightarrow>
       (io_kind_of e \<noteq> ConnectionRefused \<and> io_kind_of e \<noteq> NotFound) \<or> now + 5 * 10 ^ 9 \<le> clock j)"
proof -
  let ?g = "gives_up retry_unix (os_connect path) clock (now + as_nanos connect_window)"
  obtain j where j: "j \<le> 100" "?g j" "\<forall>i < j. \<not> ?g i"
    "connect_loop retry_unix (os_connect path) clock (now + as_nanos connect_window) 101 0 = Some (os_connect path j)"
    using connect_loop_returns [of clock now retry_unix "os_connect path"] assms by blast
  have "\<exists>e. os_connect path i = Inl e \<and> (io_kind_of e = ConnectionRefused \<or> io_kind_of e = NotFound) \<and>
      clock i < now + 5 * 10 ^ 9" if "i < j" for i
    using j(3) [rule_format, OF that]
    by (cases "os_connect path i")
      (auto simp: gives_up_def retry_unix_def connect_window_def duration_from_secs_def)
  moreover have "(io_kind_of e \<noteq> ConnectionRefused \<and> io_kind_of e \<noteq> NotFound) \<or> now + 5 * 10 ^ 9 \<le> clock j"
    if "os_connect path j = Inl e" for e
    using j(2) that by (auto simp: gives_up_def retry_unix_def connect_window_def duration_from_secs_def)
  ultimately show ?thesis using j(1,4) by (intro exI [of _ j]) auto
qed

theorem stream_connect_returns_witness:
  "\<exists>r. stream_connect PlatUnix 101 0 (\<lambda>n. n * 50000000)
     (\<lambda>p n. if n < 3 then Inl \<lparr>io_kind_of = ConnectionRefused, io_text = ''refused''\<rparr> else Inr ())
     (UnixSock ''bus'') = Some r"
proof -
  have "\<forall>n. n * 50000000 + as_nanos connect_pause \<le> Suc n * 50000000"
    by (simp add: connect_pause_def duration_from_millis_def)
  from stream_connect_returns [OF this, of 0 "\<lambda>p n. if n < 3
      then Inl \<lparr>io_kind_of = ConnectionRefused, io_text = ''refused''\<rparr> else Inr ()" "''bus''"]
  show ?thesis by auto
qed

end
