(* ===== verification/Client_Config.thy ===== *)
theory Client_Config
  imports Transport
begin

text \<open>
  How an app finds its broker: \<open>crates/client/src/config.rs\<close> and the socket selection of
  \<open>crates/client/src/transport.rs\<close>. The environment is a map from names to values (a variable
  that is absent or not Unicode is \<open>None\<close>, which is when \<open>env::var\<close> fails).
\<close>

section \<open>Definitions\<close>

datatype endpoint =
    EpUnixSocket string
  | EpNamedPipe string

record client_config =
  cfg_endpoint :: endpoint
  cfg_auth_token :: string
  cfg_reconnect_max_backoff :: "duration option"
  cfg_idle_exit :: "duration option"

type_synonym environment = "string \<Rightarrow> string option"

definition parse_endpoint :: "platform \<Rightarrow> string \<Rightarrow> endpoint" where
  "parse_endpoint plat raw =
     (if plat = PlatWindows
      then (case strip_prefix raw ''pipe://'' of
              Some pipe \<Rightarrow> EpNamedPipe (pipe_prefix @ pipe)
            | None \<Rightarrow> (if starts_with raw pipe_prefix then EpNamedPipe raw else EpUnixSocket raw))
      else EpUnixSocket raw)"

definition idle_ms_of :: "string option \<Rightarrow> u64" where
  "idle_ms_of var = (case Option.bind var parse_u64 of None \<Rightarrow> 0 | Some ms \<Rightarrow> ms)"

definition config_from_env :: "platform \<Rightarrow> environment \<Rightarrow> client_config bus_result" where
  "config_from_env plat env =
     (case env ''TOKIMO_BUS_SOCKET'' of
        None \<Rightarrow> Inl (BadRequest ''env TOKIMO_BUS_SOCKET is required'')
      | Some endpoint_raw \<Rightarrow>
          (case env ''TOKIMO_BUS_TOKEN'' of
             None \<Rightarrow> Inl (BadRequest ''env TOKIMO_BUS_TOKEN is required'')
           | Some auth_token \<Rightarrow>
               (let idle_ms = idle_ms_of (env ''TOKIMO_BUS_IDLE_MS'')
                in Inr \<lparr>cfg_endpoint = parse_endpoint plat endpoint_raw, cfg_auth_token = auth_token,
                        cfg_reconnect_max_backoff = Some (duration_from_secs 30),
                        cfg_idle_exit =
                          (if idle_ms = 0 then None else Some (duration_from_millis (unat idle_ms)))\<rparr>)))"

definition config_unix :: "string \<Rightarrow> string \<Rightarrow> client_config" where
  "config_unix path token =
     \<lparr>cfg_endpoint = EpUnixSocket path, cfg_auth_token = token, cfg_reconnect_max_backoff = None,
      cfg_idle_exit = None\<rparr>"

definition config_named_pipe :: "string \<Rightarrow> string \<Rightarrow> client_config" where
  "config_named_pipe name token =
     \<lparr>cfg_endpoint = EpNamedPipe (pipe_prefix @ name), cfg_auth_token = token,
      cfg_reconnect_max_backoff = None, cfg_idle_exit = None\<rparr>"

fun endpoint_to_socket :: "endpoint \<Rightarrow> data_plane_socket" where
  "endpoint_to_socket (EpUnixSocket path) = UnixSock path"
| "endpoint_to_socket (EpNamedPipe name) =
     NamedPipe (case strip_prefix name pipe_prefix of None \<Rightarrow> name | Some bare \<Rightarrow> bare)"

text \<open>\<open>connect\<close>: the transport's result with its I/O error turned into a \<open>BusError\<close>.\<close>

definition client_connect ::
  "platform \<Rightarrow> nat \<Rightarrow> instant \<Rightarrow> (nat \<Rightarrow> instant) \<Rightarrow> (string \<Rightarrow> nat \<Rightarrow> io_error + unit) \<Rightarrow> endpoint \<Rightarrow>
   bus_stream bus_result option" where
  "client_connect plat fuel now clock os_connect endpoint =
     map_option (map_sum bus_error_of_io id)
       (stream_connect plat fuel now clock os_connect (endpoint_to_socket endpoint))"

section \<open>Lemmas\<close>

lemma idle_ms_of_shown: "idle_ms_of (Some (show_nat (unat (ms :: u64)))) = ms"
proof -
  have "unat ms < 2 ^ LENGTH(64)" by (rule unsigned_less)
  then show ?thesis by (simp add: idle_ms_of_def parse_u64_show_nat)
qed

lemma parse_pipe_uri: "endpoint_to_socket (parse_endpoint PlatWindows (''pipe://'' @ name)) = NamedPipe name"
  using strip_prefix_append [of "''pipe://''" name] by (simp add: parse_endpoint_def)

lemma endpoint_of_display:
  assumes "(\<exists>path. socket = UnixSock path) \<and> plat = PlatUnix \<or>
    (\<exists>name. socket = NamedPipe name) \<and> plat = PlatWindows"
  shows "endpoint_to_socket (parse_endpoint plat (display_name socket)) = socket"
  using assms
proof (elim disjE exE conjE)
  fix path assume "socket = UnixSock path" "plat = PlatUnix"
  then show ?thesis by (simp add: parse_endpoint_def)
next
  fix name assume "socket = NamedPipe name" "plat = PlatWindows"
  then show ?thesis using parse_pipe_uri [of name] by simp
qed

text \<open>
  An app connects to the socket the broker listens on: on the platform that supports the
  socket, the endpoint an app parses from the socket's displayed name leads back to the same socket.
\<close>

theorem endpoint_roundtrip:
  assumes "(\<exists>path. socket = UnixSock path) \<and> plat = PlatUnix \<or>
    (\<exists>name. socket = NamedPipe name) \<and> plat = PlatWindows"
  shows "endpoint_to_socket (parse_endpoint plat (display_name socket)) = socket"
  by (rule endpoint_of_display [OF assms])

theorem endpoint_roundtrip_witness:
  "endpoint_to_socket (parse_endpoint PlatWindows ''pipe://tokimo-bus'') = NamedPipe ''tokimo-bus''"
  using endpoint_roundtrip [of "NamedPipe ''tokimo-bus''" PlatWindows] by simp

text \<open>
  Configuration from the environment fails exactly if the socket or the token is missing. A
  present idle variable is the idle threshold in milliseconds if it is the decimal text of a
  number other than zero below \<open>2 ^ 64\<close>; text that is no such number disables the idle exit
  silently, it is no error.
\<close>

theorem config_from_env_cases:
  "(case config_from_env plat env of
      Inl e \<Rightarrow> env ''TOKIMO_BUS_SOCKET'' = None \<or> env ''TOKIMO_BUS_TOKEN'' = None
    | Inr cfg \<Rightarrow>
        (\<exists>raw. env ''TOKIMO_BUS_SOCKET'' = Some raw \<and> cfg_endpoint cfg = parse_endpoint plat raw) \<and>
        env ''TOKIMO_BUS_TOKEN'' = Some (cfg_auth_token cfg) \<and>
        cfg_reconnect_max_backoff cfg = Some (duration_from_secs 30) \<and>
        (\<forall>d. cfg_idle_exit cfg = Some d \<longleftrightarrow>
           (\<exists>text ms. env ''TOKIMO_BUS_IDLE_MS'' = Some text \<and> parse_u64 text = Some ms \<and> ms \<noteq> 0 \<and>
              d = duration_from_millis (unat ms))))"
  by (auto simp: config_from_env_def idle_ms_of_def Let_def split: option.splits bind_split)

end
