(* ===== verification/Client.thy ===== *)
theory Client
  imports Client_Config Broker
begin

text \<open>
  The app side of the bus: \<open>crates/client/src/builder.rs\<close> and \<open>crates/client/src/client.rs\<close>, with
  the task-local user id of \<open>crates/protocol/src/task_local.rs\<close> that handlers run under. As in
  the broker's model, code between two awaits is one action of \<open>app_exec\<close>; handlers and the
  \<open>Debug\<close> text of a frame are parameters or choices of the environment.

  \<open>Notify::notify_waiters\<close> wakes the tasks that wait at that moment and stores no permit, which is
  its documented behaviour; the waiting tasks of \<open>run_until_shutdown\<close> are part of the state. The
  table of pending calls lives as long as the client, so a oneshot sender is dropped exactly when
  it is no longer in the table, which is the guard of \<open>AppCallClosed\<close>.
\<close>

section \<open>Definitions\<close>

subsection \<open>The task-local user id\<close>

text \<open>\<open>None\<close> outside every scope, else the content of the cell.\<close>

type_synonym task_ctx = "string option option"

definition current_user_id :: "task_ctx \<Rightarrow> string option" where
  "current_user_id ctx = Option.bind ctx id"

definition set_user_id :: "string option \<Rightarrow> task_ctx \<Rightarrow> task_ctx" where
  "set_user_id user_id ctx = map_option (\<lambda>_. user_id) ctx"

definition scope_user_id :: "string option \<Rightarrow> (task_ctx \<Rightarrow> 'a) \<Rightarrow> 'a" where
  "scope_user_id user_id fut = fut (Some user_id)"

text \<open>\<open>auth_middleware\<close>: the header as \<open>HeaderMap::get\<close> and \<open>to_str\<close> give it.\<close>

definition header_user_id :: "string option option \<Rightarrow> string option" where
  "header_user_id header = Option.bind (Option.bind header id) (\<lambda>s. if s = [] then None else Some s)"

definition auth_middleware :: "string option option \<Rightarrow> (task_ctx \<Rightarrow> 'a) \<Rightarrow> 'a" where
  "auth_middleware header run_next = scope_user_id (header_user_id header) run_next"

subsection \<open>The builder\<close>

record invoke_request =
  ir_payload :: bytes
  ir_caller :: caller_ctx

record client_builder =
  cb_cfg :: client_config
  cb_service :: "(string \<times> string) option"
  cb_methods :: "method_decl list"
  cb_handlers :: "(string, handler_id) dashmap"
  cb_events :: "string list"
  cb_data_plane :: "data_plane_socket option"

definition builder_new :: "client_config \<Rightarrow> client_builder" where
  "builder_new cfg =
     \<lparr>cb_cfg = cfg, cb_service = None, cb_methods = [], cb_handlers = [], cb_events = [],
      cb_data_plane = None\<rparr>"

definition builder_service :: "string \<Rightarrow> string \<Rightarrow> client_builder \<Rightarrow> client_builder" where
  "builder_service name version b = b\<lparr>cb_service := Some (name, version)\<rparr>"

definition builder_method :: "method_decl \<Rightarrow> client_builder \<Rightarrow> client_builder" where
  "builder_method decl b = b\<lparr>cb_methods := cb_methods b @ [decl]\<rparr>"

definition builder_on_invoke :: "string \<Rightarrow> handler_id \<Rightarrow> client_builder \<Rightarrow> client_builder" where
  "builder_on_invoke m handler b = b\<lparr>cb_handlers := dm_insert m handler (cb_handlers b)\<rparr>"

definition builder_publishes :: "string \<Rightarrow> client_builder \<Rightarrow> client_builder" where
  "builder_publishes topic b = b\<lparr>cb_events := cb_events b @ [topic]\<rparr>"

definition builder_data_plane :: "data_plane_socket \<Rightarrow> client_builder \<Rightarrow> client_builder" where
  "builder_data_plane socket b = b\<lparr>cb_data_plane := Some socket\<rparr>"

definition undeclared_handler :: "client_builder \<Rightarrow> string option" where
  "undeclared_handler b =
     List.find (\<lambda>name. \<not> (\<exists>m \<in> set (cb_methods b). md_name m = name)) (dm_keys (cb_handlers b))"

definition undeclared_text :: "string \<Rightarrow> string" where
  "undeclared_text name =
     ''handler registered for '' @ backtick @ name @ backtick @ '' but no MethodDecl declared it''"

definition build_hello :: "u32 \<Rightarrow> client_builder \<Rightarrow> hello_request bus_result" where
  "build_hello pid b =
     (case cb_service b of
        None \<Rightarrow> Inl (BadRequest ''service() was not called'')
      | Some (service, version) \<Rightarrow>
          (case undeclared_handler b of
             Some name \<Rightarrow> Inl (BadRequest (undeclared_text name))
           | None \<Rightarrow>
               Inr \<lparr>hr_protocol = PROTOCOL_CURRENT, hr_service = service, hr_version = version, hr_pid = pid,
                    hr_auth_token = cfg_auth_token (cb_cfg b), hr_methods = cb_methods b,
                    hr_events = cb_events b, hr_data_plane = cb_data_plane b\<rparr>))"

subsection \<open>Establishing the connection\<close>

definition is_transient_connect_msg :: "string \<Rightarrow> bool" where
  "is_transient_connect_msg msg \<longleftrightarrow>
     str_contains msg ''Connection refused'' \<or> str_contains msg ''No such file or directory''"

definition transient_error :: "bus_error \<Rightarrow> bool" where
  "transient_error e = (case e of Io msg \<Rightarrow> is_transient_connect_msg msg | _ \<Rightarrow> False)"

definition next_backoff :: "nat \<Rightarrow> nat" where
  "next_backoff ms = min (ms * 2) 1000"

text \<open>
  The retry loop: \<open>attempt n\<close> is the result of connection attempt \<open>n\<close>, \<open>clock n\<close> the clock when it
  has failed with a transient error. The result carries the pauses made, in milliseconds.
\<close>

fun dial_loop ::
  "(nat \<Rightarrow> 'a bus_result) \<Rightarrow> (nat \<Rightarrow> instant) \<Rightarrow> instant \<Rightarrow> nat \<Rightarrow> nat \<Rightarrow> nat \<Rightarrow> nat list \<Rightarrow>
   ('a bus_result \<times> nat list) option" where
  "dial_loop attempt clock deadline 0 n backoff_ms pauses = None"
| "dial_loop attempt clock deadline (Suc fuel) n backoff_ms pauses =
     (case attempt n of
        Inr s \<Rightarrow> Some (Inr s, pauses)
      | Inl e \<Rightarrow>
          (if transient_error e \<and> clock n < deadline
           then dial_loop attempt clock deadline fuel (Suc n) (next_backoff backoff_ms) (pauses @ [backoff_ms])
           else Some (Inl e, pauses)))"

definition dial ::
  "client_config \<Rightarrow> instant \<Rightarrow> (nat \<Rightarrow> 'a bus_result) \<Rightarrow> (nat \<Rightarrow> instant) \<Rightarrow> nat \<Rightarrow>
   ('a bus_result \<times> nat list) option" where
  "dial cfg now attempt clock fuel =
     (case cfg_reconnect_max_backoff cfg of
        Some max_backoff \<Rightarrow> dial_loop attempt clock (now + as_nanos max_backoff) fuel 0 50 []
      | None \<Rightarrow> Some (attempt 0, []))"

text \<open>The first reply; \<open>debug\<close> prints a frame as \<open>{other:?}\<close> does.\<close>

definition hello_reply ::
  "(bus_frame \<Rightarrow> string) \<Rightarrow> bus_frame option bus_result \<Rightarrow> hello_ack bus_result" where
  "hello_reply debug reply =
     (case reply of
        Inl e \<Rightarrow> Inl e
      | Inr None \<Rightarrow> Inl ConnectionClosed
      | Inr (Some (HelloAck a)) \<Rightarrow> Inr a
      | Inr (Some (Response r)) \<Rightarrow>
          (case rsp_result r of
             Inl e \<Rightarrow> Inl e
           | Inr _ \<Rightarrow> Inl (Internal ''broker rejected Hello without explaining''))
      | Inr (Some other) \<Rightarrow> Inl (Internal (''expected HelloAck, got '' @ debug other)))"

record bus_client =
  bk_service :: string
  bk_next_req_id :: u64
  bk_queue :: "bus_frame list"
  bk_open :: bool
  bk_pending :: "(u64, call_id) dashmap"
  bk_handlers :: "(string, handler_id) dashmap"
  bk_shutdown_fired :: bool
  bk_last_activity :: instant
  bk_idle_exit :: "duration option"

definition client_new ::
  "client_config \<Rightarrow> hello_request \<Rightarrow> (string, handler_id) dashmap \<Rightarrow> instant \<Rightarrow> bus_client" where
  "client_new cfg hello handlers now =
     \<lparr>bk_service = hr_service hello, bk_next_req_id = 1, bk_queue = [], bk_open = True, bk_pending = [],
      bk_handlers = handlers, bk_shutdown_fired = False, bk_last_activity = now,
      bk_idle_exit = cfg_idle_exit cfg\<rparr>"

text \<open>
  \<open>establish\<close>, after the transport is connected: the result of writing the hello, the broker's
  reply, and the clock at the end.
\<close>

definition establish ::
  "(bus_frame \<Rightarrow> string) \<Rightarrow> client_config \<Rightarrow> hello_request \<Rightarrow> (string, handler_id) dashmap \<Rightarrow>
   unit bus_result \<Rightarrow> bus_frame option bus_result \<Rightarrow> instant \<Rightarrow> bus_client bus_result" where
  "establish debug cfg hello handlers written reply now =
     (case written of
        Inl e \<Rightarrow> Inl e
      | Inr _ \<Rightarrow>
          (case hello_reply debug reply of
             Inl e \<Rightarrow> Inl e
           | Inr ack \<Rightarrow> Inr (client_new cfg hello handlers now)))"

text \<open>
  \<open>build\<close>: nothing is dialled unless the hello is complete. \<open>written\<close> and \<open>reply\<close> are what happens to
  the hello on the stream that dialling returned.
\<close>

definition connect_with_builder ::
  "(bus_frame \<Rightarrow> string) \<Rightarrow> u32 \<Rightarrow> client_builder \<Rightarrow> instant \<Rightarrow> (nat \<Rightarrow> 'a bus_result) \<Rightarrow> (nat \<Rightarrow> instant) \<Rightarrow>
   nat \<Rightarrow> ('a \<Rightarrow> hello_request \<Rightarrow> unit bus_result) \<Rightarrow>
   ('a \<Rightarrow> hello_request \<Rightarrow> bus_frame option bus_result) \<Rightarrow> instant \<Rightarrow> bus_client bus_result option" where
  "connect_with_builder debug pid b now attempt clock fuel written reply ready =
     (case build_hello pid b of
        Inl e \<Rightarrow> Some (Inl e)
      | Inr hello \<Rightarrow>
          (case dial (cb_cfg b) now attempt clock fuel of
             None \<Rightarrow> None
           | Some (Inl e, pauses) \<Rightarrow> Some (Inl e)
           | Some (Inr stream, pauses) \<Rightarrow>
               Some (establish debug (cb_cfg b) hello (cb_handlers b) (written stream hello)
                       (reply stream hello) ready)))"

subsection \<open>The app's state\<close>

text \<open>A call of \<open>invoke\<close>, an inbound request, and a task in \<open>run_until_shutdown\<close>.\<close>

datatype app_call = CallWaiting u64 | CallDone "bytes bus_result"

datatype dispatch =
    Queued invoke
  | Running handler_id invoke_request u64 task_ctx
  | Answered

datatype run_wait = RunWaiting instant | RunReturned

record app =
  ap_client :: bus_client
  ap_reading :: bool
  ap_calls :: "nat \<Rightarrow> app_call option"
  ap_n_calls :: nat
  ap_oneshots :: "nat \<Rightarrow> response option"
  ap_dispatches :: "nat \<Rightarrow> dispatch option"
  ap_n_dispatches :: nat
  ap_runs :: "nat \<Rightarrow> run_wait option"
  ap_n_runs :: nat
  ap_now :: instant

definition app_start :: "bus_client \<Rightarrow> instant \<Rightarrow> app" where
  "app_start client now =
     \<lparr>ap_client = client, ap_reading = True, ap_calls = (\<lambda>_. None), ap_n_calls = 0,
      ap_oneshots = (\<lambda>_. None), ap_dispatches = (\<lambda>_. None), ap_n_dispatches = 0,
      ap_runs = (\<lambda>_. None), ap_n_runs = 0, ap_now = now\<rparr>"

definition auto_caller :: "task_ctx \<Rightarrow> string \<Rightarrow> string \<Rightarrow> caller_ctx" where
  "auto_caller ctx uuid app_id =
     \<lparr>cc_user_id = current_user_id ctx, cc_request_id = uuid, cc_workspace = None,
      cc_caller_app_id = Some app_id\<rparr>"

subsection \<open>Operations of the client\<close>

definition client_send :: "bus_frame \<Rightarrow> bus_client \<Rightarrow> bus_client \<times> bool" where
  "client_send f k =
     (if bk_open k then (k\<lparr>bk_queue := bk_queue k @ [f]\<rparr>, True) else (k, False))"

definition client_invoke :: "string \<Rightarrow> string \<Rightarrow> bytes \<Rightarrow> caller_ctx \<Rightarrow> app \<Rightarrow> app" where
  "client_invoke service m payload caller s =
     (let k = ap_client s;
          req_id = bk_next_req_id k;
          i = ap_n_calls s;
          k1 = k\<lparr>bk_next_req_id := req_id + 1, bk_pending := dm_insert req_id i (bk_pending k)\<rparr>;
          frame = Invoke \<lparr>inv_req_id = req_id, inv_method = service @ ''.'' @ m, inv_payload = payload,
                          inv_caller = caller\<rparr>;
          (k2, sent) = client_send frame k1
      in s\<lparr>ap_client := k2, ap_n_calls := Suc i,
           ap_calls := (ap_calls s)(i \<mapsto> (if sent then CallWaiting req_id else CallDone (Inl ConnectionClosed)))\<rparr>)"

definition client_publish :: "string \<Rightarrow> bytes \<Rightarrow> bus_client \<Rightarrow> unit bus_result \<times> bus_client" where
  "client_publish topic payload k =
     (case client_send (Publish \<lparr>ev_topic = topic, ev_payload = payload, ev_from = None\<rparr>) k of
        (k1, True) \<Rightarrow> (Inr (), k1)
      | (k1, False) \<Rightarrow> (Inl ConnectionClosed, k1))"

definition client_subscribe :: "string \<Rightarrow> bus_client \<Rightarrow> unit bus_result \<times> bus_client" where
  "client_subscribe topic_prefix k =
     (case client_send (Subscribe topic_prefix) k of
        (k1, True) \<Rightarrow> (Inr (), k1)
      | (k1, False) \<Rightarrow> (Inl ConnectionClosed, k1))"

text \<open>\<open>shutdown\<close>: the first call wakes the tasks that wait now; later calls do nothing.\<close>

definition wake_runs :: "(nat \<Rightarrow> run_wait option) \<Rightarrow> nat \<Rightarrow> run_wait option" where
  "wake_runs runs = (\<lambda>w. map_option (\<lambda>_. RunReturned) (runs w))"

definition client_shutdown :: "app \<Rightarrow> app" where
  "client_shutdown s =
     (if bk_shutdown_fired (ap_client s) then s
      else s\<lparr>ap_client := (ap_client s)\<lparr>bk_shutdown_fired := True\<rparr>, ap_runs := wake_runs (ap_runs s)\<rparr>)"

definition record_activity :: "app \<Rightarrow> app" where
  "record_activity s = s\<lparr>ap_client := (ap_client s)\<lparr>bk_last_activity := ap_now s\<rparr>\<rparr>"

definition client_response :: "response \<Rightarrow> app \<Rightarrow> app" where
  "client_response resp s =
     (case dm_get (bk_pending (ap_client s)) (rsp_req_id resp) of
        None \<Rightarrow> s
      | Some i \<Rightarrow>
          s\<lparr>ap_client := (ap_client s)\<lparr>bk_pending := dm_remove (rsp_req_id resp) (bk_pending (ap_client s))\<rparr>,
            ap_oneshots := (ap_oneshots s)(i \<mapsto> resp)\<rparr>)"

fun handle_inbound :: "bus_frame \<Rightarrow> app \<Rightarrow> app" where
  "handle_inbound Ping s = s\<lparr>ap_client := fst (client_send Pong (ap_client s))\<rparr>"
| "handle_inbound Shutdown s = client_shutdown s"
| "handle_inbound (Invoke v) s =
     (let s1 = record_activity s
      in s1\<lparr>ap_dispatches := (ap_dispatches s1)(ap_n_dispatches s1 \<mapsto> Queued v),
            ap_n_dispatches := Suc (ap_n_dispatches s1)\<rparr>)"
| "handle_inbound (Response resp) s = client_response resp s"
| "handle_inbound f s = s"

text \<open>\<open>run_connection\<close>: a frame is handled; the end of the stream or an error ends the connection.\<close>

definition connection_end :: "app \<Rightarrow> app" where
  "connection_end s =
     (let s1 = client_shutdown s
      in s1\<lparr>ap_reading := False, ap_client := (ap_client s1)\<lparr>bk_queue := [], bk_open := False\<rparr>\<rparr>)"

definition connection_inbound :: "bus_frame option bus_result \<Rightarrow> app \<Rightarrow> app" where
  "connection_inbound inbound s =
     (case inbound of
        Inr (Some frame) \<Rightarrow> handle_inbound frame s
      | Inr None \<Rightarrow> connection_end s
      | Inl e \<Rightarrow> connection_end s)"

definition reply_to :: "u64 \<Rightarrow> bytes bus_result \<Rightarrow> app \<Rightarrow> app" where
  "reply_to req_id result s =
     s\<lparr>ap_client := fst (client_send (Response \<lparr>rsp_req_id = req_id, rsp_result = result\<rparr>) (ap_client s))\<rparr>"

text \<open>\<open>dispatch_invoke\<close> up to the handler's future, and from its result.\<close>

definition dispatch_start :: "nat \<Rightarrow> invoke \<Rightarrow> app \<Rightarrow> app" where
  "dispatch_start d v s =
     (case dm_get (bk_handlers (ap_client s)) (inv_method v) of
        Some h \<Rightarrow>
          s\<lparr>ap_dispatches := (ap_dispatches s)(d \<mapsto>
              scope_user_id (cc_user_id (inv_caller v))
                (Running h \<lparr>ir_payload = inv_payload v, ir_caller = inv_caller v\<rparr> (inv_req_id v)))\<rparr>
      | None \<Rightarrow>
          reply_to (inv_req_id v) (Inl (MethodNotFound (bk_service (ap_client s)) (inv_method v)))
            (s\<lparr>ap_dispatches := (ap_dispatches s)(d \<mapsto> Answered)\<rparr>))"

subsection \<open>Actions\<close>

datatype app_action =
    AppInvoke string string bytes caller_ctx
  | AppPublish string bytes
  | AppSubscribe string
  | AppShutdown
  | AppInbound "bus_frame option bus_result"
  | AppWriter bool
  | AppCallReady nat
  | AppCallClosed nat
  | DispatchStart nat
  | HandlerReturns nat "bytes bus_result"
  | RunStart
  | IdlePoll nat
  | Tick nat

definition idle_poll :: "nat \<Rightarrow> app \<Rightarrow> app" where
  "idle_poll w s =
     (case bk_idle_exit (ap_client s) of
        None \<Rightarrow> s
      | Some thresh \<Rightarrow>
          (if as_nanos thresh \<le> ap_now s - bk_last_activity (ap_client s)
           then s\<lparr>ap_runs := (ap_runs s)(w \<mapsto> RunReturned)\<rparr>
           else s\<lparr>ap_runs := (ap_runs s)(w \<mapsto> RunWaiting (ap_now s + as_nanos (duration_div thresh 4)))\<rparr>))"

definition first_poll :: "app \<Rightarrow> instant" where
  "first_poll s =
     (case bk_idle_exit (ap_client s) of
        None \<Rightarrow> 0
      | Some thresh \<Rightarrow> ap_now s + as_nanos (duration_div thresh 4))"

fun app_exec :: "app_action \<Rightarrow> app \<Rightarrow> app option" where
  "app_exec (AppInvoke service m payload caller) s = Some (client_invoke service m payload caller s)"
| "app_exec (AppPublish topic payload) s =
     Some (s\<lparr>ap_client := snd (client_publish topic payload (ap_client s))\<rparr>)"
| "app_exec (AppSubscribe topic_prefix) s =
     Some (s\<lparr>ap_client := snd (client_subscribe topic_prefix (ap_client s))\<rparr>)"
| "app_exec AppShutdown s = Some (client_shutdown s)"
| "app_exec (AppInbound inbound) s = (if ap_reading s then Some (connection_inbound inbound s) else None)"
| "app_exec (AppWriter ok) s =
     (if bk_open (ap_client s) \<and> bk_queue (ap_client s) \<noteq> []
      then Some (s\<lparr>ap_client :=
             (if ok then (ap_client s)\<lparr>bk_queue := tl (bk_queue (ap_client s))\<rparr>
              else (ap_client s)\<lparr>bk_queue := [], bk_open := False\<rparr>)\<rparr>)
      else None)"
| "app_exec (AppCallReady i) s =
     (case (ap_calls s i, ap_oneshots s i) of
        (Some (CallWaiting r), Some resp) \<Rightarrow> Some (s\<lparr>ap_calls := (ap_calls s)(i \<mapsto> CallDone (rsp_result resp))\<rparr>)
      | _ \<Rightarrow> None)"
| "app_exec (AppCallClosed i) s =
     (case (ap_calls s i, ap_oneshots s i) of
        (Some (CallWaiting r), None) \<Rightarrow>
          (if i \<in> set (map snd (bk_pending (ap_client s))) then None
           else Some (s\<lparr>ap_calls := (ap_calls s)(i \<mapsto> CallDone (Inl ConnectionClosed))\<rparr>))
      | _ \<Rightarrow> None)"
| "app_exec (DispatchStart d) s =
     (case ap_dispatches s d of Some (Queued v) \<Rightarrow> Some (dispatch_start d v s) | _ \<Rightarrow> None)"
| "app_exec (HandlerReturns d result) s =
     (case ap_dispatches s d of
        Some (Running h req req_id ctx) \<Rightarrow>
          Some (reply_to req_id result (s\<lparr>ap_dispatches := (ap_dispatches s)(d \<mapsto> Answered)\<rparr>))
      | _ \<Rightarrow> None)"
| "app_exec RunStart s =
     Some (s\<lparr>ap_runs := (ap_runs s)(ap_n_runs s \<mapsto> RunWaiting (first_poll s)), ap_n_runs := Suc (ap_n_runs s)\<rparr>)"
| "app_exec (IdlePoll w) s =
     (case ap_runs s w of
        Some (RunWaiting at) \<Rightarrow>
          (if bk_idle_exit (ap_client s) \<noteq> None \<and> at \<le> ap_now s then Some (idle_poll w s) else None)
      | _ \<Rightarrow> None)"
| "app_exec (Tick ns) s = Some (s\<lparr>ap_now := ap_now s + ns\<rparr>)"

end
