(* ===== verification/Trace.thy ===== *)
theory Trace
  imports Delivery Client
begin

text \<open>
  What happened on the bus, as a set of events: an app asked for a call, the broker relayed a call to an
  app, an app replied, a local handler resolved a call. \<open>bus_traced\<close> ties everything in the broker
  that carries a result or a request to the events behind it: a call in flight was asked for or is
  the broker's own, a response in a table came from the connection the call was relayed to, and a
  response queued for an app answers a call of that app. Every action keeps it, with the events the
  action adds.
\<close>

section \<open>Definitions\<close>

datatype net_event =
    Asked conn_id nat invoke
  | Relayed call_id origin conn_id invoke
  | LocalAnswered string handler_id string bytes caller_ctx "bytes bus_result"
  | Replied conn_id u64 "(handler_id \<times> invoke_request) option" "bytes bus_result"

definition invoke_of :: "u64 \<Rightarrow> call_spec \<Rightarrow> invoke" where
  "invoke_of q spec =
     \<lparr>inv_req_id = q, inv_method = cs_method spec, inv_payload = cs_payload spec, inv_caller = cs_caller spec\<rparr>"

fun bus_events :: "bus_action \<Rightarrow> bus \<Rightarrow> bus \<Rightarrow> net_event set" where
  "bus_events (StartTask i) s t =
     (case bus_tasks t i of
        Some (Awaiting og spec (WaitRemote h q)) \<Rightarrow> {Relayed i og (sh_pending_out h) (invoke_of q spec)}
      | _ \<Rightarrow> {})"
| "bus_events (LocalResolves i r) s t =
     (case bus_tasks s i of
        Some (Awaiting og spec (WaitLocal h m p cl)) \<Rightarrow> {LocalAnswered (cs_service spec) h m p cl r}
      | _ \<Rightarrow> {})"
| "bus_events a s t = {}"

subsection \<open>Causes\<close>

type_synonym conns_map = "conn_id \<Rightarrow> conn option"

text \<open>The app on \<open>c\<close> asked for this call under request id \<open>r\<close>.\<close>

definition asked_as :: "conns_map \<Rightarrow> net_event set \<Rightarrow> conn_id \<Rightarrow> u64 \<Rightarrow> call_spec \<Rightarrow> bool" where
  "asked_as conns L c r spec \<longleftrightarrow>
     (\<exists>j v sv. Asked c j v \<in> L \<and> inv_req_id v = r \<and> service_of conns c sv \<and>
        split_once (inv_method v) (CHR ''.'') = Some (cs_service spec, cs_method spec) \<and>
        cs_payload spec = inv_payload v \<and> cs_caller spec = stamp_caller sv (inv_caller v))"

text \<open>The call was relayed to an app that replied with these bytes, or a local handler resolved it to them.\<close>

definition answered :: "conns_map \<Rightarrow> net_event set \<Rightarrow> origin \<Rightarrow> call_spec \<Rightarrow> bytes \<Rightarrow> bool" where
  "answered conns L og spec bs \<longleftrightarrow>
     (\<exists>i d q hr. Relayed i og d (invoke_of q spec) \<in> L \<and> service_of conns d (cs_service spec) \<and>
        Replied d q hr (Inr bs) \<in> L) \<or>
     (\<exists>h. LocalAnswered (cs_service spec) h (cs_method spec) (cs_payload spec) (cs_caller spec) (Inr bs) \<in> L)"

definition from_call :: "conns_map \<Rightarrow> net_event set \<Rightarrow> conn_id \<Rightarrow> u64 \<Rightarrow> bytes bus_result \<Rightarrow> bool" where
  "from_call conns L c r res \<longleftrightarrow>
     (\<forall>bs. res = Inr bs \<longrightarrow> (\<exists>spec. asked_as conns L c r spec \<and> answered conns L (FromApp c r) spec bs))"

text \<open>Frames on the way to the broker, and to an app.\<close>

fun up_ok :: "net_event set \<Rightarrow> conn_id \<Rightarrow> bus_frame \<Rightarrow> bool" where
  "up_ok L c (Invoke v) \<longleftrightarrow> (\<exists>j. Asked c j v \<in> L)"
| "up_ok L c (Response resp) \<longleftrightarrow> (\<exists>hr. Replied c (rsp_req_id resp) hr (rsp_result resp) \<in> L)"
| "up_ok L c f \<longleftrightarrow> True"

fun down_ok :: "conns_map \<Rightarrow> net_event set \<Rightarrow> conn_id \<Rightarrow> bus_frame \<Rightarrow> bool" where
  "down_ok conns L c (Invoke v) \<longleftrightarrow> (\<exists>i og. Relayed i og c v \<in> L)"
| "down_ok conns L c (Response resp) \<longleftrightarrow> from_call conns L c (rsp_req_id resp) (rsp_result resp)"
| "down_ok conns L c f \<longleftrightarrow> True"

subsection \<open>The broker's state\<close>

fun wait_traced :: "conns_map \<Rightarrow> net_event set \<Rightarrow> origin \<Rightarrow> call_spec \<Rightarrow> call_wait \<Rightarrow> bool" where
  "wait_traced conns L og spec (WaitLocal h m p cl) \<longleftrightarrow>
     m = cs_method spec \<and> p = cs_payload spec \<and> cl = cs_caller spec"
| "wait_traced conns L og spec (WaitRemote h q) \<longleftrightarrow>
     (\<exists>i. Relayed i og (sh_pending_out h) (invoke_of q spec) \<in> L) \<and>
     service_of conns (sh_pending_out h) (cs_service spec)"

fun task_traced :: "conns_map \<Rightarrow> net_event set \<Rightarrow> task \<Rightarrow> bool" where
  "task_traced conns L (ReadyInvoke c sv v) \<longleftrightarrow> (\<exists>j. Asked c j v \<in> L) \<and> service_of conns c sv"
| "task_traced conns L (Awaiting og spec w) \<longleftrightarrow>
     (\<forall>c r. og = FromApp c r \<longrightarrow> asked_as conns L c r spec) \<and> wait_traced conns L og spec w"
| "task_traced conns L t \<longleftrightarrow> True"

text \<open>The request ids of a connection name one relayed call each.\<close>

definition relayed_ok :: "(conn_id \<Rightarrow> u64) \<Rightarrow> net_event set \<Rightarrow> bool" where
  "relayed_ok ctr L \<longleftrightarrow>
     (\<forall>i og d v. Relayed i og d v \<in> L \<longrightarrow> unat (inv_req_id v) < unat (ctr d)) \<and>
     (\<forall>i og d v j og' v'. Relayed i og d v \<in> L \<and> Relayed j og' d v' \<in> L \<and> inv_req_id v = inv_req_id v' \<longrightarrow>
        i = j \<and> og = og' \<and> v = v')"

definition bus_traced :: "net_event set \<Rightarrow> bus \<Rightarrow> bool" where
  "bus_traced L s \<longleftrightarrow>
     (\<forall>i t. bus_tasks s i = Some t \<longrightarrow> task_traced (bus_conns s) L t) \<and>
     (\<forall>i resp og spec h q. bus_oneshots s i = Some resp \<and> bus_tasks s i = Some (Awaiting og spec (WaitRemote h q)) \<longrightarrow>
        (\<exists>hr. Replied (sh_pending_out h) q hr (rsp_result resp) \<in> L)) \<and>
     (\<forall>c. \<forall>f \<in> set (cl_queue (bus_cells s c)). down_ok (bus_conns s) L c f) \<and>
     relayed_ok (next_req s) L"

section \<open>Lemmas\<close>

subsection \<open>More events\<close>

lemma asked_as_mono: "asked_as conns L c r spec \<Longrightarrow> hello_kept conns conns' \<Longrightarrow> L \<subseteq> L' \<Longrightarrow> asked_as conns' L' c r spec"
  unfolding asked_as_def using service_of_mono by blast

lemma answered_mono: "answered conns L og spec bs \<Longrightarrow> hello_kept conns conns' \<Longrightarrow> L \<subseteq> L' \<Longrightarrow> answered conns' L' og spec bs"
  unfolding answered_def using service_of_mono by blast

lemma from_call_mono: "from_call conns L c r res \<Longrightarrow> hello_kept conns conns' \<Longrightarrow> L \<subseteq> L' \<Longrightarrow> from_call conns' L' c r res"
  unfolding from_call_def using asked_as_mono answered_mono by metis

lemma from_call_Inl [simp]: "from_call conns L c r (Inl e)"
  by (simp add: from_call_def)

lemma up_ok_mono: "up_ok L c f \<Longrightarrow> L \<subseteq> L' \<Longrightarrow> up_ok L' c f"
  by (cases f) auto

lemma down_ok_mono: "down_ok conns L c f \<Longrightarrow> hello_kept conns conns' \<Longrightarrow> L \<subseteq> L' \<Longrightarrow> down_ok conns' L' c f"
  by (cases f) (auto intro: from_call_mono)

lemma wait_traced_mono:
  "wait_traced conns L og spec w \<Longrightarrow> hello_kept conns conns' \<Longrightarrow> L \<subseteq> L' \<Longrightarrow> wait_traced conns' L' og spec w"
  by (cases w) (auto intro: service_of_mono)

lemma task_traced_mono:
  "task_traced conns L t \<Longrightarrow> hello_kept conns conns' \<Longrightarrow> L \<subseteq> L' \<Longrightarrow> task_traced conns' L' t"
  by (cases t) (auto intro: service_of_mono asked_as_mono wait_traced_mono)

lemma relayed_ok_same: "relayed_ok ctr L \<Longrightarrow> (\<And>i og d v. Relayed i og d v \<in> L' \<Longrightarrow> Relayed i og d v \<in> L) \<Longrightarrow> relayed_ok ctr L'"
  unfolding relayed_ok_def by meson

lemma bus_traced_upd:
  assumes "bus_traced L s" "hello_kept (bus_conns s) (bus_conns t)" "L \<subseteq> L'" "relayed_ok (next_req t) L'"
    and "\<And>i u. bus_tasks t i = Some u \<Longrightarrow> bus_tasks s i = Some u \<or> task_traced (bus_conns t) L' u"
    and "\<And>i resp og spec h q. bus_oneshots t i = Some resp \<Longrightarrow> bus_tasks t i = Some (Awaiting og spec (WaitRemote h q)) \<Longrightarrow>
      bus_oneshots s i = Some resp \<and> bus_tasks s i = Some (Awaiting og spec (WaitRemote h q)) \<or>
      (\<exists>hr. Replied (sh_pending_out h) q hr (rsp_result resp) \<in> L')"
    and "\<And>c f. f \<in> set (cl_queue (bus_cells t c)) \<Longrightarrow> f \<in> set (cl_queue (bus_cells s c)) \<or> down_ok (bus_conns t) L' c f"
  shows "bus_traced L' t"
  unfolding bus_traced_def
proof (intro conjI allI ballI impI)
  show "task_traced (bus_conns t) L' u" if "bus_tasks t i = Some u" for i u
    using assms(1) assms(5) [OF that] task_traced_mono [OF _ assms(2,3)] unfolding bus_traced_def by blast
  show "down_ok (bus_conns t) L' c f" if "f \<in> set (cl_queue (bus_cells t c))" for c f
    using assms(1) assms(7) [OF that] down_ok_mono [OF _ assms(2,3)] unfolding bus_traced_def by blast
  show "\<exists>hr. Replied (sh_pending_out h) q hr (rsp_result resp) \<in> L'"
    if "bus_oneshots t i = Some resp \<and> bus_tasks t i = Some (Awaiting og spec (WaitRemote h q))" for i resp og spec h q
    using assms(1) assms(6) that assms(3) unfolding bus_traced_def by (meson subsetD)
qed (rule assms(4))

subsection \<open>The steps of the broker\<close>

lemma finish_task_frames:
  "f \<in> set (cl_queue (bus_cells (finish_task json i og r s) c)) \<Longrightarrow>
   f \<in> set (cl_queue (bus_cells s c)) \<or> (\<exists>q. og = FromApp c q \<and> f = Response \<lparr>rsp_req_id = q, rsp_result = r\<rparr>)"
  by (auto simp: finish_task_def Let_def chan_send_queue split: origin.splits if_splits)

lemma bus_traced_relayed: "bus_traced L s \<Longrightarrow> relayed_ok (next_req s) L"
  by (simp add: bus_traced_def)

lemma bus_traced_finish:
  assumes "bus_traced L s" "\<And>c q. og = FromApp c q \<Longrightarrow> from_call (bus_conns s) L c q r"
  shows "bus_traced L (finish_task json i og r s)"
proof (rule bus_traced_upd [OF assms(1)])
  show "relayed_ok (next_req (finish_task json i og r s)) L"
    using bus_traced_relayed [OF assms(1)] by (simp add: bus_views)
qed (use assms(2) in \<open>auto simp: bus_views split: if_splits dest!: finish_task_frames\<close>)

lemma bus_traced_cells:
  assumes "bus_traced L s" "next_req t = next_req s" "\<And>c. cl_queue (bus_cells t c) = cl_queue (bus_cells s c)"
    "bus_conns t = bus_conns s" "bus_tasks t = bus_tasks s" "bus_oneshots t = bus_oneshots s"
  shows "bus_traced L t"
  using assms by (simp add: bus_traced_def)

lemma relayed_ok_new:
  assumes "relayed_ok ctr L" "unat (ctr d) < 2 ^ 64 - 1"
  shows "relayed_ok (ctr(d := ctr d + 1)) (insert (Relayed i og d (invoke_of (ctr d) spec)) L)"
proof -
  have "unat (ctr d + 1) = Suc (unat (ctr d))" using unat_Suc_u64 [OF assms(2)] by simp
  with assms(1) show ?thesis
    unfolding relayed_ok_def by (auto simp: invoke_of_def less_Suc_eq) (metis less_irrefl)+
qed

lemma bus_traced_start_call:
  assumes "bus_traced L s" and inv: "conn_inv n s" "call_inv n s" "n < 2 ^ 64 - 2"
    and i: "bus_tasks s i = Some t" "unstarted t"
    and og: "\<And>c q. og = FromApp c q \<Longrightarrow> asked_as (bus_conns s) L c q spec"
  shows "bus_traced (L \<union> bus_events (StartTask i) s (start_call json i og spec s)) (start_call json i og spec s)"
proof (cases "call_begin (bus_broker s) i (cs_service spec) (cs_method spec) (cs_payload spec)
             (cs_caller spec) (bus_cells s)")
  case (Pair w cs)
  have fin: "bus_traced L (finish_task json i og (Inl e) (s\<lparr>bus_cells := bus_cells s\<rparr>))" for e
    using assms(1) by (intro bus_traced_finish) simp_all
  from call_begin_cases [OF inv(1) Pair] show ?thesis
  proof (elim disjE exE conjE)
    fix e assume "w = Inl e" "cs = bus_cells s"
    with Pair fin show ?thesis by (simp add: start_call_def bus_views)
  next
    fix h assume "w = Inr (WaitLocal h (cs_method spec) (cs_payload spec) (cs_caller spec))" "cs = bus_cells s"
    moreover have "bus_traced L (s\<lparr>bus_tasks := (bus_tasks s)
        (i \<mapsto> Awaiting og spec (WaitLocal h (cs_method spec) (cs_payload spec) (cs_caller spec)))\<rparr>)"
      using bus_traced_relayed [OF assms(1)] og by (intro bus_traced_upd [OF assms(1)]) (auto split: if_splits)
    ultimately show ?thesis using Pair by (simp add: start_call_def)
  next
    fix c k assume c: "routes s (cs_service spec) (cs_method spec) (cs_caller spec) c k"
      and w: "w = Inl (ServiceNotFound (cs_service spec))" "cs = reserve c i (bus_cells s)"
    have "relayed_ok (next_req (s\<lparr>bus_cells := cs\<rparr>)) L"
      using relayed_ok_new [OF bus_traced_relayed [OF assms(1)], of c i og spec] inv(2,3) w
      unfolding call_inv_def call_ok_def
      by (auto simp: reserve_views elim!: relayed_ok_same allE [of _ c])
    with assms(1) w have "bus_traced L (s\<lparr>bus_cells := cs\<rparr>)" by (auto simp: bus_traced_def)
    then have "bus_traced L (finish_task json i og (Inl (ServiceNotFound (cs_service spec))) (s\<lparr>bus_cells := cs\<rparr>))"
      by (rule bus_traced_finish) simp
    with Pair w show ?thesis by (simp add: start_call_def bus_views)
  next
    fix c k assume c: "routes s (cs_service spec) (cs_method spec) (cs_caller spec) c k"
      and w: "w = Inr (WaitRemote (handle c) (next_req s c))"
        "cs = fst (chan_send c (invoke_frame (next_req s c) (cs_method spec) (cs_payload spec) (cs_caller spec))
                (reserve c i (bus_cells s)))"
    let ?t = "s\<lparr>bus_cells := cs, bus_tasks := (bus_tasks s)(i \<mapsto> Awaiting og spec (WaitRemote (handle c) (next_req s c)))\<rparr>"
    let ?e = "Relayed i og c (invoke_of (next_req s c) spec)"
    have frame: "invoke_frame (next_req s c) (cs_method spec) (cs_payload spec) (cs_caller spec) =
        Invoke (invoke_of (next_req s c) spec)" by (simp add: invoke_frame_def invoke_of_def)
    have new: "down_ok (bus_conns s) (insert ?e L) c (Invoke (invoke_of (next_req s c) spec))"
      unfolding down_ok.simps by blast
    have shot: "bus_oneshots s i = None"
      using inv(2) i unfolding call_inv_def call_ok_def tasks_ok_def by blast
    have "bus_traced (insert ?e L) ?t"
    proof (rule bus_traced_upd [OF assms(1)])
      show "relayed_ok (next_req ?t) (insert ?e L)"
        using relayed_ok_new [OF bus_traced_relayed [OF assms(1)], of c i og spec] inv(2,3) w
        unfolding call_inv_def call_ok_def
        by (auto simp: bus_views reserve_views elim!: allE [of _ c])
      show "bus_tasks s j = Some u \<or> task_traced (bus_conns ?t) (insert ?e L) u" if "bus_tasks ?t j = Some u" for j u
        using that c og asked_as_mono [OF _ hello_kept_refl subset_insertI] w(1)
        by (auto simp: routes_def serving_def service_of_def split: if_splits)
    qed (use shot frame w new in \<open>auto simp: chan_send_queue simp del: down_ok.simps split: if_splits\<close>)
    with Pair w(1) show ?thesis by (simp add: start_call_def)
  qed
qed

lemma bus_traced_start_task:
  assumes "bus_traced L s" and inv: "conn_inv n s" "call_inv n s" "n < 2 ^ 64 - 2"
    and i: "bus_tasks s i = Some t" "unstarted t"
  shows "bus_traced (L \<union> bus_events (StartTask i) s (start_task json i t s)) (start_task json i t s)"
proof (cases t)
  case (ReadyInvoke c originator v)
  from assms(1) i(1) ReadyInvoke have v: "\<exists>j. Asked c j v \<in> L" "service_of (bus_conns s) c originator"
    unfolding bus_traced_def by force+
  show ?thesis
  proof (cases "split_once (inv_method v) (CHR ''.'')")
    case None
    with ReadyInvoke assms(1) bus_traced_finish show ?thesis by (auto simp: bus_views)
  next
    case (Some sm)
    then obtain sv m where sm: "split_once (inv_method v) (CHR ''.'') = Some (sv, m)" by (cases sm) auto
    let ?spec = "\<lparr>cs_service = sv, cs_method = m, cs_payload = inv_payload v,
      cs_caller = stamp_caller originator (inv_caller v),
      cs_timeout = bc_default_call_timeout (br_config (bus_broker s))\<rparr>"
    have "asked_as (bus_conns s) L c (inv_req_id v) ?spec" using sm v by (auto simp: asked_as_def)
    with bus_traced_start_call [OF assms, of "FromApp c (inv_req_id v)" ?spec json] sm ReadyInvoke
    show ?thesis by simp
  qed
qed (use i bus_traced_start_call [OF assms] in auto)

lemma bus_traced_resume:
  assumes "bus_traced L s" and i: "bus_tasks s i = Some (Awaiting og spec w)"
    and sub: "L \<subseteq> L'" "\<And>j og d v. Relayed j og d v \<in> L' \<Longrightarrow> Relayed j og d v \<in> L"
    and wk: "\<And>r. wk = Resolved r \<Longrightarrow>
       (case w of
          WaitLocal h m p cl \<Rightarrow> LocalAnswered (cs_service spec) h m p cl r \<in> L'
        | WaitRemote h q \<Rightarrow> \<exists>resp. bus_oneshots s i = Some resp \<and> rsp_result resp = r)"
  shows "bus_traced L' (resume_task json i og spec w wk s)"
proof -
  obtain r cs where r: "call_resume w (cs_timeout spec) wk (bus_cells s) = (r, cs)" by fastforce
  have t: "task_traced (bus_conns s) L (Awaiting og spec w)"
    using assms(1) i unfolding bus_traced_def by blast
  have ans: "answered (bus_conns s) L' og spec bs" if "r = Inr bs" for bs
  proof (cases w)
    case (WaitLocal h m p cl)
    with r that have "wk = Resolved (Inr bs)" by (cases wk) auto
    with wk WaitLocal t show ?thesis unfolding answered_def by fastforce
  next
    case (WaitRemote h q)
    with r that have "wk = Resolved (Inr bs)" by (cases wk) auto
    with wk WaitRemote obtain resp where resp: "bus_oneshots s i = Some resp" "rsp_result resp = Inr bs" by fastforce
    with assms(1) i WaitRemote obtain hr where "Replied (sh_pending_out h) q hr (Inr bs) \<in> L"
      unfolding bus_traced_def by metis
    moreover from t WaitRemote obtain j where "Relayed j og (sh_pending_out h) (invoke_of q spec) \<in> L"
      "service_of (bus_conns s) (sh_pending_out h) (cs_service spec)" by auto
    ultimately show ?thesis using sub(1) unfolding answered_def by blast
  qed
  have "from_call (bus_conns s) L' c q r" if "og = FromApp c q" for c q
  proof -
    have "asked_as (bus_conns s) L' c q spec"
      using t that asked_as_mono [OF _ hello_kept_refl sub(1)] by auto
    then show ?thesis using ans that unfolding from_call_def by blast
  qed
  moreover have "bus_traced L' (s\<lparr>bus_cells := cs\<rparr>)"
  proof (rule bus_traced_upd [OF assms(1) _ sub(1)])
    have "next_req (s\<lparr>bus_cells := cs\<rparr>) = next_req s"
      using r by (cases w; cases wk) (auto intro!: ext)
    then show "relayed_ok (next_req (s\<lparr>bus_cells := cs\<rparr>)) L'"
      using relayed_ok_same [OF bus_traced_relayed [OF assms(1)] sub(2)] by simp
    show "f \<in> set (cl_queue (bus_cells s c)) \<or> down_ok (bus_conns (s\<lparr>bus_cells := cs\<rparr>)) L' c f"
      if "f \<in> set (cl_queue (bus_cells (s\<lparr>bus_cells := cs\<rparr>) c))" for c f
      using that call_resume_queue [of w "cs_timeout spec" wk "bus_cells s" c] r by simp
  qed simp_all
  ultimately show ?thesis using r by (simp add: resume_task_def bus_traced_finish)
qed

lemma bus_traced_deliver:
  assumes "bus_traced L s" "call_inv n s" "Replied c (rsp_req_id resp) hr (rsp_result resp) \<in> L"
  shows "bus_traced L (deliver_response c resp s)"
proof (rule bus_traced_upd [OF assms(1)])
  show "relayed_ok (next_req (deliver_response c resp s)) L"
    using bus_traced_relayed [OF assms(1)] by (simp add: bus_views)
  fix i rs og spec h q
  assume shot: "bus_oneshots (deliver_response c resp s) i = Some rs"
    "bus_tasks (deliver_response c resp s) i = Some (Awaiting og spec (WaitRemote h q))"
  show "bus_oneshots s i = Some rs \<and> bus_tasks s i = Some (Awaiting og spec (WaitRemote h q)) \<or>
      (\<exists>hr. Replied (sh_pending_out h) q hr (rsp_result rs) \<in> L)"
  proof (cases "dm_get (pending s c) (rsp_req_id resp) = Some i")
    case True
    with table_entry [OF assms(2) True] shot(2) have "h = handle c" "q = rsp_req_id resp"
      by (auto simp: bus_views awaits_def)
    moreover have "rs = resp" using shot(1) True by (simp add: deliver_response_def)
    ultimately show ?thesis using assms(3) by auto
  next
    case False
    with shot show ?thesis by (auto simp: deliver_response_def split: option.splits if_splits)
  qed
qed (simp_all add: bus_views)

lemma bus_traced_spawn:
  assumes "bus_traced L s" "call_inv n s" "task_traced (bus_conns s) L t" "unstarted t"
  shows "bus_traced L (spawn_task t s)"
  using bus_traced_relayed [OF assms(1)] assms(3,4)
  by (intro bus_traced_upd [OF assms(1)]) (auto simp: bus_views split: if_splits)

lemma bus_traced_inbound:
  assumes "bus_traced L s" "call_inv n s" "bus_conns s c = Some k"
    and "\<And>f. inbound = Inr (Some f) \<Longrightarrow> up_ok L c f"
  shows "bus_traced L (session_inbound c k inbound s)"
proof -
  have ended: "bus_traced L (session_end c k s)"
    using bus_traced_relayed [OF assms(1)] assms(3)
    by (intro bus_traced_upd [OF assms(1)])
      (auto simp: session_end_def Let_def bus_views split: if_splits)
  have "bus_traced L (s\<lparr>bus_cells := fanout (bus_broker s) sv ev (bus_cells s)\<rparr>)" for sv ev
    using bus_traced_relayed [OF assms(1)]
    by (intro bus_traced_upd [OF assms(1)]) (auto simp: bus_views dest!: fanout_queue)
  moreover have "bus_traced L (s\<lparr>bus_broker := b\<rparr>)" for b
    by (rule bus_traced_cells [OF assms(1)]) simp_all
  moreover have "bus_traced L (spawn_task (ReadyInvoke c (cn_service k) v) s)" if "up_ok L c (Invoke v)" for v
    using that assms(3) by (intro bus_traced_spawn [OF assms(1,2)]) (auto simp: service_of_def)
  moreover have "bus_traced L (deliver_response c resp s)" if "up_ok L c (Response resp)" for resp
    using that bus_traced_deliver [OF assms(1,2)] by auto
  ultimately show ?thesis
    using ended assms(1,4)
    by (auto simp: session_inbound_def simp del: up_ok.simps split: sum.splits option.splits bus_frame.splits)
qed

lemma bus_traced_exec:
  assumes "bus_traced L s" "bus_inv n s" "n < 2 ^ 64 - 2" "bus_exec json a s = Some t"
    and up: "\<And>c f. a = Inbound c (Inr (Some f)) \<Longrightarrow> up_ok L c f"
  shows "bus_traced (L \<union> bus_events a s t) t"
proof -
  from assms(2) have inv: "conn_inv n s" "call_inv n s" by (simp_all add: bus_inv_def)
  note kept = bus_conns_exec [OF inv(1) assms(3,4)]
  show ?thesis
  proof (cases a)
    case (StartTask i)
    with assms(4) obtain u where "bus_tasks s i = Some u" "unstarted u" "t = start_task json i u s"
      by (auto simp del: start_task.simps split: option.splits task.splits)
    with StartTask bus_traced_start_task [OF assms(1) inv assms(3)] show ?thesis by blast
  next
    case (Inbound c inbound)
    with assms(4) obtain k where "bus_conns s c = Some k" "t = session_inbound c k inbound s"
      by (auto split: option.splits if_splits)
    with Inbound up bus_traced_inbound [OF assms(1) inv(2)] show ?thesis by auto
  next
    case (LocalResolves i r)
    with assms(4) obtain og spec h m p cl where i: "bus_tasks s i = Some (Awaiting og spec (WaitLocal h m p cl))"
      "t = resume_task json i og spec (WaitLocal h m p cl) (Resolved r) s"
      by (auto split: option.splits task.splits call_wait.splits)
    with LocalResolves bus_traced_resume [OF assms(1) i(1), of "L \<union> bus_events a s t"] show ?thesis by auto
  next
    case (TimerFires i)
    with assms(4) obtain og spec w where i: "bus_tasks s i = Some (Awaiting og spec w)"
      "t = resume_task json i og spec w Elapsed s"
      by (auto split: option.splits task.splits if_splits)
    with TimerFires bus_traced_resume [OF assms(1) i(1), of L] show ?thesis by auto
  next
    case (OneshotReady i)
    with assms(4) obtain og spec h q resp where i: "bus_tasks s i = Some (Awaiting og spec (WaitRemote h q))"
      "bus_oneshots s i = Some resp"
      "t = resume_task json i og spec (WaitRemote h q) (Resolved (rsp_result resp)) s"
      by (auto split: option.splits task.splits call_wait.splits)
    with OneshotReady bus_traced_resume [OF assms(1) i(1), of L] show ?thesis by auto
  next
    case (OneshotClosed i)
    with assms(4) obtain og spec h q where i: "bus_tasks s i = Some (Awaiting og spec (WaitRemote h q))"
      "t = resume_task json i og spec (WaitRemote h q) SenderDropped s"
      by (auto split: option.splits task.splits call_wait.splits if_splits)
    with OneshotClosed bus_traced_resume [OF assms(1) i(1), of L] show ?thesis by auto
  next
    case (HttpCall spec)
    with assms(4) bus_traced_spawn [OF assms(1) inv(2), of "ReadyHttp spec"] show ?thesis by auto
  next
    case (Accept inbound)
    with assms(4) have t: "next_req t = next_req s" "bus_tasks t = bus_tasks s" "bus_oneshots t = bus_oneshots s"
      "bus_cells t = bus_cells s"
      by (auto simp: accept_def split: prod.splits handshake.splits)
    with Accept kept bus_traced_relayed [OF assms(1)] show ?thesis
      by (intro bus_traced_upd [OF assms(1)]) simp_all
  next
    case (AckWrite c ok)
    with assms(4) kept bus_traced_relayed [OF assms(1)] show ?thesis
      by (intro bus_traced_upd [OF assms(1)])
        (auto simp: ack_written_def ack_failed_def Let_def bus_views split: option.splits if_splits)
  next
    case (WriterStep c ok)
    with assms(4) have "next_req t = next_req s" by (auto simp: bus_views fun_eq_iff split: option.splits if_splits)
    with WriterStep assms(4) kept bus_traced_relayed [OF assms(1)] show ?thesis
      by (intro bus_traced_upd [OF assms(1)])
        (auto simp: bus_views split: option.splits if_splits dest: list.set_sel(2) [rotated])
  next
    case (ShutdownService sv)
    with assms(4) kept bus_traced_relayed [OF assms(1)] show ?thesis
      by (intro bus_traced_upd [OF assms(1)]) (auto simp: bus_views dest!: shutdown_service_queue)
  qed (use assms(4) in \<open>auto intro!: bus_traced_cells [OF assms(1)]\<close>)
qed

lemma bus_traced_init: "bus_traced {} (bus_init config)"
  by (simp add: bus_traced_def bus_init_def fresh_cell_def relayed_ok_def)

end
