(* ===== verification/Client_Theorems.thy ===== *)
theory Client_Theorems
  imports Client Calls
begin

text \<open>
  The theorems on the app side: building the hello, dialling the broker, answering requests,
  correlating responses, shutting down and exiting when idle. The client's table of pending calls
  follows the same protocol as the broker's, so its invariant is the broker's \<open>call_ok\<close> with one
  connection, number 0.
\<close>

section \<open>Definitions\<close>

text \<open>A call of the client as an entry of the broker's table of calls.\<close>

definition client_spec :: call_spec where
  "client_spec =
     \<lparr>cs_service = [], cs_method = [], cs_payload = [], cs_caller = caller_ctx_default,
      cs_timeout = Duration 0\<rparr>"

fun as_task :: "app_call \<Rightarrow> task" where
  "as_task (CallWaiting r) = Awaiting FromHttp client_spec (WaitRemote (handle 0) r)"
| "as_task (CallDone res) = Done res"

definition only :: "'a \<Rightarrow> 'a \<Rightarrow> conn_id \<Rightarrow> 'a" where
  "only other x = (\<lambda>_. other)(0 := x)"

definition client_inv :: "nat \<Rightarrow> app \<Rightarrow> bool" where
  "client_inv n s \<longleftrightarrow>
     call_ok n (only [] (bk_pending (ap_client s))) (only 1 (bk_next_req_id (ap_client s))) 1
       (map_option as_task \<circ> ap_calls s) (ap_n_calls s) (ap_oneshots s)"

text \<open>An app that waits for a shutdown that has already been signalled, without an idle exit.\<close>

definition asleep :: "nat \<Rightarrow> instant \<Rightarrow> app \<Rightarrow> bool" where
  "asleep w at s \<longleftrightarrow>
     bk_shutdown_fired (ap_client s) \<and> bk_idle_exit (ap_client s) = None \<and>
     w < ap_n_runs s \<and> ap_runs s w = Some (RunWaiting at)"

text \<open>A call that waits on a connection that is gone.\<close>

definition forsaken :: "nat \<Rightarrow> u64 \<Rightarrow> app \<Rightarrow> bool" where
  "forsaken i r s \<longleftrightarrow> \<not> ap_reading s \<and> ap_calls s i = Some (CallWaiting r) \<and> ap_oneshots s i = None"

definition demo_client :: "duration option \<Rightarrow> bus_client" where
  "demo_client idle =
     \<lparr>bk_service = ''app'', bk_next_req_id = 1, bk_queue = [], bk_open = True, bk_pending = [],
      bk_handlers = [(''ping'', 0)], bk_shutdown_fired = False, bk_last_activity = 0, bk_idle_exit = idle\<rparr>"

definition pause_ms :: "nat \<Rightarrow> nat" where
  "pause_ms n = min (50 * 2 ^ n) 1000"

definition dial_stops :: "(nat \<Rightarrow> 'a bus_result) \<Rightarrow> (nat \<Rightarrow> instant) \<Rightarrow> instant \<Rightarrow> nat \<Rightarrow> bool" where
  "dial_stops attempt clock deadline n =
     (case attempt n of Inr s \<Rightarrow> True | Inl e \<Rightarrow> \<not> (transient_error e \<and> clock n < deadline))"

text \<open>Active at time \<open>T\<close>: the waiting task \<open>w\<close> goes on waiting until a shutdown or until the threshold has passed.\<close>

definition kept_awake :: "nat \<Rightarrow> duration \<Rightarrow> instant \<Rightarrow> app \<Rightarrow> bool" where
  "kept_awake w thresh T s \<longleftrightarrow>
     bk_idle_exit (ap_client s) = Some thresh \<and> T \<le> bk_last_activity (ap_client s) \<and> T \<le> ap_now s \<and>
     w < ap_n_runs s \<and>
     ((\<exists>at. ap_runs s w = Some (RunWaiting at)) \<or> bk_shutdown_fired (ap_client s) \<or> T + as_nanos thresh \<le> ap_now s)"

section \<open>Lemmas\<close>

subsection \<open>The table of pending calls\<close>

lemma only_simps [simp]: "only d x 0 = x" "(only d x)(0 := y) = only d y"
  by (simp_all add: only_def)

lemma client_inv_start: "client_inv 0 (app_start (client_new cfg hello handlers now) now)"
  by (simp add: client_inv_def app_start_def client_new_def call_ok_def table_ok_def waits_ok_def unique_ok_def
      tasks_ok_def awaits_def only_def)

lemma client_inv_frame:
  assumes "client_inv n s" "n \<le> m" "bk_pending (ap_client t) = bk_pending (ap_client s)"
    "bk_next_req_id (ap_client t) = bk_next_req_id (ap_client s)" "ap_calls t = ap_calls s"
    "ap_n_calls t = ap_n_calls s" "ap_oneshots t = ap_oneshots s"
  shows "client_inv m t"
  using call_ok_mono [OF assms(1) [unfolded client_inv_def] assms(2) order_refl] assms(3-)
  by (simp add: client_inv_def)

lemma client_send_views [simp]:
  "bk_pending (fst (client_send f k)) = bk_pending k" "bk_next_req_id (fst (client_send f k)) = bk_next_req_id k"
  "bk_handlers (fst (client_send f k)) = bk_handlers k" "bk_service (fst (client_send f k)) = bk_service k"
  "bk_shutdown_fired (fst (client_send f k)) = bk_shutdown_fired k"
  "bk_idle_exit (fst (client_send f k)) = bk_idle_exit k"
  "bk_last_activity (fst (client_send f k)) = bk_last_activity k"
  "bk_open (fst (client_send f k)) = bk_open k" "snd (client_send f k) = bk_open k"
  by (simp_all add: client_send_def)

lemma publish_snd: "snd (client_publish t p k) = fst (client_send (Publish \<lparr>ev_topic = t, ev_payload = p, ev_from = None\<rparr>) k)"
  by (auto simp: client_publish_def split: prod.splits bool.splits)

lemma subscribe_snd: "snd (client_subscribe t k) = fst (client_send (Subscribe t) k)"
  by (auto simp: client_subscribe_def split: prod.splits bool.splits)

lemmas client_ops =
  publish_snd subscribe_snd client_shutdown_def record_activity_def connection_end_def reply_to_def
  dispatch_start_def idle_poll_def Let_def

lemma client_inv_invoke:
  assumes "client_inv n s" "n < 2 ^ 64 - 2"
  shows "client_inv (Suc n) (client_invoke sv m pl cl s)"
proof -
  let ?k = "ap_client s" and ?i = "ap_n_calls s"
  let ?p = "only [] (bk_pending ?k)" and ?c = "only 1 (bk_next_req_id ?k)"
  let ?ts = "map_option as_task \<circ> ap_calls s"
  have spawned: "call_ok n ?p ?c 1 (?ts(?i \<mapsto> ReadyHttp client_spec)) (Suc ?i) (ap_oneshots s)"
    by (rule call_ok_spawn [OF assms(1) [unfolded client_inv_def]]) simp
  have res: "call_ok (Suc n) (?p(0 := dm_insert (?c 0) ?i (?p 0))) (?c(0 := ?c 0 + 1)) 1
      ((?ts(?i \<mapsto> ReadyHttp client_spec))(?i \<mapsto> as_task (CallWaiting (?c 0)))) (Suc ?i) (ap_oneshots s)"
    using call_ok_reserve [OF spawned assms(2), of ?i "ReadyHttp client_spec" 0 FromHttp client_spec] by simp
  have closed: "call_ok (Suc n) (?p(0 := dm_insert (?c 0) ?i (?p 0))) (?c(0 := ?c 0 + 1)) 1
      (?ts(?i \<mapsto> as_task (CallDone (Inl ConnectionClosed)))) (Suc ?i) (ap_oneshots s)"
    using call_ok_done [OF res, where i = ?i] by simp
  show ?thesis
    using res closed by (simp add: client_inv_def client_invoke_def Let_def client_send_def fun_upd_comp)
qed

lemma client_inv_done:
  assumes "client_inv n s" "ap_calls s i = Some c"
  shows "client_inv (Suc n) (s\<lparr>ap_calls := (ap_calls s)(i \<mapsto> CallDone res)\<rparr>)"
proof -
  let ?ts = "map_option as_task \<circ> ap_calls s"
  have i: "?ts i = Some (as_task c)" using assms(2) by simp
  have "call_ok n (only [] (bk_pending (ap_client s))) (only 1 (bk_next_req_id (ap_client s))) 1
      (?ts(i \<mapsto> Done res)) (ap_n_calls s) (ap_oneshots s)"
    by (rule call_ok_done [OF assms(1) [unfolded client_inv_def] i])
  from call_ok_mono [OF this le_SucI [OF order_refl] order_refl]
  show ?thesis by (simp add: client_inv_def fun_upd_comp)
qed

lemma client_inv_response:
  assumes "client_inv n s"
  shows "client_inv (Suc n) (client_response resp s)"
proof (cases "dm_get (bk_pending (ap_client s)) (rsp_req_id resp)")
  case None
  with client_inv_frame [OF assms, of "Suc n" s] show ?thesis by (simp add: client_response_def)
next
  case (Some i)
  then have "dm_get (only [] (bk_pending (ap_client s)) 0) (rsp_req_id resp) = Some i" by simp
  from call_ok_mono [OF call_ok_deliver [OF assms [unfolded client_inv_def] this] le_SucI [OF order_refl] order_refl]
  show ?thesis using Some by (simp add: client_response_def client_inv_def)
qed

lemma client_inv_inbound:
  assumes "client_inv n s"
  shows "client_inv (Suc n) (connection_inbound inbound s)"
proof -
  have same: "client_inv (Suc n) t" if "bk_pending (ap_client t) = bk_pending (ap_client s)"
    "bk_next_req_id (ap_client t) = bk_next_req_id (ap_client s)" "ap_calls t = ap_calls s"
    "ap_n_calls t = ap_n_calls s" "ap_oneshots t = ap_oneshots s" for t
    by (rule client_inv_frame [OF assms _ that]) simp
  have "client_inv (Suc n) (handle_inbound f s)" for f
    by (cases f) (auto simp: client_ops intro!: same client_inv_response [OF assms])
  moreover have "client_inv (Suc n) (connection_end s)"
    by (rule same) (simp_all add: client_ops)
  ultimately show ?thesis by (auto simp: connection_inbound_def split: sum.splits option.splits)
qed

lemma client_inv_exec:
  assumes "client_inv n s" "n < 2 ^ 64 - 2" "app_exec a s = Some t"
  shows "client_inv (Suc n) t"
proof (cases a)
  case (AppInvoke sv m pl cl)
  with assms client_inv_invoke show ?thesis by auto
next
  case (AppInbound inbound)
  with assms client_inv_inbound show ?thesis by (auto split: if_splits)
next
  case (AppCallReady i)
  with assms client_inv_done show ?thesis by (auto split: option.splits app_call.splits)
next
  case (AppCallClosed i)
  with assms client_inv_done show ?thesis by (auto split: option.splits app_call.splits if_splits)
qed (use assms(3) in \<open>auto simp: client_ops intro!: client_inv_frame [OF assms(1), of "Suc n"]
      split: option.splits dispatch.splits run_wait.splits if_splits\<close>)

interpretation app: guarded_system app_exec client_inv "2 ^ 64 - 2" "app_start (client_new cfg hello handlers now) now"
  for cfg hello handlers now
  by unfold_locales (rule client_inv_exec, assumption+, rule client_inv_start)

subsection \<open>Dialling\<close>

lemma next_pause: "next_backoff (pause_ms n) = pause_ms (Suc n)"
  by (auto simp: next_backoff_def pause_ms_def min_def)

interpretation dial: retry_loop
  "\<lambda>fuel n. dial_loop attempt clock deadline fuel n (pause_ms n) (map pause_ms [0..<n])"
  "dial_stops attempt clock deadline" "\<lambda>n. (attempt n, map pause_ms [0..<n])" for attempt clock deadline
  by unfold_locales (auto simp: dial_stops_def next_pause split: sum.splits)

lemma pauses_cover: "30000 \<le> (\<Sum>i<34. pause_ms i)"
  by (simp add: pause_ms_def lessThan_nat_numeral lessThan_Suc)

subsection \<open>Waiting for ever\<close>

lemma client_call_in_table:
  assumes "client_inv n s" "ap_calls s i = Some (CallWaiting r)" "ap_oneshots s i = None"
  shows "dm_get (bk_pending (ap_client s)) r = Some i"
proof -
  have "awaits (map_option as_task \<circ> ap_calls s) i (handle 0) r" using assms(2) by (simp add: awaits_def)
  with assms(1,3) show ?thesis
    unfolding client_inv_def call_ok_def waits_ok_def by fastforce
qed

lemma client_closed_disabled:
  assumes "client_inv n s"
  shows "app_exec (AppCallClosed i) s = None"
proof -
  have "i \<in> snd ` set (bk_pending (ap_client s))"
    if "ap_calls s i = Some (CallWaiting r)" "ap_oneshots s i = None" for r
    using dm_get_in_set [OF client_call_in_table [OF assms that]] by force
  then show ?thesis by (auto split: option.splits app_call.splits)
qed

lemma forsaken_exec:
  assumes "client_inv n s \<and> forsaken i r s" "n < 2 ^ 64 - 2" "app_exec a s = Some t"
  shows "client_inv (Suc n) t \<and> forsaken i r t"
proof -
  from assms(1) have s: "client_inv n s" "forsaken i r s" by simp_all
  have i: "ap_n_calls s \<noteq> i"
    using s by (auto simp: forsaken_def client_inv_def call_ok_def tasks_ok_def)
  have "a \<noteq> AppCallClosed i"
    using client_closed_disabled [OF s(1), of i] assms(3) by auto
  with s(2) assms(3) i have "forsaken i r t"
    by (cases a)
      (auto simp: forsaken_def client_ops client_invoke_def client_send_def
        split: option.splits app_call.splits dispatch.splits run_wait.splits if_splits)
  with client_inv_exec [OF s(1) assms(2,3)] show ?thesis by simp
qed

interpretation forsaken: step_system app_exec "\<lambda>n s. client_inv n s \<and> forsaken i r s" "2 ^ 64 - 2" for i r
  by unfold_locales (rule forsaken_exec)

lemma asleep_inbound: "asleep w at s \<Longrightarrow> asleep w at (handle_inbound f s)"
  by (cases f) (auto simp: asleep_def client_ops client_response_def split: option.splits)

lemma asleep_exec: "asleep w at s \<Longrightarrow> app_exec a s = Some t \<Longrightarrow> asleep w at t"
proof (cases a)
  case (AppInbound inbound)
  assume "asleep w at s" "app_exec a s = Some t"
  moreover from this have "asleep w at (connection_end s)" by (simp add: asleep_def client_ops)
  ultimately show ?thesis
    using AppInbound asleep_inbound by (auto simp: connection_inbound_def split: if_splits sum.splits option.splits)
qed (auto simp: asleep_def client_ops client_invoke_def client_send_def first_poll_def
      split: option.splits app_call.splits dispatch.splits run_wait.splits if_splits)

interpretation asleep: step_system app_exec "\<lambda>n s. asleep w at s" "2 ^ 64" for w at
  by unfold_locales (rule asleep_exec)

lemma kept_awake_shutdown: "kept_awake w thresh T s \<Longrightarrow> kept_awake w thresh T (client_shutdown s)"
  by (auto simp: kept_awake_def client_shutdown_def)

lemma kept_awake_inbound: "kept_awake w thresh T s \<Longrightarrow> kept_awake w thresh T (handle_inbound f s)"
proof (cases f)
  case Shutdown
  then show "kept_awake w thresh T s \<Longrightarrow> ?thesis" by (simp add: kept_awake_shutdown)
qed (auto simp: kept_awake_def record_activity_def Let_def client_response_def split: option.splits)

lemma kept_awake_poll:
  assumes "kept_awake w thresh T s" "ap_runs s v = Some (RunWaiting at)"
  shows "kept_awake w thresh T (idle_poll v s)"
  using assms by (cases "v = w") (auto simp: kept_awake_def idle_poll_def)

lemma kept_awake_exec: "kept_awake w thresh T s \<Longrightarrow> app_exec a s = Some t \<Longrightarrow> kept_awake w thresh T t"
proof (cases a)
  case (AppInbound inbound)
  assume s: "kept_awake w thresh T s" "app_exec a s = Some t"
  from kept_awake_shutdown [OF s(1)] have "kept_awake w thresh T (connection_end s)"
    by (simp add: kept_awake_def connection_end_def Let_def)
  with s AppInbound kept_awake_inbound show ?thesis
    by (auto simp: connection_inbound_def split: if_splits sum.splits option.splits)
next
  case (IdlePoll v)
  assume "kept_awake w thresh T s" "app_exec a s = Some t"
  with IdlePoll kept_awake_poll show ?thesis by (auto split: option.splits run_wait.splits if_splits)
next
  case AppShutdown
  assume "kept_awake w thresh T s" "app_exec a s = Some t"
  with AppShutdown kept_awake_shutdown show ?thesis by auto
next
  case (DispatchStart d)
  assume "kept_awake w thresh T s" "app_exec a s = Some t"
  with DispatchStart show ?thesis
    by (auto simp: kept_awake_def dispatch_start_def reply_to_def split: option.splits dispatch.splits)
qed (auto simp: kept_awake_def publish_snd subscribe_snd client_invoke_def client_send_def Let_def reply_to_def
      split: option.splits app_call.splits dispatch.splits run_wait.splits if_splits)

interpretation awake: step_system app_exec "\<lambda>n s. kept_awake w thresh T s" "2 ^ 64" for w thresh T
  by unfold_locales (rule kept_awake_exec)

section \<open>Theorems\<close>

subsection \<open>Building and dialling\<close>

text \<open>
  An app that connects declares every method it handles: building the hello succeeds only with
  a service name and with every handler's method among the declared ones, and then the hello carries
  the configured token and exactly the declared methods; it fails only if one of these is missing.
\<close>

theorem build_hello_declares_handlers:
  "(case build_hello pid b of
      Inl e \<Rightarrow>
        \<not> (cb_service b \<noteq> None \<and> set (dm_keys (cb_handlers b)) \<subseteq> md_name ` set (cb_methods b))
    | Inr hello \<Rightarrow>
        cb_service b = Some (hr_service hello, hr_version hello) \<and> hr_methods hello = cb_methods b \<and>
        hr_auth_token hello = cfg_auth_token (cb_cfg b) \<and> hr_protocol hello = PROTOCOL_CURRENT \<and>
        set (dm_keys (cb_handlers b)) \<subseteq> md_name ` set (hr_methods hello))"
proof (cases "cb_service b")
  case None
  then show ?thesis by (simp add: build_hello_def)
next
  case (Some sv)
  obtain name version where sv: "sv = (name, version)" by fastforce
  show ?thesis
  proof (cases "undeclared_handler b")
    case None
    then have "set (dm_keys (cb_handlers b)) \<subseteq> md_name ` set (cb_methods b)"
      by (auto simp: undeclared_handler_def find_None_iff)
    with None Some sv show ?thesis by (simp add: build_hello_def)
  next
    case (Some n)
    then have "n \<in> set (dm_keys (cb_handlers b))" "n \<notin> md_name ` set (cb_methods b)"
      by (auto simp: undeclared_handler_def find_Some_iff in_set_conv_nth)
    then have "\<not> set (dm_keys (cb_handlers b)) \<subseteq> md_name ` set (cb_methods b)" by blast
    with Some \<open>cb_service b = Some sv\<close> sv show ?thesis by (simp add: build_hello_def)
  qed
qed

text \<open>
  C33. Dialling the broker ends: with the 30 seconds of a configuration from the environment, and
  pauses that last as long as asked for, at most 35 attempts are made. The pauses double from 50
  milliseconds up to one second. The result is that of the attempt after the last pause: all
  earlier ones failed with a transient error, and it succeeded, or failed with another error, or
  failed after the deadline.
\<close>

theorem dial_returns:
  assumes "cfg_reconnect_max_backoff cfg = Some (duration_from_secs 30)"
    and "\<forall>n. clock n + min (50 * 2 ^ n) 1000 * 1000000 \<le> clock (Suc n)" "now \<le> clock 0"
  shows "\<exists>j \<le> 34. dial cfg now attempt clock 35 = Some (attempt j, map (\<lambda>i. min (50 * 2 ^ i) 1000) [0..<j]) \<and>
    (\<forall>i < j. \<exists>msg. attempt i = Inl (Io msg) \<and> is_transient_connect_msg msg) \<and>
    (\<forall>e. attempt j = Inl e \<longrightarrow> \<not> transient_error e \<or> now + 30 * 10 ^ 9 \<le> clock j)"
proof -
  let ?d = "now + as_nanos (duration_from_secs 30)"
  have "clock 0 + (\<Sum>i<34. pause_ms i * 1000000) \<le> clock 34"
    using assms(2) by (intro clock_after) (simp add: pause_ms_def)
  moreover have "(\<Sum>i<34. pause_ms i * 1000000) = (\<Sum>i<34. pause_ms i) * 1000000"
    by (simp only: sum_distrib_right)
  ultimately have "?d \<le> clock 34"
    using pauses_cover assms(3) by (simp add: duration_from_secs_def)
  then have "dial_stops attempt clock ?d 34" by (auto simp: dial_stops_def split: sum.splits)
  from dial.loop_returns [OF this, of 0 35] obtain j where j: "j \<le> 34" "dial_stops attempt clock ?d j"
    "\<forall>i < j. \<not> dial_stops attempt clock ?d i"
    "dial_loop attempt clock ?d 35 0 (pause_ms 0) [] = Some (attempt j, map pause_ms [0..<j])" by auto
  have "\<exists>msg. attempt i = Inl (Io msg) \<and> is_transient_connect_msg msg" if "i < j" for i
    using j(3) [rule_format, OF that]
    by (cases "attempt i") (auto simp: dial_stops_def transient_error_def split: bus_error.splits)
  moreover have "\<not> transient_error e \<or> now + 30 * 10 ^ 9 \<le> clock j" if "attempt j = Inl e" for e
    using j(2) that by (auto simp: dial_stops_def duration_from_secs_def)
  moreover have "pause_ms 0 = 50" "map (\<lambda>i. min (50 * 2 ^ i) 1000) [0..<j] = map pause_ms [0..<j]"
    by (simp_all add: pause_ms_def)
  ultimately show ?thesis
    using j(1,4) assms(1) by (intro exI [of _ j]) (simp add: dial_def)
qed

theorem dial_returns_witness:
  "\<exists>j \<le> 34. dial ((config_unix ''bus'' ''t'')\<lparr>cfg_reconnect_max_backoff := Some (duration_from_secs 30)\<rparr>) 0
       (\<lambda>n. Inl (Io ''Connection refused'') :: unit bus_result) (\<lambda>n. n * 1000000000) 35 =
     Some (Inl (Io ''Connection refused''), map (\<lambda>i. min (50 * 2 ^ i) 1000) [0..<j])"
proof -
  let ?cfg = "(config_unix ''bus'' ''t'')\<lparr>cfg_reconnect_max_backoff := Some (duration_from_secs 30)\<rparr>"
  have "\<forall>n. n * 1000000000 + min (50 * 2 ^ n) 1000 * 1000000 \<le> Suc n * (1000000000::nat)"
  proof
    fix n :: nat
    have "min (50 * 2 ^ n) 1000 \<le> (1000::nat)" by simp
    then show "n * 1000000000 + min (50 * 2 ^ n) 1000 * 1000000 \<le> Suc n * (1000000000::nat)" by simp
  qed
  from dial_returns [OF _ this, of ?cfg 0 "\<lambda>n. Inl (Io ''Connection refused'') :: unit bus_result"]
  show ?thesis by auto
qed

subsection \<open>Requests and responses\<close>

text \<open>
  C30. Every request is answered once, under its own id: a queued request for a method without a
  handler is answered at once with \<open>MethodNotFound\<close>; one for a method with a handler runs it on the
  payload and caller of the request, and whatever the handler returns is the answer. Calls the
  handler makes with \<open>auto_caller\<close> carry the user of the request.
\<close>

theorem dispatch_answers:
  assumes "ap_dispatches s d = Some (Queued v)" "bk_open (ap_client s)"
  shows "\<exists>t. app_exec (DispatchStart d) s = Some t \<and>
    (case dm_get (bk_handlers (ap_client s)) (inv_method v) of
       None \<Rightarrow>
         ap_dispatches t d = Some Answered \<and>
         bk_queue (ap_client t) = bk_queue (ap_client s) @
           [Response \<lparr>rsp_req_id = inv_req_id v,
                      rsp_result = Inl (MethodNotFound (bk_service (ap_client s)) (inv_method v))\<rparr>]
     | Some h \<Rightarrow>
         (\<exists>ctx. ap_dispatches t d =
              Some (Running h \<lparr>ir_payload = inv_payload v, ir_caller = inv_caller v\<rparr> (inv_req_id v) ctx) \<and>
            cc_user_id (auto_caller ctx uuid app_id) = cc_user_id (inv_caller v)) \<and>
         (\<exists>u. app_exec (HandlerReturns d res) t = Some u \<and> ap_dispatches u d = Some Answered \<and>
            bk_queue (ap_client u) = bk_queue (ap_client s) @
              [Response \<lparr>rsp_req_id = inv_req_id v, rsp_result = res\<rparr>]))"
  using assms
  by (auto simp: dispatch_start_def reply_to_def client_send_def scope_user_id_def auto_caller_def
      current_user_id_def split: option.splits)

theorem dispatch_answers_witness:
  "\<exists>s t. app_exec (AppInbound (Inr (Some (Invoke \<lparr>inv_req_id = 4, inv_method = ''nope'', inv_payload = [],
        inv_caller = caller_ctx_default\<rparr>)))) (app_start (demo_client None) 0) = Some s \<and>
     app_exec (DispatchStart 0) s = Some t \<and>
     bk_queue (ap_client t) = [Response \<lparr>rsp_req_id = 4, rsp_result = Inl (MethodNotFound ''app'' ''nope'')\<rparr>]"
proof -
  let ?v = "\<lparr>inv_req_id = 4, inv_method = ''nope'', inv_payload = [], inv_caller = caller_ctx_default\<rparr> :: invoke"
  let ?s = "handle_inbound (Invoke ?v) (app_start (demo_client None) 0)"
  have "ap_dispatches ?s 0 = Some (Queued ?v)" "bk_open (ap_client ?s)"
    "dm_get (bk_handlers (ap_client ?s)) ''nope'' = None" "bk_queue (ap_client ?s) = []"
    "bk_service (ap_client ?s) = ''app''"
    by (simp_all add: app_start_def demo_client_def record_activity_def dm_get_def)
  with dispatch_answers [of ?s 0 ?v] show ?thesis
    by (auto simp: connection_inbound_def app_start_def)
qed

text \<open>
  A response reaches the call of the client that it answers: in every reachable state, the
  arrival of a response completes a waiting call exactly if the call waits under the id of the
  response, and no two waiting calls wait under the same id.
\<close>

theorem client_response_correlation:
  assumes "run_actions app_exec as (app_start (client_new cfg hello handlers now) now) = Some s"
    and "length as \<le> 2 ^ 64 - 2"
    and "app_exec (AppInbound (Inr (Some (Response resp)))) s = Some t"
    and "ap_calls s i = Some (CallWaiting r)" "ap_oneshots s i = None"
  shows "ap_oneshots t i = (if r = rsp_req_id resp then Some resp else None) \<and>
    (\<forall>j. ap_calls s j = Some (CallWaiting r) \<longrightarrow> j = i)"
proof -
  have inv: "client_inv (length as) s" using assms(1,2) by (intro app.inv_run) simp_all
  have mine: "dm_get (bk_pending (ap_client s)) r = Some i"
    by (rule client_call_in_table [OF inv assms(4,5)])
  have other: "r = rsp_req_id resp" if "dm_get (bk_pending (ap_client s)) (rsp_req_id resp) = Some i"
  proof -
    have "dm_get (only [] (bk_pending (ap_client s)) 0) (rsp_req_id resp) = Some i" using that by simp
    with inv have "awaits (map_option as_task \<circ> ap_calls s) i (handle 0) (rsp_req_id resp) \<or>
        (\<exists>res. (map_option as_task \<circ> ap_calls s) i = Some (Done res))"
      unfolding client_inv_def call_ok_def table_ok_def by blast
    with assms(4) show ?thesis by (auto simp: awaits_def)
  qed
  have "awaits (map_option as_task \<circ> ap_calls s) j (handle 0) r" if "ap_calls s j = Some (CallWaiting r)" for j
    using that by (simp add: awaits_def)
  moreover have "unique_ok (map_option as_task \<circ> ap_calls s)"
    using inv by (simp add: client_inv_def call_ok_def)
  ultimately have "\<forall>j. ap_calls s j = Some (CallWaiting r) \<longrightarrow> j = i"
    using assms(4) unfolding unique_ok_def by blast
  moreover from assms(3) have "t = client_response resp s"
    by (auto simp: connection_inbound_def split: if_splits)
  moreover have "ap_oneshots (client_response resp s) i = (if r = rsp_req_id resp then Some resp else None)"
  proof (cases "dm_get (bk_pending (ap_client s)) (rsp_req_id resp)")
    case None
    with mine assms(5) show ?thesis by (auto simp: client_response_def)
  next
    case (Some j)
    with mine other assms(5) show ?thesis by (cases "j = i") (auto simp: client_response_def)
  qed
  ultimately show ?thesis by simp
qed

theorem client_response_correlation_witness:
  "let s0 = app_start (client_new (config_unix ''bus'' ''t'') \<lparr>hr_protocol = PROTOCOL_CURRENT, hr_service = ''app'',
         hr_version = [], hr_pid = 1, hr_auth_token = ''t'', hr_methods = [], hr_events = [],
         hr_data_plane = None\<rparr> [] 0) 0;
       s = client_invoke ''echo'' ''ping'' [] caller_ctx_default s0
   in \<exists>t. app_exec (AppInbound (Inr (Some (Response \<lparr>rsp_req_id = 1, rsp_result = Inr [8]\<rparr>)))) s = Some t \<and>
        ap_oneshots t 0 = Some \<lparr>rsp_req_id = 1, rsp_result = Inr [8]\<rparr>"
proof -
  let ?h = "\<lparr>hr_protocol = PROTOCOL_CURRENT, hr_service = ''app'', hr_version = [], hr_pid = 1, hr_auth_token = ''t'',
    hr_methods = [], hr_events = [], hr_data_plane = None\<rparr> :: hello_request"
  let ?init = "app_start (client_new (config_unix ''bus'' ''t'') ?h [] 0) 0"
  let ?s = "client_invoke ''echo'' ''ping'' [] caller_ctx_default ?init"
  let ?r = "\<lparr>rsp_req_id = 1, rsp_result = Inr [8]\<rparr> :: response"
  have run: "run_actions app_exec [AppInvoke ''echo'' ''ping'' [] caller_ctx_default] ?init = Some ?s" by simp
  have s: "ap_calls ?s 0 = Some (CallWaiting 1)" "ap_oneshots ?s 0 = None" "ap_reading ?s"
    by (simp_all add: client_invoke_def client_send_def app_start_def client_new_def Let_def)
  then have "app_exec (AppInbound (Inr (Some (Response ?r)))) ?s = Some (client_response ?r ?s)"
    by (simp add: connection_inbound_def)
  from client_response_correlation [OF run _ this s(1,2)] this show ?thesis by (simp add: Let_def)
qed

subsection \<open>Shutdown, lost connections and idling\<close>

text \<open>
  C31. A call of the client that loses its connection hangs for ever: once the reader has ended, a
  call that waits for its response waits after every continuation of the run; the
  \<open>ConnectionClosed\<close> branch of \<open>invoke\<close> is never taken, because the table that holds the call's
  sender lives as long as the client.
\<close>

theorem client_call_hangs:
  assumes "run_actions app_exec as (app_start (client_new cfg hello handlers now) now) = Some s"
    and "\<not> ap_reading s" "ap_calls s i = Some (CallWaiting r)" "ap_oneshots s i = None"
    and "run_actions app_exec rest s = Some t" "length as + length rest \<le> 2 ^ 64 - 2"
  shows "ap_calls t i = Some (CallWaiting r)"
proof -
  have "client_inv (length as) s" using assms(1,6) by (intro app.inv_run) simp_all
  with assms(2-4) have "client_inv (length as) s \<and> forsaken i r s" by (simp add: forsaken_def)
  from forsaken.inv_from [OF this assms(6,5)] show ?thesis by (simp add: forsaken_def)
qed

theorem client_call_hangs_witness:
  "let s0 = app_start (client_new (config_unix ''bus'' ''t'') \<lparr>hr_protocol = PROTOCOL_CURRENT, hr_service = ''app'',
         hr_version = [], hr_pid = 1, hr_auth_token = ''t'', hr_methods = [], hr_events = [],
         hr_data_plane = None\<rparr> [] 0) 0;
       s = connection_end (client_invoke ''echo'' ''ping'' [] caller_ctx_default s0)
   in \<exists>t. run_actions app_exec [AppShutdown, Tick 5] s = Some t \<and> ap_calls t 0 = Some (CallWaiting 1)"
proof -
  let ?h = "\<lparr>hr_protocol = PROTOCOL_CURRENT, hr_service = ''app'', hr_version = [], hr_pid = 1, hr_auth_token = ''t'',
    hr_methods = [], hr_events = [], hr_data_plane = None\<rparr> :: hello_request"
  let ?init = "app_start (client_new (config_unix ''bus'' ''t'') ?h [] 0) 0"
  let ?called = "client_invoke ''echo'' ''ping'' [] caller_ctx_default ?init"
  let ?s = "connection_end ?called"
  have "ap_reading ?called" by (simp add: client_invoke_def client_send_def app_start_def client_new_def Let_def)
  then have run: "run_actions app_exec [AppInvoke ''echo'' ''ping'' [] caller_ctx_default, AppInbound (Inr None)] ?init
      = Some ?s" by (simp add: connection_inbound_def)
  have s: "\<not> ap_reading ?s" "ap_calls ?s 0 = Some (CallWaiting 1)" "ap_oneshots ?s 0 = None"
    by (simp_all add: connection_end_def client_shutdown_def client_invoke_def client_send_def app_start_def
        client_new_def Let_def)
  from client_call_hangs [OF run s, of "[AppShutdown, Tick 5]"] show ?thesis by (simp add: Let_def)
qed

text \<open>
  C32. A shutdown that comes before the app waits for it is lost: once \<open>shutdown\<close> has fired (the
  broker asked for it, or the connection died), a task that enters \<open>run_until_shutdown\<close> without an
  idle threshold never returns from it.
\<close>

theorem early_shutdown_lost:
  assumes "bk_shutdown_fired (ap_client s)" "bk_idle_exit (ap_client s) = None"
    and "app_exec RunStart s = Some t" "run_actions app_exec rest t = Some u" "length rest \<le> 2 ^ 64"
  shows "\<exists>at. ap_runs u (ap_n_runs s) = Some (RunWaiting at)"
proof -
  have "asleep (ap_n_runs s) (first_poll s) t" using assms(1-3) by (auto simp: asleep_def)
  from asleep.inv_from [OF this _ assms(4), of 0] assms(5) show ?thesis by (auto simp: asleep_def)
qed

theorem early_shutdown_lost_witness:
  "let s = client_shutdown (app_start (demo_client None) 0)
   in \<exists>t u at. app_exec RunStart s = Some t \<and>
        run_actions app_exec [AppShutdown, AppInbound (Inr (Some Shutdown)), AppInbound (Inr None), Tick 100] t = Some u \<and>
        ap_runs u 0 = Some (RunWaiting at)"
proof -
  let ?s = "client_shutdown (app_start (demo_client None) 0)"
  have s: "bk_shutdown_fired (ap_client ?s)" "bk_idle_exit (ap_client ?s) = None" "ap_n_runs ?s = 0" "ap_reading ?s"
    by (simp_all add: client_shutdown_def app_start_def demo_client_def)
  then obtain t where t: "app_exec RunStart ?s = Some t" "ap_reading t" "bk_shutdown_fired (ap_client t)" by simp
  then have "\<exists>u. run_actions app_exec [AppShutdown, AppInbound (Inr (Some Shutdown)), AppInbound (Inr None), Tick 100] t
      = Some u"
    by (simp add: client_shutdown_def connection_inbound_def)
  then obtain u where u: "run_actions app_exec
    [AppShutdown, AppInbound (Inr (Some Shutdown)), AppInbound (Inr None), Tick 100] t = Some u" by blast
  from early_shutdown_lost [OF s(1,2) t(1) u] obtain at where "ap_runs u 0 = Some (RunWaiting at)"
    using s(3) by auto
  with t(1) u show ?thesis unfolding Let_def by blast
qed

text \<open>
  A busy app does not exit as idle: after a request has arrived, a task waiting in
  \<open>run_until_shutdown\<close> goes on waiting, unless a shutdown fires, until the idle threshold has
  passed since that request.
\<close>

theorem busy_app_stays:
  assumes "bk_idle_exit (ap_client s) = Some thresh" "w < ap_n_runs s" "ap_runs s w = Some (RunWaiting at)"
    and "app_exec (AppInbound (Inr (Some (Invoke v)))) s = Some t"
    and "run_actions app_exec rest t = Some u" "length rest \<le> 2 ^ 64"
    and "\<not> bk_shutdown_fired (ap_client u)" "ap_now u < ap_now s + as_nanos thresh"
  shows "\<exists>at'. ap_runs u w = Some (RunWaiting at')"
proof -
  have "kept_awake w thresh (ap_now s) t"
    using assms(1-4) by (auto simp: kept_awake_def connection_inbound_def record_activity_def Let_def split: if_splits)
  from awake.inv_from [OF this _ assms(5), of 0] assms(6-8) show ?thesis by (auto simp: kept_awake_def)
qed

theorem busy_app_stays_witness:
  "let v = \<lparr>inv_req_id = 4, inv_method = ''ping'', inv_payload = [], inv_caller = caller_ctx_default\<rparr>
   in \<exists>s t u at. app_exec RunStart (app_start (demo_client (Some (Duration 100))) 0) = Some s \<and>
        app_exec (AppInbound (Inr (Some (Invoke v)))) s = Some t \<and>
        run_actions app_exec [Tick 50, IdlePoll 0] t = Some u \<and> ap_runs u 0 = Some (RunWaiting at)"
proof -
  let ?v = "\<lparr>inv_req_id = 4, inv_method = ''ping'', inv_payload = [], inv_caller = caller_ctx_default\<rparr> :: invoke"
  let ?init = "app_start (demo_client (Some (Duration 100))) 0"
  obtain s where s: "app_exec RunStart ?init = Some s" by simp
  then have run: "bk_idle_exit (ap_client s) = Some (Duration 100)" "0 < ap_n_runs s"
    "ap_runs s 0 = Some (RunWaiting 25)" "ap_now s = 0" "ap_reading s" "bk_last_activity (ap_client s) = 0"
    "\<not> bk_shutdown_fired (ap_client s)"
    by (auto simp: app_start_def demo_client_def first_poll_def duration_div_def)
  let ?t = "handle_inbound (Invoke ?v) s"
  have t: "app_exec (AppInbound (Inr (Some (Invoke ?v)))) s = Some ?t"
    using run(5) by (simp add: connection_inbound_def)
  have "\<exists>u. run_actions app_exec [Tick 50, IdlePoll 0] ?t = Some u \<and> \<not> bk_shutdown_fired (ap_client u) \<and> ap_now u = 50"
    using run by (simp add: record_activity_def Let_def idle_poll_def)
  then obtain u where u: "run_actions app_exec [Tick 50, IdlePoll 0] ?t = Some u"
    "\<not> bk_shutdown_fired (ap_client u)" "ap_now u = 50" by blast
  obtain at where "ap_runs u 0 = Some (RunWaiting at)"
    using busy_app_stays [OF run(1-3) t u(1) _ u(2)] run(4) u(3) by auto
  with s t u(1) show ?thesis unfolding Let_def by blast
qed

end
