(* ===== verification/Bus_Theorems.thy ===== *)
theory Bus_Theorems
  imports Delivery
begin

text \<open>
  The theorems on the broker and its sessions, over every run of the bus. Each follows from the
  invariant \<open>bus_inv\<close>, which \<open>Delivery\<close> establishes for every run of at most \<open>2 ^ 64 - 2\<close> actions
  (the range in which neither the generation counter nor a request counter wraps). The run
  \<open>demo_actions\<close> reaches the state \<open>demo_state\<close>, in which the theorems are applied: services
  \<open>echo\<close> and \<open>app\<close> are connected, \<open>app\<close> has subscribed to \<open>user\<close>, and call 2 awaits a response
  of \<open>echo\<close>.
\<close>

section \<open>Definitions\<close>

subsection \<open>A run\<close>

definition demo_method :: "string \<Rightarrow> bool \<Rightarrow> method_decl" where
  "demo_method name auth =
     \<lparr>md_name = name, md_requires_auth = auth, md_streaming = False, md_http_method = Post,
      md_path = None, md_description = None\<rparr>"

definition demo_hello :: "string \<Rightarrow> u64 \<Rightarrow> hello_request" where
  "demo_hello service ctr =
     \<lparr>hr_protocol = PROTOCOL_CURRENT, hr_service = service, hr_version = ''1'', hr_pid = 7,
      hr_auth_token = random_token 5 7 ctr, hr_methods = [demo_method ''ping'' False, demo_method ''save'' True],
      hr_events = [], hr_data_plane = None\<rparr>"

definition demo_caller :: caller_ctx where
  "demo_caller = caller_ctx_default\<lparr>cc_user_id := Some ''u''\<rparr>"

definition demo_spec :: "nat \<Rightarrow> call_spec" where
  "demo_spec ms =
     \<lparr>cs_service = ''echo'', cs_method = ''save'', cs_payload = [1], cs_caller = demo_caller,
      cs_timeout = duration_from_millis ms\<rparr>"

definition demo_connects :: "bus_action list" where
  "demo_connects =
     [IssueToken ''echo'' 5 7, Accept (Inr (Some (Hello (demo_hello ''echo'' 0)))), AckWrite 0 True,
      IssueToken ''app'' 5 7, Accept (Inr (Some (Hello (demo_hello ''app'' 1)))), AckWrite 1 True,
      Inbound 1 (Inr (Some (Subscribe ''user'')))]"

definition demo_actions :: "nat \<Rightarrow> bus_action list" where
  "demo_actions ms = demo_connects @ [HttpCall (demo_spec ms), StartTask 2]"

definition demo_json :: "bytes \<Rightarrow> capability_response option" where
  "demo_json bs = None"

definition demo_conn :: "string \<Rightarrow> u64 \<Rightarrow> u64 \<Rightarrow> conn" where
  "demo_conn service ctr g =
     \<lparr>cn_hello = demo_hello service ctr, cn_client_id = g, cn_generation = g, cn_phase = Serving\<rparr>"

definition demo_state :: "nat \<Rightarrow> bus" where
  "demo_state ms =
     \<lparr>bus_broker = (broker_new broker_config_default)
        \<lparr>br_registry := \<lparr>reg_entries = [(''echo'', entry_of 0 (demo_conn ''echo'' 0 1)),
                                        (''app'', entry_of 1 (demo_conn ''app'' 1 2))],
                        reg_next_gen = 2\<rparr>,
         br_next_client_id := 3,
         br_sessions := [((''echo'', 1), handle 0), ((''app'', 2), handle 1)],
         br_subscriptions := [(''app'', {''user''})]\<rparr>,
      bus_cells = (\<lambda>_. fresh_cell)
        (0 := \<lparr>cl_queue = [invoke_frame 1 ''save'' [1] demo_caller], cl_open = True,
               cl_pending = [(1, 2)], cl_next_req = 2\<rparr>),
      bus_conns = [0 \<mapsto> demo_conn ''echo'' 0 1, 1 \<mapsto> demo_conn ''app'' 1 2],
      bus_n_conns = 2,
      bus_tasks = [0 \<mapsto> ReadyProbe ''echo'' 1, 1 \<mapsto> ReadyProbe ''app'' 2,
                   2 \<mapsto> Awaiting FromHttp (demo_spec ms) (WaitRemote (handle 0) 1)],
      bus_n_tasks = 3, bus_oneshots = (\<lambda>_. None), bus_token_counter = 2\<rparr>"

subsection \<open>Specifications\<close>

text \<open>A call without a timeout whose connection has ended and whose response has not come.\<close>

definition stranded :: "call_id \<Rightarrow> origin \<Rightarrow> call_spec \<Rightarrow> conn_id \<Rightarrow> u64 \<Rightarrow> bus \<Rightarrow> bool" where
  "stranded i og spec c r s \<longleftrightarrow>
     duration_is_zero (cs_timeout spec) \<and>
     bus_tasks s i = Some (Awaiting og spec (WaitRemote (handle c) r)) \<and> bus_oneshots s i = None \<and>
     (\<exists>k. bus_conns s c = Some k \<and> cn_phase k = Ended)"

section \<open>Lemmas\<close>

lemmas demo_eval =
  bus_init_def broker_new_def registry_default_def issue_token_def accept_def serve_handshake_def
  consume_token_def next_client_id_def registry_insert_def ack_written_def attach_session_def
  probe_start_def set_phase_def spawn_task_def session_inbound_def subscribe_def start_call_def
  call_begin_def call_remote_def registry_get_def check_method_def find_method_def chan_send_def
  fresh_cell_def demo_hello_def demo_method_def demo_caller_def demo_spec_def demo_actions_def
  demo_connects_def Let_def dm_get_def dm_insert_def dm_remove_def PROTOCOL_CURRENT_def
  caller_ctx_default_def demo_conn_def entry_of_def invoke_frame_def

lemma demo_reaches:
  "run_actions (bus_exec demo_json) (demo_actions ms) (bus_init broker_config_default) = Some (demo_state ms)"
  unfolding demo_state_def by (simp add: demo_eval) (simp add: fun_eq_iff)

lemma demo_length: "length (demo_actions ms) \<le> 2 ^ 64 - 2"
  by (simp add: demo_actions_def demo_connects_def)

lemma bus_inv_reachable:
  assumes "run_actions (bus_exec json) as (bus_init config) = Some s" "length as \<le> 2 ^ 64 - 2"
  shows "bus_inv (length as) s"
  using assms by (intro bus.inv_run) simp_all

subsection \<open>Calls whose sender is not lost\<close>

lemma awaiting_sender_alive:
  assumes "call_inv n s" "bus_tasks s i = Some (Awaiting og spec (WaitRemote h r))" "bus_oneshots s i = None"
  shows "sender_alive s i"
proof -
  from awaits_handle [OF assms(1,2)] assms(3) obtain c where c: "c < bus_n_conns s" "h = handle c"
    "dm_get (pending s c) r = Some i" by auto
  have "i < bus_n_tasks s"
    using assms(1,2) unfolding call_inv_def call_ok_def tasks_ok_def by (metis linorder_not_less option.distinct(1))
  with assms(2) c(2) have "held s c" by (force simp: held_def)
  with c(1) dm_get_in_set [OF c(3)] show ?thesis by (force simp: sender_alive_def)
qed

lemma start_task_other: "j \<noteq> i \<Longrightarrow> bus_tasks (start_task json i t s) j = bus_tasks s j"
  by (cases t) (auto simp: start_call_def bus_views split: option.splits prod.splits sum.splits)

lemma resume_task_other: "j \<noteq> i \<Longrightarrow> bus_tasks (resume_task json i og sp w wk s) j = bus_tasks s j"
  by (simp add: resume_task_def bus_views split: prod.splits)

lemma stranded_conns:
  assumes "bus_inv n s" "n < 2 ^ 64 - 2" "bus_conns s c = Some k" "cn_phase k = Ended" "bus_exec json a s = Some t"
  shows "bus_conns t c = Some k"
proof -
  have new: "bus_n_conns s \<noteq> c"
    using assms(1-3) gens_ok_fresh(1) by (fastforce simp: bus_inv_def conn_inv_def)
  show ?thesis
    using assms(3-5) new
    by (cases a)
      (auto simp: accept_def ack_failed_def ack_written_def session_inbound_def session_end_def Let_def bus_views
        split: option.splits task.splits if_splits call_wait.splits prod.splits handshake.splits sum.splits
          bus_frame.splits)
qed

lemma stranded_shot:
  assumes "call_inv n s" "stranded i og spec c r s" "bus_exec json a s = Some t"
  shows "bus_oneshots t i = None"
proof (cases "\<exists>d f. a = Inbound d f")
  case True
  then obtain d f where a: "a = Inbound d f" by blast
  have "bus_oneshots (deliver_response d resp s) i = None" if "d \<noteq> c" for resp
  proof -
    have "dm_get (pending s d) (rsp_req_id resp) \<noteq> Some i"
    proof
      assume "dm_get (pending s d) (rsp_req_id resp) = Some i"
      with assms(1) have "awaits (bus_tasks s) i (handle d) (rsp_req_id resp) \<or>
          (\<exists>res. bus_tasks s i = Some (Done res))"
        unfolding call_inv_def call_ok_def table_ok_def by blast
      with assms(2) that show False by (auto simp: awaits_def stranded_def)
    qed
    with assms(2) show ?thesis by (auto simp: deliver_response_def stranded_def split: option.splits)
  qed
  with a assms(2,3) show ?thesis
    by (cases "d = c")
      (auto simp: stranded_def session_inbound_def session_end_def Let_def bus_views
        split: option.splits sum.splits bus_frame.splits if_splits)
next
  case False
  with assms(2,3) show ?thesis
    by (cases a)
      (auto simp: stranded_def accept_def ack_failed_def ack_written_def Let_def bus_views
        split: option.splits task.splits if_splits call_wait.splits prod.splits handshake.splits)
qed

lemma stranded_task:
  assumes "call_inv n s" "stranded i og spec c r s" "bus_exec json a s = Some t"
  shows "bus_tasks t i = bus_tasks s i"
proof -
  have i: "bus_n_tasks s \<noteq> i"
    using assms(1,2) by (auto simp: stranded_def call_inv_def call_ok_def tasks_ok_def)
  have alive: "sender_alive s i"
    using assms(1,2) awaiting_sender_alive unfolding stranded_def by blast
  show ?thesis
  proof (cases "\<exists>j. a = StartTask j")
    case True
    with assms(3) obtain j u where u: "t = start_task json j u s" "bus_tasks s j = Some u" "unstarted u"
      by (auto simp del: start_task.simps split: option.splits task.splits)
    with assms(2) have "j \<noteq> i" by (auto simp: stranded_def)
    with u(1) show ?thesis by (simp add: start_task_other)
  next
    case False
    with assms(2,3) alive i show ?thesis
      by (cases a)
        (auto simp: stranded_def accept_def ack_failed_def ack_written_def session_inbound_def session_end_def
          Let_def bus_views resume_task_def
          split: option.splits task.splits if_splits call_wait.splits prod.splits handshake.splits sum.splits
            bus_frame.splits)
  qed
qed

lemma stranded_exec:
  assumes "bus_inv n s \<and> stranded i og spec c r s" "n < 2 ^ 64 - 2" "bus_exec json a s = Some t"
  shows "bus_inv (Suc n) t \<and> stranded i og spec c r t"
proof -
  from assms(1) have s: "bus_inv n s" "call_inv n s" "stranded i og spec c r s"
    by (simp_all add: bus_inv_def)
  then obtain k where "bus_conns s c = Some k" "cn_phase k = Ended"
    by (auto simp: stranded_def)
  with bus_inv_exec [OF s(1) assms(2,3)] stranded_conns [OF s(1) assms(2) _ _ assms(3)]
    stranded_shot [OF s(2,3) assms(3)] stranded_task [OF s(2,3) assms(3)] s(3)
  show ?thesis by (auto simp: stranded_def)
qed

interpretation stranded: step_system "bus_exec json" "\<lambda>n s. bus_inv n s \<and> stranded i og spec c r s" "2 ^ 64 - 2"
  for json i og spec c r
  by unfold_locales (rule stranded_exec)

section \<open>Theorems\<close>

subsection \<open>Authorisation\<close>

text \<open>
  C9. No unauthenticated call reaches an app's protected method: in every reachable state, an
  \<open>Invoke\<close> in the channel of a connection names a method which that connection declared in its
  hello, and where the declaration has \<open>requires_auth\<close> the caller of the frame has a user id.
\<close>

theorem auth_gate:
  assumes "run_actions (bus_exec json) as (bus_init config) = Some s" "length as \<le> 2 ^ 64 - 2"
    and "Invoke v \<in> set (cl_queue (bus_cells s c))"
  shows "\<exists>k decl. bus_conns s c = Some k \<and>
    find_method (inv_method v) (hr_methods (cn_hello k)) = Some decl \<and>
    (md_requires_auth decl \<longrightarrow> cc_user_id (inv_caller v) \<noteq> None)"
proof -
  from bus_inv_reachable [OF assms(1,2)] have "frame_inv s" by (simp add: bus_inv_def)
  with assms(3) show ?thesis by (force simp: frame_inv_def frame_ok_def)
qed

theorem auth_gate_witness:
  "\<exists>k decl. bus_conns (demo_state 0) 0 = Some k \<and>
    find_method ''save'' (hr_methods (cn_hello k)) = Some decl \<and>
    (md_requires_auth decl \<longrightarrow> cc_user_id demo_caller \<noteq> None)"
  using auth_gate [OF demo_reaches demo_length,
      of "\<lparr>inv_req_id = 1, inv_method = ''save'', inv_payload = [1], inv_caller = demo_caller\<rparr>" 0 0]
  by (simp add: demo_state_def invoke_frame_def)

text \<open>
  The broker sends four kinds of frames after the acknowledgement: in every reachable state a
  frame in a channel is an \<open>Invoke\<close>, a \<open>Response\<close>, an \<open>Event\<close> stamped with the service name of
  some connection, or a \<open>Shutdown\<close>. In particular it never sends \<open>Ping\<close>, although
  \<open>BrokerConfig\<close> documents \<open>heartbeat_interval\<close> as the interval at which it does.
\<close>

theorem outbound_frames:
  assumes "run_actions (bus_exec json) as (bus_init config) = Some s" "length as \<le> 2 ^ 64 - 2"
    and "f \<in> set (cl_queue (bus_cells s c))"
  shows "f \<noteq> Ping \<and>
    ((\<exists>v. f = Invoke v) \<or> (\<exists>r. f = Response r) \<or> f = Shutdown \<or>
     (\<exists>ev d k. f = Event ev \<and> bus_conns s d = Some k \<and> ev_from ev = Some (hr_service (cn_hello k))))"
proof -
  from bus_inv_reachable [OF assms(1,2)] have "frame_inv s" by (simp add: bus_inv_def)
  with assms(3) have "frame_ok (bus_conns s) c f" by (simp add: frame_inv_def)
  then show ?thesis by (cases f) (auto simp: frame_ok_def)
qed

theorem outbound_frames_witness:
  "invoke_frame 1 ''save'' [1] demo_caller \<noteq> Ping"
  using outbound_frames [OF demo_reaches demo_length, of "invoke_frame 1 ''save'' [1] demo_caller" 0 0]
  by (simp add: demo_state_def)

text \<open>
  An app cannot forge the identity its calls carry: in every reachable state, a call in
  flight that connection \<open>c\<close> asked for has as \<open>caller_app_id\<close> the service name under which \<open>c\<close>
  registered, whatever the app wrote into its \<open>Invoke\<close>.
\<close>

theorem caller_app_id_stamped:
  assumes "run_actions (bus_exec json) as (bus_init config) = Some s" "length as \<le> 2 ^ 64 - 2"
    and "bus_tasks s i = Some (Awaiting (FromApp c r) spec w)"
  shows "\<exists>k. bus_conns s c = Some k \<and> cc_caller_app_id (cs_caller spec) = Some (hr_service (cn_hello k))"
proof -
  from bus_inv_reachable [OF assms(1,2)] have "origin_inv s" by (simp add: bus_inv_def)
  with assms(3) show ?thesis by (force simp: origin_inv_def task_ok_def service_of_def)
qed

theorem caller_app_id_stamped_witness:
  "let as = demo_connects @ [Inbound 1 (Inr (Some (Invoke \<lparr>inv_req_id = 9, inv_method = ''echo.save'',
         inv_payload = [], inv_caller = demo_caller\<lparr>cc_caller_app_id := Some ''root''\<rparr>\<rparr>))), StartTask 2]
   in \<exists>s spec k. run_actions (bus_exec demo_json) as (bus_init broker_config_default) = Some s \<and>
      bus_tasks s 2 = Some (Awaiting (FromApp 1 9) spec (WaitRemote (handle 0) 1)) \<and>
      bus_conns s 1 = Some k \<and> cc_caller_app_id (cs_caller spec) = Some (hr_service (cn_hello k))"
proof -
  let ?as = "demo_connects @ [Inbound 1 (Inr (Some (Invoke \<lparr>inv_req_id = 9, inv_method = ''echo.save'',
    inv_payload = [], inv_caller = demo_caller\<lparr>cc_caller_app_id := Some ''root''\<rparr>\<rparr>))), StartTask 2]"
  have "\<exists>s. run_actions (bus_exec demo_json) ?as (bus_init broker_config_default) = Some s \<and>
    (\<exists>spec. bus_tasks s 2 = Some (Awaiting (FromApp 1 9) spec (WaitRemote (handle 0) 1)))"
    by (simp add: demo_eval stamp_caller_def)
  then obtain s spec where s: "run_actions (bus_exec demo_json) ?as (bus_init broker_config_default) = Some s"
    "bus_tasks s 2 = Some (Awaiting (FromApp 1 9) spec (WaitRemote (handle 0) 1))" by blast
  have "length ?as \<le> 2 ^ 64 - 2" by (simp add: demo_connects_def)
  from caller_app_id_stamped [OF s(1) this s(2)] s show ?thesis by (auto simp: Let_def)
qed

subsection \<open>Routing and correlation\<close>



text \<open>
  C10. Responses reach the call they answer and no other: when a \<open>Response\<close> arrives on connection
  \<open>c\<close> in a reachable state, a call that still awaits is handed it exactly if it awaits on \<open>c\<close>
  under the id of the response; that call is the only one that does, and its next step ends it
  with the result the response carries.
\<close>

theorem response_correlation:
  assumes "run_actions (bus_exec json) as (bus_init config) = Some s" "length as \<le> 2 ^ 64 - 2"
    and "bus_exec json (Inbound c (Inr (Some (Response resp)))) s = Some t"
    and "bus_tasks s i = Some (Awaiting og spec w)" "bus_oneshots s i = None"
  shows "bus_oneshots t i = (if w = WaitRemote (handle c) (rsp_req_id resp) then Some resp else None) \<and>
    (w = WaitRemote (handle c) (rsp_req_id resp) \<longrightarrow>
       (\<forall>j og' spec'. bus_tasks s j = Some (Awaiting og' spec' w) \<longrightarrow> j = i) \<and>
       (\<exists>u. bus_exec json (OneshotReady i) t = Some u \<and> bus_tasks u i = Some (Done (rsp_result resp))))"
proof -
  from bus_inv_reachable [OF assms(1,2)] have inv: "call_inv (length as) s" by (simp add: bus_inv_def)
  from assms(3) have t: "t = deliver_response c resp s"
    by (auto simp: session_inbound_def split: option.splits if_splits)
  have other: "w = WaitRemote (handle c) (rsp_req_id resp)"
    if "dm_get (pending s c) (rsp_req_id resp) = Some i"
    using inv that assms(4) unfolding call_inv_def call_ok_def table_ok_def awaits_def by fastforce
  have mine: "dm_get (pending s c) (rsp_req_id resp) = Some i"
    if "w = WaitRemote (handle c) (rsp_req_id resp)"
    using awaits_handle [OF inv assms(4) [unfolded that]] assms(5) by auto
  have shot: "bus_oneshots t i = (if w = WaitRemote (handle c) (rsp_req_id resp) then Some resp else None)"
    using other mine assms(5) t by (auto simp: deliver_response_def split: option.splits)
  have "bus_tasks t i = Some (Awaiting og spec w)" using assms(4) t by (simp add: bus_views)
  then have "\<exists>u. bus_exec json (OneshotReady i) t = Some u \<and> bus_tasks u i = Some (Done (rsp_result resp))"
    if "w = WaitRemote (handle c) (rsp_req_id resp)"
    using shot that by (simp add: resume_task_def bus_views)
  moreover have "\<forall>j og' spec'. bus_tasks s j = Some (Awaiting og' spec' w) \<longrightarrow> j = i"
    if "w = WaitRemote (handle c) (rsp_req_id resp)"
    using inv that assms(4) unfolding call_inv_def call_ok_def unique_ok_def awaits_def by blast
  ultimately show ?thesis using shot by blast
qed

theorem response_correlation_witness:
  "let resp = \<lparr>rsp_req_id = 1, rsp_result = Inr [42]\<rparr>
   in \<exists>t u. bus_exec demo_json (Inbound 0 (Inr (Some (Response resp)))) (demo_state 0) = Some t \<and>
      bus_oneshots t 2 = Some resp \<and>
      bus_exec demo_json (OneshotReady 2) t = Some u \<and> bus_tasks u 2 = Some (Done (Inr [42]))"
proof -
  let ?resp = "\<lparr>rsp_req_id = 1, rsp_result = Inr [42]\<rparr> :: response"
  let ?t = "deliver_response 0 ?resp (demo_state 0)"
  have "bus_exec demo_json (Inbound 0 (Inr (Some (Response ?resp)))) (demo_state 0) = Some ?t"
    by (simp add: demo_state_def demo_conn_def session_inbound_def)
  moreover have "bus_tasks (demo_state 0) 2 = Some (Awaiting FromHttp (demo_spec 0) (WaitRemote (handle 0) 1))"
    "bus_oneshots (demo_state 0) 2 = None"
    by (simp_all add: demo_state_def)
  ultimately show ?thesis
    using response_correlation [OF demo_reaches demo_length, where c = 0 and resp = ?resp and t = ?t and i = 2
        and og = FromHttp and spec = "demo_spec 0" and w = "WaitRemote (handle 0) 1"] by simp
qed

text \<open>
  C24. A call that times out ends with \<open>Timeout\<close> and the timeout in milliseconds, and leaves the
  table of its connection: a response that comes later under its id changes nothing.
\<close>

theorem timeout_forgets_request:
  assumes "run_actions (bus_exec json) as (bus_init config) = Some s" "length as \<le> 2 ^ 64 - 2"
    and "bus_tasks s i = Some (Awaiting og spec (WaitRemote (handle c) r))"
    and "bus_exec json (TimerFires i) s = Some t" "rsp_req_id resp = r"
  shows "bus_tasks t i = Some (Done (Inl (Timeout (word_of_nat (as_nanos (cs_timeout spec) div 1000000))))) \<and>
    deliver_response c resp t = t"
proof -
  from assms(3,4) have t: "t = resume_task json i og spec (WaitRemote (handle c) r) Elapsed s"
    by (auto split: if_splits)
  then have "dm_get (pending t c) r = None"
    by (simp add: resume_task_def bus_views)
  with t assms(5) show ?thesis
    by (simp add: resume_task_def bus_views deliver_response_def as_millis_u64_def as_millis_def)
qed

theorem timeout_forgets_request_witness:
  "\<exists>t. bus_exec demo_json (TimerFires 2) (demo_state 250) = Some t \<and>
     bus_tasks t 2 = Some (Done (Inl (Timeout 250))) \<and>
     deliver_response 0 \<lparr>rsp_req_id = 1, rsp_result = Inr []\<rparr> t = t"
proof -
  let ?t = "resume_task demo_json 2 FromHttp (demo_spec 250) (WaitRemote (handle 0) 1) Elapsed (demo_state 250)"
  have tasks: "bus_tasks (demo_state 250) 2 = Some (Awaiting FromHttp (demo_spec 250) (WaitRemote (handle 0) 1))"
    by (simp add: demo_state_def)
  then have "bus_exec demo_json (TimerFires 2) (demo_state 250) = Some ?t"
    by (simp add: demo_spec_def duration_is_zero_def duration_from_millis_def)
  with timeout_forgets_request [OF demo_reaches demo_length tasks this,
      of "\<lparr>rsp_req_id = 1, rsp_result = Inr []\<rparr>"]
  show ?thesis by (simp add: demo_spec_def duration_from_millis_def)
qed

subsection \<open>Lost connections\<close>

text \<open>
  C25. A call never ends with the broker's own \<open>ConnectionClosed\<close>: in every reachable state, the
  branch of \<open>call_with_timeout\<close> that observes a dropped oneshot sender is not enabled, because the
  call itself keeps alive the table which holds the sender.
\<close>

theorem closed_branch_unreachable:
  assumes "run_actions (bus_exec json) as (bus_init config) = Some s" "length as \<le> 2 ^ 64 - 2"
  shows "bus_exec json (OneshotClosed i) s = None"
proof -
  from bus_inv_reachable [OF assms] have inv: "call_inv (length as) s" by (simp add: bus_inv_def)
  have "sender_alive s i" if "bus_tasks s i = Some (Awaiting og spec (WaitRemote h r))" "bus_oneshots s i = None"
    for og spec h r
    using awaiting_sender_alive [OF inv that] .
  then show ?thesis by (auto split: option.splits task.splits call_wait.splits)
qed

theorem closed_branch_unreachable_witness:
  "\<exists>s. run_actions (bus_exec demo_json) (demo_actions 0 @ [Inbound 0 (Inr None)]) (bus_init broker_config_default) =
         Some s \<and> bus_exec demo_json (OneshotClosed 2) s = None"
proof -
  let ?as = "demo_actions 0 @ [Inbound 0 (Inr None)]"
  have "\<exists>s. run_actions (bus_exec demo_json) ?as (bus_init broker_config_default) = Some s"
    by (simp add: demo_eval)
  then obtain s where s: "run_actions (bus_exec demo_json) ?as (bus_init broker_config_default) = Some s" by blast
  have "length ?as \<le> 2 ^ 64 - 2" by (simp add: demo_actions_def demo_connects_def)
  from closed_branch_unreachable [OF s this] s show ?thesis by blast
qed

text \<open>
  C26. A call without a timeout that loses its connection hangs for ever: once call \<open>i\<close> awaits a
  response with timeout zero on a connection that has ended, every continuation of the run
  leaves it awaiting.
\<close>

theorem untimed_call_hangs:
  assumes "run_actions (bus_exec json) as (bus_init config) = Some s"
    and "duration_is_zero (cs_timeout spec)"
    and "bus_tasks s i = Some (Awaiting og spec (WaitRemote (handle c) r))" "bus_oneshots s i = None"
    and "bus_conns s c = Some k" "cn_phase k = Ended"
    and "run_actions (bus_exec json) rest s = Some t" "length as + length rest \<le> 2 ^ 64 - 2"
  shows "bus_tasks t i = Some (Awaiting og spec (WaitRemote (handle c) r))"
proof -
  have "bus_inv (length as) s \<and> stranded i og spec c r s"
    using bus_inv_reachable [OF assms(1)] assms(2-6,8) by (simp add: stranded_def)
  from stranded.inv_from [OF this assms(8,7)] show ?thesis by (simp add: stranded_def)
qed

theorem untimed_call_hangs_witness:
  "\<exists>s t. run_actions (bus_exec demo_json) (demo_actions 0 @ [Inbound 0 (Inr None)]) (bus_init broker_config_default) =
         Some s \<and> run_actions (bus_exec demo_json) [ShutdownService ''app''] s = Some t \<and>
      bus_tasks t 2 = Some (Awaiting FromHttp (demo_spec 0) (WaitRemote (handle 0) 1))"
proof -
  let ?as = "demo_actions 0 @ [Inbound 0 (Inr None)]"
  have "\<exists>s. run_actions (bus_exec demo_json) ?as (bus_init broker_config_default) = Some s \<and>
    bus_tasks s 2 = Some (Awaiting FromHttp (demo_spec 0) (WaitRemote (handle 0) 1)) \<and> bus_oneshots s 2 = None \<and>
    (\<exists>k. bus_conns s 0 = Some k \<and> cn_phase k = Ended)"
    by (simp add: demo_eval session_end_def detach_session_def still_current_def registry_remove_if_def)
  then obtain s k where s: "run_actions (bus_exec demo_json) ?as (bus_init broker_config_default) = Some s"
    "bus_tasks s 2 = Some (Awaiting FromHttp (demo_spec 0) (WaitRemote (handle 0) 1))" "bus_oneshots s 2 = None"
    "bus_conns s 0 = Some k" "cn_phase k = Ended" by blast
  have "duration_is_zero (cs_timeout (demo_spec 0))"
    by (simp add: demo_spec_def duration_is_zero_def duration_from_millis_def)
  from untimed_call_hangs [OF s(1) this s(2-5), of "[ShutdownService ''app'']"] s(1)
  show ?thesis by (auto simp: demo_actions_def demo_connects_def)
qed

subsection \<open>Tokens and the handshake\<close>

lemma token_field_lengths [simp]:
  "length (show_hex_padded 16 (unat (w :: u64))) = 16"
  "length (show_hex_padded 8 (unat (v :: u32))) = 8"
proof -
  have "unat w < 2 ^ LENGTH(64)" "unat v < 2 ^ LENGTH(32)" by (rule unsigned_less)+
  then show "length (show_hex_padded 16 (unat w)) = 16" "length (show_hex_padded 8 (unat v)) = 8"
    by (simp_all add: length_show_hex_padded)
qed

lemma random_token_eq_iff:
  "random_token ns pid ctr = random_token ns' pid' ctr' \<longleftrightarrow> ns = ns' \<and> pid = pid' \<and> ctr = ctr'"
proof
  assume eq: "random_token ns pid ctr = random_token ns' pid' ctr'"
  then have "show_hex_padded 16 (unat ns) = show_hex_padded 16 (unat ns')"
    "show_hex_padded 8 (unat pid) = show_hex_padded 8 (unat pid')"
    "show_hex_padded 16 (unat ctr) = show_hex_padded 16 (unat ctr')"
    by (simp_all add: random_token_def)
  then show "ns = ns' \<and> pid = pid' \<and> ctr = ctr'"
    by (metis show_hex_padded_inj word_unat_eq_iff)
qed simp

text \<open>
  Spawn tokens do not collide: two calls of \<open>issue_token\<close> at different values of the process's
  token counter return different tokens, whatever the clock says and whichever services they are
  for; and a token has 40 characters.
\<close>

theorem issued_tokens_differ:
  assumes "ctr \<noteq> ctr'"
  shows "snd (issue_token ns pid ctr sv b) \<noteq> snd (issue_token ns' pid' ctr' sv' b') \<and>
    length (snd (issue_token ns pid ctr sv b)) = 40"
  using assms by (simp add: issue_token_def Let_def random_token_eq_iff) (simp add: random_token_def)

theorem issued_tokens_differ_witness:
  "snd (issue_token 5 7 0 ''a'' (broker_new broker_config_default)) \<noteq>
   snd (issue_token 5 7 1 ''a'' (broker_new broker_config_default))"
  using issued_tokens_differ [of 0 1 5 7 "''a''" "broker_new broker_config_default" 5 7 "''a''"
      "broker_new broker_config_default"] by simp

text \<open>
  A spawn token admits one connection: after every run, the connections accepted under a
  service name are at most as many as the tokens issued for that name.
\<close>

theorem token_single_use:
  assumes "run_actions (bus_exec json) as (bus_init config) = Some s"
  shows "accepted_conns service s \<le> length (filter (\<lambda>a. \<exists>ns pid. a = IssueToken service ns pid) as)"
proof -
  have "token_level service s \<le> token_level service (bus_init config) + sum_list (map (issues service) as)"
    by (rule tok.level_run [OF assms])
  moreover have "token_level service (bus_init config) = 0"
    by (simp add: token_level_def accepted_conns_def bus_init_def broker_new_def dm_contains_key_def)
  moreover have "sum_list (map (issues service) as) =
      length (filter (\<lambda>a. \<exists>ns pid. a = IssueToken service ns pid) as)"
    by (induction as) (auto simp: issues_def split: bus_action.split)
  ultimately show ?thesis by (simp add: token_level_def)
qed

theorem token_single_use_witness:
  "accepted_conns ''echo'' (demo_state 0) \<le> 1"
  using token_single_use [OF demo_reaches, of "''echo''" 0]
  by (simp add: demo_actions_def demo_connects_def)

text \<open>
  C12. What the handshake accepts: a connection is accepted exactly if its first frame is a
  \<open>Hello\<close> of the broker's major protocol version whose token is the outstanding token of its
  service. Acceptance takes the token, numbers the connection by the next client id and the next
  generation, and makes the connection the registered entry of its service, leaving the entries of
  all other services alone.
\<close>

theorem handshake_accepts:
  "(case serve_handshake c inbound b of
      (b', HsAccepted k) \<Rightarrow>
        (\<exists>hello. inbound = Inr (Some (Hello hello)) \<and> cn_hello k = hello \<and>
           pv_major (hr_protocol hello) = pv_major PROTOCOL_CURRENT \<and>
           dm_get (br_tokens b) (hr_service hello) = Some (hr_auth_token hello) \<and>
           br_tokens b' = dm_remove (hr_service hello) (br_tokens b) \<and>
           cn_client_id k = br_next_client_id b \<and> br_next_client_id b' = br_next_client_id b + 1 \<and>
           cn_generation k = reg_next_gen (br_registry b) + 1 \<and>
           (\<forall>sv. registry_get (br_registry b') sv =
              (if sv = hr_service hello then Some (entry_of c k) else registry_get (br_registry b) sv)))
    | (b', _) \<Rightarrow>
        \<not> (\<exists>hello. inbound = Inr (Some (Hello hello)) \<and>
             pv_major (hr_protocol hello) = pv_major PROTOCOL_CURRENT \<and>
             dm_get (br_tokens b) (hr_service hello) = Some (hr_auth_token hello)) \<and>
        br_registry b' = br_registry b \<and> br_next_client_id b' = br_next_client_id b)"
proof (cases "serve_handshake c inbound b")
  case (Pair b' h)
  show ?thesis
  proof (cases h)
    case (HsAccepted k)
    note acc = serve_handshake_accepted [OF Pair [unfolded HsAccepted]]
    moreover have "br_next_client_id b' = br_next_client_id b + 1"
      using Pair HsAccepted
      by (auto simp: serve_handshake_def consume_token_def next_client_id_def Let_def
          split: sum.splits option.splits bus_frame.splits if_splits bool.splits prod.splits)
    ultimately show ?thesis using Pair HsAccepted by (auto simp: get_insert_entry)
  qed (use Pair in \<open>auto simp: serve_handshake_def consume_token_def next_client_id_def Let_def
      split: sum.splits option.splits bus_frame.splits if_splits bool.splits prod.splits\<close>)
qed

text \<open>
  One wrong guess destroys a spawn token: after a \<open>Hello\<close> that presents a wrong token for a
  service, the process that holds the right one is refused as well, although the broker
  documents tokens as consumed on a successful hello.
\<close>

theorem wrong_token_burns:
  assumes "pv_major (hr_protocol hello) = pv_major PROTOCOL_CURRENT"
    and "pv_major (hr_protocol hello') = pv_major PROTOCOL_CURRENT"
    and "hr_service hello' = hr_service hello"
    and "dm_get (br_tokens b) (hr_service hello) = Some right" "hr_auth_token hello \<noteq> right"
  shows "snd (serve_handshake c (Inr (Some (Hello hello))) b) = HsRejected (reject_frame InvalidAuthToken) \<and>
    snd (serve_handshake d (Inr (Some (Hello (hello'\<lparr>hr_auth_token := right\<rparr>))))
      (fst (serve_handshake c (Inr (Some (Hello hello))) b))) = HsRejected (reject_frame InvalidAuthToken)"
  using assms by (simp add: serve_handshake_def consume_token_def)

theorem wrong_token_burns_witness:
  "let b = fst (issue_token 5 7 0 ''echo'' (broker_new broker_config_default))
   in snd (serve_handshake 1 (Inr (Some (Hello (demo_hello ''echo'' 0))))
        (fst (serve_handshake 0 (Inr (Some (Hello (demo_hello ''echo'' 1)))) b)))
      = HsRejected (reject_frame InvalidAuthToken)"
proof -
  let ?b = "fst (issue_token 5 7 0 ''echo'' (broker_new broker_config_default))"
  have "dm_get (br_tokens ?b) ''echo'' = Some (random_token 5 7 0)"
    by (simp add: issue_token_def Let_def)
  moreover have "random_token 5 7 1 \<noteq> random_token 5 7 0" by (simp add: random_token_eq_iff)
  moreover have "(demo_hello ''echo'' 0)\<lparr>hr_auth_token := random_token 5 7 0\<rparr> = demo_hello ''echo'' 0"
    by (simp add: demo_hello_def)
  ultimately show ?thesis
    using wrong_token_burns [of "demo_hello ''echo'' 1" "demo_hello ''echo'' 0" ?b "random_token 5 7 0" 0 1]
    by (simp add: demo_hello_def)
qed

subsection \<open>Events\<close>

lemma fanout_send_exact:
  "cl_open (cs c) = opn \<Longrightarrow>
   cl_queue (fanout_send b ev ts cs c) = cl_queue (cs c) @
     concat (map (\<lambda>t. case registry_get (br_registry b) t of None \<Rightarrow> []
                      | Some e \<Rightarrow> if se_tx e = c \<and> opn then [Event ev] else []) ts)"
proof (induction b ev ts cs rule: fanout_send.induct)
  case (2 b ev t ts cs)
  then show ?case
    by (cases "registry_get (br_registry b) t") (simp_all add: chan_send_queue bus_views, auto)
qed simp

lemma fanout_targets_iff:
  assumes "dm_wf (br_subscriptions b)"
  shows "sv \<in> set (fanout_targets b from_service ev) \<longleftrightarrow>
    sv \<noteq> from_service \<and>
    (\<exists>ps. dm_get (br_subscriptions b) sv = Some ps \<and> (\<exists>p \<in> ps. starts_with (ev_topic ev) p))"
proof -
  have "sv \<in> set (fanout_targets b from_service ev) \<longleftrightarrow>
    (\<exists>ps. (sv, ps) \<in> set (br_subscriptions b) \<and> sv \<noteq> from_service \<and> (\<exists>p \<in> ps. starts_with (ev_topic ev) p))"
    by (auto simp: fanout_targets_def image_iff)
  then show ?thesis by (auto simp: dm_in_set_iff [OF assms])
qed

lemma fanout_targets_distinct: "dm_wf (br_subscriptions b) \<Longrightarrow> distinct (fanout_targets b from_service ev)"
  by (simp add: fanout_targets_def dm_wf_def dm_keys_def distinct_map_filter)

text \<open>
  C23. Events are delivered exactly to the subscribers: in every reachable state, publishing an
  event appends one copy, stamped with the name of the publishing service, to the channel of a
  registered connection with an open channel if its service is not the publisher and has
  subscribed to a prefix of the topic, and appends nothing to it otherwise.
\<close>

theorem fanout_delivery:
  assumes "run_actions (bus_exec json) as (bus_init config) = Some s" "length as \<le> 2 ^ 64 - 2"
    and "bus_conns s c = Some k" "cl_open (bus_cells s c)"
    and "registry_get (br_registry (bus_broker s)) (hr_service (cn_hello k)) = Some (entry_of c k)"
  shows "cl_queue (fanout (bus_broker s) from_service ev (bus_cells s) c) = cl_queue (bus_cells s c) @
    (if hr_service (cn_hello k) \<noteq> from_service \<and>
        (\<exists>ps. dm_get (br_subscriptions (bus_broker s)) (hr_service (cn_hello k)) = Some ps \<and>
           (\<exists>p \<in> ps. prefix p (ev_topic ev)))
     then [Event (ev\<lparr>ev_from := Some from_service\<rparr>)] else [])"
proof -
  from bus_inv_reachable [OF assms(1,2)] have inv: "entries_ok (br_registry (bus_broker s)) (bus_conns s)"
    "dm_wf (br_subscriptions (bus_broker s))" by (simp_all add: bus_inv_def conn_inv_def)
  have only: "sv = cn_service k"
    if "registry_get (br_registry (bus_broker s)) sv = Some e" "se_tx e = c" for sv e
    using inv(1) that assms(3) by (fastforce simp: entries_ok_def)
  let ?ev = "ev\<lparr>ev_from := Some from_service\<rparr>"
  let ?g = "\<lambda>t. case registry_get (br_registry (bus_broker s)) t of None \<Rightarrow> []
                      | Some e \<Rightarrow> if se_tx e = c \<and> cl_open (bus_cells s c) then [Event ?ev] else []"
  have "concat (map ?g (fanout_targets (bus_broker s) from_service ?ev)) =
      (if cn_service k \<in> set (fanout_targets (bus_broker s) from_service ?ev) then ?g (cn_service k) else [])"
    by (rule concat_map_single [OF fanout_targets_distinct [OF inv(2)]])
      (auto split: option.splits dest: only)
  with assms(4,5) show ?thesis
    by (simp add: fanout_def Let_def fanout_send_exact [OF refl] fanout_targets_iff [OF inv(2)] starts_with_iff_prefix)
qed

theorem fanout_delivery_witness:
  "let ev = \<lparr>ev_topic = ''username'', ev_payload = [], ev_from = None\<rparr>
   in cl_queue (fanout (bus_broker (demo_state 0)) ''echo'' ev (bus_cells (demo_state 0)) 1) =
        [Event (ev\<lparr>ev_from := Some ''echo''\<rparr>)]"
proof -
  have "bus_conns (demo_state 0) 1 = Some (demo_conn ''app'' 1 2)" "cl_open (bus_cells (demo_state 0) 1)"
    "cl_queue (bus_cells (demo_state 0) 1) = []"
    by (simp_all add: demo_state_def fresh_cell_def)
  with fanout_delivery [OF demo_reaches demo_length, of 0 1 "demo_conn ''app'' 1 2" "''echo''"
      "\<lparr>ev_topic = ''username'', ev_payload = [], ev_from = None\<rparr>"]
  show ?thesis
    by (simp add: demo_state_def demo_conn_def demo_hello_def registry_get_def dm_get_def Let_def)
qed

end
