(* ===== verification/Network.thy ===== *)
theory Network
  imports Trace Client_Theorems Bus_Theorems
begin

text \<open>
  The whole system: the broker with its connections and the apps that use the client library, each
  connection a pair of byte streams between them. The streams carry the frames that the writer tasks
  write and the readers read, in order (\<open>Wire\<close> shows that streams of bytes do). The apps run in
  any interleaving with the broker, and any connection may be lost on either side at any time.

  The theorem: a call that an app made with \<open>invoke\<close> and that returned bytes was run by a handler,
  once it had reached the service it names, on the payload the app sent and for the caller the app
  named, and these bytes are what that handler returned.
\<close>

section \<open>Definitions\<close>

subsection \<open>The system\<close>

record net =
  nt_bus :: bus
  nt_apps :: "conn_id \<Rightarrow> app option"
  nt_up :: "conn_id \<Rightarrow> bus_frame list"
  nt_down :: "conn_id \<Rightarrow> bus_frame list"

definition net_init :: "broker_config \<Rightarrow> net" where
  "net_init config =
     \<lparr>nt_bus = bus_init config, nt_apps = (\<lambda>_. None), nt_up = (\<lambda>_. []), nt_down = (\<lambda>_. [])\<rparr>"

text \<open>Actions that use the streams are not taken alone, but together with their stream.\<close>

datatype net_action =
    NetBus bus_action
  | NetAckWrite conn_id bool
  | NetBusWrite conn_id bool
  | NetBusRead conn_id
  | NetBusLost conn_id "bus_error option"
  | NetEstablish conn_id client_config "(string, handler_id) dashmap" instant
  | NetApp conn_id app_action
  | NetAppWrite conn_id bool
  | NetAppRead conn_id
  | NetAppLost conn_id "bus_error option"

fun bus_on_wire :: "bus_action \<Rightarrow> bool" where
  "bus_on_wire (AckWrite c ok) = True"
| "bus_on_wire (Inbound c inbound) = True"
| "bus_on_wire (WriterStep c ok) = True"
| "bus_on_wire a = False"

fun app_on_wire :: "app_action \<Rightarrow> bool" where
  "app_on_wire (AppInbound inbound) = True"
| "app_on_wire (AppWriter ok) = True"
| "app_on_wire a = False"

definition lost :: "bus_error option \<Rightarrow> bus_frame option bus_result" where
  "lost e = (case e of None \<Rightarrow> Inr None | Some e \<Rightarrow> Inl e)"

definition push :: "conn_id \<Rightarrow> bool \<Rightarrow> bus_frame \<Rightarrow> (conn_id \<Rightarrow> bus_frame list) \<Rightarrow> conn_id \<Rightarrow> bus_frame list" where
  "push c ok f streams = (if ok then streams(c := streams c @ [f]) else streams)"

fun net_exec ::
  "(bytes \<Rightarrow> capability_response option) \<Rightarrow> (bus_frame \<Rightarrow> string) \<Rightarrow> net_action \<Rightarrow> net \<Rightarrow> net option" where
  "net_exec json debug (NetBus a) s =
     (if bus_on_wire a then None else map_option (\<lambda>b. s\<lparr>nt_bus := b\<rparr>) (bus_exec json a (nt_bus s)))"
| "net_exec json debug (NetAckWrite c ok) s =
     (case bus_conns (nt_bus s) c of
        None \<Rightarrow> None
      | Some k \<Rightarrow>
          map_option
            (\<lambda>b. s\<lparr>nt_bus := b, nt_down := push c ok (ack_frame (bus_broker (nt_bus s)) k) (nt_down s)\<rparr>)
            (bus_exec json (AckWrite c ok) (nt_bus s)))"
| "net_exec json debug (NetBusWrite c ok) s =
     map_option
       (\<lambda>b. s\<lparr>nt_bus := b, nt_down := push c ok (hd (cl_queue (bus_cells (nt_bus s) c))) (nt_down s)\<rparr>)
       (bus_exec json (WriterStep c ok) (nt_bus s))"
| "net_exec json debug (NetBusRead c) s =
     (case nt_up s c of
        [] \<Rightarrow> None
      | f # fs \<Rightarrow>
          map_option (\<lambda>b. s\<lparr>nt_bus := b, nt_up := (nt_up s)(c := fs)\<rparr>)
            (bus_exec json (Inbound c (Inr (Some f))) (nt_bus s)))"
| "net_exec json debug (NetBusLost c e) s =
     map_option (\<lambda>b. s\<lparr>nt_bus := b\<rparr>) (bus_exec json (Inbound c (lost e)) (nt_bus s))"
| "net_exec json debug (NetEstablish c cfg handlers now) s =
     (case (nt_apps s c, bus_conns (nt_bus s) c, nt_down s c) of
        (None, Some k, f # fs) \<Rightarrow>
          (case establish debug cfg (cn_hello k) handlers (Inr ()) (Inr (Some f)) now of
             Inl e \<Rightarrow> None
           | Inr client \<Rightarrow>
               Some (s\<lparr>nt_apps := (nt_apps s)(c \<mapsto> app_start client now), nt_down := (nt_down s)(c := fs)\<rparr>))
      | _ \<Rightarrow> None)"
| "net_exec json debug (NetApp c a) s =
     (if app_on_wire a then None
      else case nt_apps s c of
             None \<Rightarrow> None
           | Some A \<Rightarrow> map_option (\<lambda>B. s\<lparr>nt_apps := (nt_apps s)(c \<mapsto> B)\<rparr>) (app_exec a A))"
| "net_exec json debug (NetAppWrite c ok) s =
     (case nt_apps s c of
        None \<Rightarrow> None
      | Some A \<Rightarrow>
          map_option
            (\<lambda>B. s\<lparr>nt_apps := (nt_apps s)(c \<mapsto> B), nt_up := push c ok (hd (bk_queue (ap_client A))) (nt_up s)\<rparr>)
            (app_exec (AppWriter ok) A))"
| "net_exec json debug (NetAppRead c) s =
     (case (nt_apps s c, nt_down s c) of
        (Some A, f # fs) \<Rightarrow>
          map_option (\<lambda>B. s\<lparr>nt_apps := (nt_apps s)(c \<mapsto> B), nt_down := (nt_down s)(c := fs)\<rparr>)
            (app_exec (AppInbound (Inr (Some f))) A)
      | _ \<Rightarrow> None)"
| "net_exec json debug (NetAppLost c e) s =
     (case nt_apps s c of
        None \<Rightarrow> None
      | Some A \<Rightarrow> map_option (\<lambda>B. s\<lparr>nt_apps := (nt_apps s)(c \<mapsto> B)\<rparr>) (app_exec (AppInbound (lost e)) A))"

subsection \<open>Events\<close>

fun app_events :: "conn_id \<Rightarrow> app_action \<Rightarrow> app \<Rightarrow> net_event set" where
  "app_events c (AppInvoke service m payload caller) s =
     {Asked c (ap_n_calls s)
        \<lparr>inv_req_id = bk_next_req_id (ap_client s), inv_method = service @ ''.'' @ m, inv_payload = payload,
         inv_caller = caller\<rparr>}"
| "app_events c (DispatchStart d) s =
     (case ap_dispatches s d of
        Some (Queued v) \<Rightarrow>
          (if dm_get (bk_handlers (ap_client s)) (inv_method v) = None
           then {Replied c (inv_req_id v) None (Inl (MethodNotFound (bk_service (ap_client s)) (inv_method v)))}
           else {})
      | _ \<Rightarrow> {})"
| "app_events c (HandlerReturns d result) s =
     (case ap_dispatches s d of
        Some (Running h req q ctx) \<Rightarrow> {Replied c q (Some (h, req)) result}
      | _ \<Rightarrow> {})"
| "app_events c a s = {}"

fun net_events :: "net_action \<Rightarrow> net \<Rightarrow> net \<Rightarrow> net_event set" where
  "net_events (NetBus a) s t = bus_events a (nt_bus s) (nt_bus t)"
| "net_events (NetApp c a) s t = (case nt_apps s c of None \<Rightarrow> {} | Some A \<Rightarrow> app_events c a A)"
| "net_events a s t = {}"

text \<open>A run with the events that happened in it.\<close>

definition net_log ::
  "(bytes \<Rightarrow> capability_response option) \<Rightarrow> (bus_frame \<Rightarrow> string) \<Rightarrow> net_action \<Rightarrow>
   net \<times> net_event set \<Rightarrow> (net \<times> net_event set) option" where
  "net_log json debug a x = map_option (\<lambda>t. (t, snd x \<union> net_events a (fst x) t)) (net_exec json debug a (fst x))"

subsection \<open>Causes in an app\<close>

definition asked_ok :: "nat \<Rightarrow> net_event set \<Rightarrow> conn_id \<Rightarrow> app \<Rightarrow> bool" where
  "asked_ok n L c A \<longleftrightarrow>
     unat (bk_next_req_id (ap_client A)) \<le> Suc n \<and>
     (\<forall>j v. Asked c j v \<in> L \<longrightarrow> unat (inv_req_id v) < unat (bk_next_req_id (ap_client A)) \<and> j < ap_n_calls A) \<and>
     (\<forall>j v i w. Asked c j v \<in> L \<and> Asked c i w \<in> L \<and> (j = i \<or> inv_req_id v = inv_req_id w) \<longrightarrow> j = i \<and> v = w)"

definition asked_under :: "net_event set \<Rightarrow> conn_id \<Rightarrow> nat \<Rightarrow> u64 \<Rightarrow> bool" where
  "asked_under L c j r \<longleftrightarrow> (\<exists>v. Asked c j v \<in> L \<and> inv_req_id v = r)"

fun dispatch_traced :: "net_event set \<Rightarrow> conn_id \<Rightarrow> (string, handler_id) dashmap \<Rightarrow> dispatch \<Rightarrow> bool" where
  "dispatch_traced L c hs (Queued v) \<longleftrightarrow> (\<exists>i og. Relayed i og c v \<in> L)"
| "dispatch_traced L c hs (Running h req q ctx) \<longleftrightarrow>
     (\<exists>i og v. Relayed i og c v \<in> L \<and> inv_req_id v = q \<and>
        req = \<lparr>ir_payload = inv_payload v, ir_caller = inv_caller v\<rparr> \<and> dm_get hs (inv_method v) = Some h)"
| "dispatch_traced L c hs Answered \<longleftrightarrow> True"

fun call_traced :: "conns_map \<Rightarrow> net_event set \<Rightarrow> conn_id \<Rightarrow> nat \<Rightarrow> app_call \<Rightarrow> bool" where
  "call_traced conns L c j (CallWaiting r) \<longleftrightarrow> asked_under L c j r"
| "call_traced conns L c j (CallDone res) \<longleftrightarrow> (\<exists>r. asked_under L c j r \<and> from_call conns L c r res)"

text \<open>A reply answers a relayed request, with what the app's handler of its method made of it.\<close>

definition replied_ok :: "net_event set \<Rightarrow> conn_id \<Rightarrow> (string, handler_id) dashmap \<Rightarrow> bool" where
  "replied_ok L c hs \<longleftrightarrow>
     (\<forall>q hr res. Replied c q hr res \<in> L \<longrightarrow>
        (\<exists>i og v. Relayed i og c v \<in> L \<and> inv_req_id v = q \<and>
           (case hr of
              None \<Rightarrow> \<exists>e. res = Inl e
            | Some (h, req) \<Rightarrow>
                req = \<lparr>ir_payload = inv_payload v, ir_caller = inv_caller v\<rparr> \<and> dm_get hs (inv_method v) = Some h)))"

definition app_traced :: "nat \<Rightarrow> conns_map \<Rightarrow> net_event set \<Rightarrow> conn_id \<Rightarrow> app \<Rightarrow> bool" where
  "app_traced n conns L c A \<longleftrightarrow>
     asked_ok n L c A \<and> replied_ok L c (bk_handlers (ap_client A)) \<and>
     (\<forall>f \<in> set (bk_queue (ap_client A)). up_ok L c f) \<and>
     (\<forall>d x. ap_dispatches A d = Some x \<longrightarrow> dispatch_traced L c (bk_handlers (ap_client A)) x) \<and>
     (\<forall>r j. dm_get (bk_pending (ap_client A)) r = Some j \<longrightarrow> asked_under L c j r) \<and>
     (\<forall>j resp. ap_oneshots A j = Some resp \<longrightarrow>
        asked_under L c j (rsp_req_id resp) \<and> from_call conns L c (rsp_req_id resp) (rsp_result resp)) \<and>
     (\<forall>j x. ap_calls A j = Some x \<longrightarrow> call_traced conns L c j x)"

definition net_inv :: "nat \<Rightarrow> net \<times> net_event set \<Rightarrow> bool" where
  "net_inv n x \<longleftrightarrow>
     (case x of (s, L) \<Rightarrow>
        bus_inv n (nt_bus s) \<and> bus_traced L (nt_bus s) \<and>
        (\<forall>c A. nt_apps s c = Some A \<longrightarrow> app_traced n (bus_conns (nt_bus s)) L c A) \<and>
        (\<forall>c. nt_apps s c = None \<longrightarrow> (\<forall>j v. Asked c j v \<notin> L) \<and> (\<forall>q hr res. Replied c q hr res \<notin> L)) \<and>
        (\<forall>c. \<forall>f \<in> set (nt_up s c). up_ok L c f) \<and>
        (\<forall>c. \<forall>f \<in> set (nt_down s c). down_ok (bus_conns (nt_bus s)) L c f))"

text \<open>A run in which the app of service \<open>echo\<close> calls itself.\<close>

definition demo_net :: "net_action list" where
  "demo_net =
     [NetBus (IssueToken ''echo'' 5 7), NetBus (Accept (Inr (Some (Hello (demo_hello ''echo'' 0))))), NetAckWrite 0 True,
      NetEstablish 0 \<lparr>cfg_endpoint = EpUnixSocket ''/run/bus'', cfg_auth_token = [], cfg_reconnect_max_backoff = None,
                      cfg_idle_exit = None\<rparr> [(''save'', 0)] 0,
      NetApp 0 (AppInvoke ''echo'' ''save'' [1] demo_caller), NetAppWrite 0 True, NetBusRead 0, NetBus (StartTask 1),
      NetBusWrite 0 True, NetAppRead 0, NetApp 0 (DispatchStart 0), NetApp 0 (HandlerReturns 0 (Inr [9])),
      NetAppWrite 0 True, NetBusRead 0, NetBus (OneshotReady 1), NetBusWrite 0 True, NetAppRead 0,
      NetApp 0 (AppCallReady 0)]"

section \<open>Lemmas\<close>

subsection \<open>More events\<close>

lemma asked_under_mono: "asked_under L c j r \<Longrightarrow> L \<subseteq> L' \<Longrightarrow> asked_under L' c j r"
  unfolding asked_under_def by blast

lemma dispatch_traced_mono: "dispatch_traced L c hs x \<Longrightarrow> L \<subseteq> L' \<Longrightarrow> dispatch_traced L' c hs x"
  by (cases x) (simp_all, blast+)

lemma call_traced_mono:
  "call_traced conns L c j x \<Longrightarrow> hello_kept conns conns' \<Longrightarrow> L \<subseteq> L' \<Longrightarrow> call_traced conns' L' c j x"
  by (cases x) (auto intro: asked_under_mono from_call_mono)

lemma app_traced_upd:
  assumes A: "app_traced n conns L c A" and k: "hello_kept conns conns'" "L \<subseteq> L'"
    and ask: "asked_ok m L' c B" and rep: "replied_ok L' c (bk_handlers (ap_client B))"
    and hs: "bk_handlers (ap_client B) = bk_handlers (ap_client A)"
    and q: "\<And>f. f \<in> set (bk_queue (ap_client B)) \<Longrightarrow> f \<in> set (bk_queue (ap_client A)) \<or> up_ok L' c f"
    and d: "\<And>d x. ap_dispatches B d = Some x \<Longrightarrow>
      ap_dispatches A d = Some x \<or> dispatch_traced L' c (bk_handlers (ap_client A)) x"
    and p: "\<And>r j. dm_get (bk_pending (ap_client B)) r = Some j \<Longrightarrow>
      dm_get (bk_pending (ap_client A)) r = Some j \<or> asked_under L' c j r"
    and o: "\<And>j resp. ap_oneshots B j = Some resp \<Longrightarrow> ap_oneshots A j = Some resp \<or>
      asked_under L' c j (rsp_req_id resp) \<and> from_call conns' L' c (rsp_req_id resp) (rsp_result resp)"
    and x: "\<And>j x. ap_calls B j = Some x \<Longrightarrow> ap_calls A j = Some x \<or> call_traced conns' L' c j x"
  shows "app_traced m conns' L' c B"
  unfolding app_traced_def
proof (intro conjI allI ballI impI)
  show "up_ok L' c f" if "f \<in> set (bk_queue (ap_client B))" for f
    using A q [OF that] up_ok_mono [OF _ k(2)] unfolding app_traced_def by blast
  show "dispatch_traced L' c (bk_handlers (ap_client B)) y" if "ap_dispatches B i = Some y" for i y
    using A d [OF that] dispatch_traced_mono [OF _ k(2)] unfolding app_traced_def hs by blast
  show "asked_under L' c j r" if "dm_get (bk_pending (ap_client B)) r = Some j" for j r
    using A p [OF that] asked_under_mono [OF _ k(2)] unfolding app_traced_def by blast
  show "asked_under L' c j (rsp_req_id resp)" if "ap_oneshots B j = Some resp" for j resp
    using A o [OF that] asked_under_mono [OF _ k(2)] unfolding app_traced_def by blast
  show "from_call conns' L' c (rsp_req_id resp) (rsp_result resp)" if "ap_oneshots B j = Some resp" for j resp
    using A o [OF that] from_call_mono [OF _ k] unfolding app_traced_def by blast
  show "call_traced conns' L' c j y" if "ap_calls B j = Some y" for j y
    using A x [OF that] call_traced_mono [OF _ k] unfolding app_traced_def by blast
qed (rule ask, rule rep)

text \<open>What does not concern an app's own requests and replies keeps its part.\<close>

lemma asked_ok_keep:
  assumes "asked_ok n L c A" "n \<le> m" "\<And>j v. Asked c j v \<in> L' \<Longrightarrow> Asked c j v \<in> L"
    "bk_next_req_id (ap_client B) = bk_next_req_id (ap_client A)" "ap_n_calls B = ap_n_calls A"
  shows "asked_ok m L' c B"
  using assms unfolding asked_ok_def by (metis (no_types, lifting) Suc_le_mono le_trans)

lemma replied_ok_keep:
  assumes "replied_ok L c hs" "L \<subseteq> L'" "\<And>q hr res. Replied c q hr res \<in> L' \<Longrightarrow> Replied c q hr res \<in> L"
  shows "replied_ok L' c hs"
  using assms unfolding replied_ok_def by (meson subsetD)

lemma app_traced_ok: "app_traced n conns L c A \<Longrightarrow> asked_ok n L c A"
  "app_traced n conns L c A \<Longrightarrow> replied_ok L c (bk_handlers (ap_client A))"
  by (simp_all add: app_traced_def)

lemma app_traced_mono:
  assumes "app_traced n conns L c A" "hello_kept conns conns'" "L \<subseteq> L'" "n \<le> m"
    "\<And>j v. Asked c j v \<in> L' \<Longrightarrow> Asked c j v \<in> L" "\<And>q hr res. Replied c q hr res \<in> L' \<Longrightarrow> Replied c q hr res \<in> L"
  shows "app_traced m conns' L' c A"
  by (rule app_traced_upd [OF assms(1-3)
        asked_ok_keep [OF app_traced_ok(1) [OF assms(1)] assms(4,5)]
        replied_ok_keep [OF app_traced_ok(2) [OF assms(1)] assms(3,6)]]) auto

subsection \<open>The steps of an app\<close>

lemma client_send_queue:
  "f \<in> set (bk_queue (fst (client_send g k))) \<Longrightarrow> f \<in> set (bk_queue k) \<or> f = g"
  by (auto simp: client_send_def split: if_splits)

lemma app_traced_invoke:
  assumes "app_traced n conns L c A" "n < 2 ^ 64 - 2"
  shows "app_traced (Suc n) conns (L \<union> app_events c (AppInvoke sv m p cl) A) c (client_invoke sv m p cl A)"
proof -
  let ?r = "bk_next_req_id (ap_client A)" and ?i = "ap_n_calls A"
  let ?v = "\<lparr>inv_req_id = ?r, inv_method = sv @ ''.'' @ m, inv_payload = p, inv_caller = cl\<rparr>"
  let ?L = "insert (Asked c ?i ?v) L" and ?B = "client_invoke sv m p cl A"
  note ok = app_traced_ok [OF assms(1)]
  have r: "unat (?r + 1) = Suc (unat ?r)"
    using ok(1) assms(2) by (subst unat_Suc_u64) (auto simp: asked_ok_def)
  have views: "bk_next_req_id (ap_client ?B) = ?r + 1" "ap_n_calls ?B = Suc ?i"
    "bk_pending (ap_client ?B) = dm_insert ?r ?i (bk_pending (ap_client A))"
    "bk_handlers (ap_client ?B) = bk_handlers (ap_client A)" "ap_dispatches ?B = ap_dispatches A"
    "ap_oneshots ?B = ap_oneshots A"
    by (simp_all add: client_invoke_def Let_def case_prod_unfold)
  have new: "asked_under ?L c ?i ?r" unfolding asked_under_def by (intro exI [of _ ?v]) simp
  have "app_traced (Suc n) conns ?L c ?B"
  proof (rule app_traced_upd [OF assms(1) hello_kept_refl subset_insertI])
    have old: "unat (inv_req_id v) < unat ?r \<and> j < ?i" if "Asked c j v \<in> L" for j v
      using ok(1) that by (simp add: asked_ok_def)
    have uniq: "j = i \<and> v = w" if "Asked c j v \<in> L" "Asked c i w \<in> L" "j = i \<or> inv_req_id v = inv_req_id w" for i j v w
      using ok(1) that unfolding asked_ok_def by blast
    show "asked_ok (Suc n) ?L c ?B"
      unfolding asked_ok_def views r using ok(1) [unfolded asked_ok_def, THEN conjunct1]
      by (auto dest: old) (use uniq in blast)+
    show "replied_ok ?L c (bk_handlers (ap_client ?B))"
      using replied_ok_keep [OF ok(2), of ?L] by (simp add: views subset_insertI)
    show "f \<in> set (bk_queue (ap_client A)) \<or> up_ok ?L c f" if "f \<in> set (bk_queue (ap_client ?B))" for f
      using that by (auto simp: client_invoke_def Let_def case_prod_unfold dest!: client_send_queue)
    show "ap_calls A j = Some x \<or> call_traced conns ?L c j x" if "ap_calls ?B j = Some x" for j x
      using that new by (auto simp: client_invoke_def Let_def case_prod_unfold split: if_splits)
  qed (use new in \<open>auto simp: views split: if_splits\<close>)
  then show ?thesis by simp
qed

lemma app_traced_response:
  assumes "app_traced n conns L c A" "from_call conns L c (rsp_req_id resp) (rsp_result resp)"
  shows "app_traced (Suc n) conns L c (client_response resp A)"
proof (rule app_traced_upd [OF assms(1) hello_kept_refl order_refl])
  have "asked_under L c j (rsp_req_id resp)" if "dm_get (bk_pending (ap_client A)) (rsp_req_id resp) = Some j" for j
    using assms(1) that unfolding app_traced_def by blast
  then show "ap_oneshots A j = Some x \<or> asked_under L c j (rsp_req_id x) \<and> from_call conns L c (rsp_req_id x) (rsp_result x)"
    if "ap_oneshots (client_response resp A) j = Some x" for j x
    using that assms(2) by (auto simp: client_response_def split: option.splits if_splits)
  show "asked_ok (Suc n) L c (client_response resp A)"
    by (rule asked_ok_keep [OF app_traced_ok(1) [OF assms(1)]]) (auto simp: client_response_def split: option.splits)
  show "replied_ok L c (bk_handlers (ap_client (client_response resp A)))"
    using app_traced_ok(2) [OF assms(1)] by (auto simp: client_response_def split: option.splits)
qed (auto simp: client_response_def split: option.splits if_splits)

text \<open>A step that changes neither the app's requests nor its replies.\<close>

lemma app_traced_step:
  assumes "app_traced n conns L c A"
    and "bk_next_req_id (ap_client B) = bk_next_req_id (ap_client A)" "ap_n_calls B = ap_n_calls A"
      "bk_handlers (ap_client B) = bk_handlers (ap_client A)" "bk_pending (ap_client B) = bk_pending (ap_client A)"
      "ap_oneshots B = ap_oneshots A"
    and "\<And>f. f \<in> set (bk_queue (ap_client B)) \<Longrightarrow> f \<in> set (bk_queue (ap_client A)) \<or> up_ok L c f"
    and "\<And>d x. ap_dispatches B d = Some x \<Longrightarrow>
      ap_dispatches A d = Some x \<or> dispatch_traced L c (bk_handlers (ap_client A)) x"
    and "\<And>j x. ap_calls B j = Some x \<Longrightarrow> ap_calls A j = Some x \<or> call_traced conns L c j x"
  shows "app_traced (Suc n) conns L c B"
  using assms(2-) app_traced_ok(2) [OF assms(1)]
  by (intro app_traced_upd [OF assms(1) hello_kept_refl order_refl]
      asked_ok_keep [OF app_traced_ok(1) [OF assms(1)]]) auto

text \<open>A step of a dispatch task that replies.\<close>

lemma app_traced_reply:
  assumes "app_traced n conns L c A" "Relayed i og c v \<in> L" "inv_req_id v = q"
    and "case hr of
        None \<Rightarrow> \<exists>e. res = Inl e
      | Some (h, req) \<Rightarrow>
          req = \<lparr>ir_payload = inv_payload v, ir_caller = inv_caller v\<rparr> \<and>
          dm_get (bk_handlers (ap_client A)) (inv_method v) = Some h"
  shows "app_traced (Suc n) conns (insert (Replied c q hr res) L) c
           (reply_to q res (A\<lparr>ap_dispatches := (ap_dispatches A)(d \<mapsto> Answered)\<rparr>))"
    (is "app_traced _ _ ?L _ ?B")
proof (rule app_traced_upd [OF assms(1) hello_kept_refl subset_insertI])
  show "asked_ok (Suc n) ?L c ?B"
    by (rule asked_ok_keep [OF app_traced_ok(1) [OF assms(1)]]) (auto simp: reply_to_def)
  have "replied_ok ?L c (bk_handlers (ap_client A))"
    using app_traced_ok(2) [OF assms(1)] assms(2-4) unfolding replied_ok_def by (auto 0 4)
  then show "replied_ok ?L c (bk_handlers (ap_client ?B))" by (simp add: reply_to_def)
qed (auto simp: reply_to_def split: if_splits dest!: client_send_queue)

lemma client_shutdown_views:
  "bk_next_req_id (ap_client (client_shutdown A)) = bk_next_req_id (ap_client A)"
  "bk_handlers (ap_client (client_shutdown A)) = bk_handlers (ap_client A)"
  "bk_pending (ap_client (client_shutdown A)) = bk_pending (ap_client A)"
  "bk_queue (ap_client (client_shutdown A)) = bk_queue (ap_client A)"
  "ap_n_calls (client_shutdown A) = ap_n_calls A" "ap_oneshots (client_shutdown A) = ap_oneshots A"
  "ap_dispatches (client_shutdown A) = ap_dispatches A" "ap_calls (client_shutdown A) = ap_calls A"
  by (simp_all add: client_shutdown_def)

lemma app_traced_inbound:
  assumes "app_traced n conns L c A" "\<And>f. inbound = Inr (Some f) \<Longrightarrow> down_ok conns L c f"
  shows "app_traced (Suc n) conns L c (connection_inbound inbound A)"
proof -
  have ended: "app_traced (Suc n) conns L c (connection_end A)"
    by (rule app_traced_step [OF assms(1)]) (auto simp: connection_end_def client_shutdown_views Let_def)
  have "app_traced (Suc n) conns L c (handle_inbound f A)" if f: "down_ok conns L c f" for f
  proof (cases f)
    case (Response resp)
    with f app_traced_response [OF assms(1)] show ?thesis by simp
  next
    case (Invoke v)
    with f have "\<exists>i og. Relayed i og c v \<in> L" by simp
    then have new: "dispatch_traced L c hs (Queued v)" for hs by simp
    show ?thesis unfolding Invoke
      by (rule app_traced_step [OF assms(1)])
        (use new in \<open>auto simp: record_activity_def Let_def simp del: dispatch_traced.simps split: if_splits\<close>)
  next
    case Ping
    show ?thesis unfolding Ping
      by (rule app_traced_step [OF assms(1)]) (auto dest!: client_send_queue)
  qed (use app_traced_mono [OF assms(1) hello_kept_refl order_refl, of "Suc n"] in
      \<open>auto intro!: app_traced_step [OF assms(1)] simp: client_shutdown_views\<close>)
  with ended assms(2) show ?thesis by (auto simp: connection_inbound_def split: sum.splits option.splits)
qed

lemma app_traced_exec:
  assumes "app_traced n conns L c A" "n < 2 ^ 64 - 2" "app_exec a A = Some B"
    and "\<And>f. a = AppInbound (Inr (Some f)) \<Longrightarrow> down_ok conns L c f"
  shows "app_traced (Suc n) conns (L \<union> app_events c a A) c B"
proof (cases a)
  case (AppInvoke sv m p cl)
  with assms(3) app_traced_invoke [OF assms(1,2)] show ?thesis by auto
next
  case (AppPublish topic payload)
  with assms(3) show ?thesis
    by (auto simp: publish_snd intro!: app_traced_step [OF assms(1)] dest!: client_send_queue)
next
  case (AppSubscribe p)
  with assms(3) show ?thesis
    by (auto simp: subscribe_snd intro!: app_traced_step [OF assms(1)] dest!: client_send_queue)
next
  case AppShutdown
  with assms(3) show ?thesis
    by (auto simp: client_shutdown_views intro!: app_traced_step [OF assms(1)])
next
  case (AppInbound inbound)
  with assms(3,4) app_traced_inbound [OF assms(1)] show ?thesis by (auto split: if_splits)
next
  case (AppWriter ok)
  with assms(3) show ?thesis
    by (auto intro!: app_traced_step [OF assms(1)] split: if_splits dest: list.set_sel(2) [rotated])
next
  case (AppCallReady i)
  with assms(3) obtain r resp where i: "ap_calls A i = Some (CallWaiting r)" "ap_oneshots A i = Some resp"
    "B = A\<lparr>ap_calls := (ap_calls A)(i \<mapsto> CallDone (rsp_result resp))\<rparr>"
    by (auto split: option.splits app_call.splits)
  have "asked_under L c i (rsp_req_id resp)" "from_call conns L c (rsp_req_id resp) (rsp_result resp)"
    using assms(1) i(2) unfolding app_traced_def by blast+
  then have "call_traced conns L c i (CallDone (rsp_result resp))" by auto
  with AppCallReady i(3) show ?thesis
    by (auto intro!: app_traced_step [OF assms(1)] simp del: call_traced.simps split: if_splits)
next
  case (AppCallClosed i)
  with assms(3) obtain r where i: "ap_calls A i = Some (CallWaiting r)"
    "B = A\<lparr>ap_calls := (ap_calls A)(i \<mapsto> CallDone (Inl ConnectionClosed))\<rparr>"
    by (auto split: option.splits app_call.splits if_splits)
  have "call_traced conns L c i (CallWaiting r)"
    using assms(1) i(1) unfolding app_traced_def by blast
  with AppCallClosed i(2) show ?thesis
    by (auto intro!: app_traced_step [OF assms(1)] split: if_splits)
next
  case (DispatchStart d)
  with assms(3) obtain v where v: "ap_dispatches A d = Some (Queued v)" "B = dispatch_start d v A"
    by (auto split: option.splits dispatch.splits)
  have "dispatch_traced L c (bk_handlers (ap_client A)) (Queued v)"
    using assms(1) v(1) unfolding app_traced_def by blast
  then obtain i og where rel: "Relayed i og c v \<in> L" by auto
  show ?thesis
  proof (cases "dm_get (bk_handlers (ap_client A)) (inv_method v)")
    case None
    from app_traced_reply [OF assms(1) rel refl, where hr = None and d = d
        and res = "Inl (MethodNotFound (bk_service (ap_client A)) (inv_method v))"]
    show ?thesis using DispatchStart v None by (simp add: dispatch_start_def reply_to_def)
  next
    case (Some h)
    have new: "dispatch_traced L c (bk_handlers (ap_client A))
        (Running h \<lparr>ir_payload = inv_payload v, ir_caller = inv_caller v\<rparr> (inv_req_id v) ctx)" for ctx
      using rel Some by auto
    have "app_traced (Suc n) conns L c B"
      by (rule app_traced_step [OF assms(1)])
        (use v Some new in \<open>auto simp: dispatch_start_def scope_user_id_def simp del: dispatch_traced.simps split: if_splits\<close>)
    with DispatchStart v Some show ?thesis by simp
  qed
next
  case (HandlerReturns d res)
  with assms(3) obtain h req q ctx where d: "ap_dispatches A d = Some (Running h req q ctx)"
    "B = reply_to q res (A\<lparr>ap_dispatches := (ap_dispatches A)(d \<mapsto> Answered)\<rparr>)"
    by (auto split: option.splits dispatch.splits)
  have "dispatch_traced L c (bk_handlers (ap_client A)) (Running h req q ctx)"
    using assms(1) d(1) unfolding app_traced_def by blast
  then obtain i og v where v: "Relayed i og c v \<in> L" "inv_req_id v = q"
    "req = \<lparr>ir_payload = inv_payload v, ir_caller = inv_caller v\<rparr>"
    "dm_get (bk_handlers (ap_client A)) (inv_method v) = Some h" by auto
  from app_traced_reply [OF assms(1) v(1,2), where hr = "Some (h, req)" and res = res and d = d] v(3,4) HandlerReturns d show ?thesis by simp
next
  case RunStart
  with assms(3) show ?thesis by (auto intro!: app_traced_step [OF assms(1)])
next
  case (IdlePoll w)
  with assms(3) show ?thesis
    by (auto simp: idle_poll_def intro!: app_traced_step [OF assms(1)] split: option.splits run_wait.splits if_splits)
next
  case (Tick ns)
  with assms(3) show ?thesis by (auto intro!: app_traced_step [OF assms(1)])
qed

subsection \<open>The steps of the system\<close>

lemma bus_inv_mono: "bus_inv n s \<Longrightarrow> n \<le> m \<Longrightarrow> bus_inv m s"
  unfolding bus_inv_def using conn_inv_mono call_inv_frame by blast

lemma net_invD:
  assumes "net_inv n (s, L)"
  shows "bus_inv n (nt_bus s)" "bus_traced L (nt_bus s)"
    "nt_apps s c = Some A \<Longrightarrow> app_traced n (bus_conns (nt_bus s)) L c A"
    "nt_apps s c = None \<Longrightarrow> Asked c j v \<notin> L" "nt_apps s c = None \<Longrightarrow> Replied c q hr res \<notin> L"
    "f \<in> set (nt_up s c) \<Longrightarrow> up_ok L c f"
    "f \<in> set (nt_down s c) \<Longrightarrow> down_ok (bus_conns (nt_bus s)) L c f"
  using assms unfolding net_inv_def by auto

lemma bus_events_own [simp]: "Asked c j v \<notin> bus_events a s t" "Replied c q hr res \<notin> bus_events a s t"
  by (cases a; auto split: option.splits task.splits call_wait.splits)+

lemma app_events_own:
  "Asked d j v \<in> app_events c a A \<Longrightarrow> d = c" "Replied d q hr res \<in> app_events c a A \<Longrightarrow> d = c"
  "Relayed i og d v \<notin> app_events c a A"
  by (cases a; auto split: option.splits dispatch.splits if_splits)+

text \<open>A step of the broker, with what it takes from and puts on the streams.\<close>

lemma net_inv_bus:
  assumes "net_inv n (s, L)" "n < 2 ^ 64 - 2" "bus_exec json a (nt_bus s) = Some b"
    and in_: "\<And>c f. a = Inbound c (Inr (Some f)) \<Longrightarrow> f \<in> set (nt_up s c)"
    and up: "\<And>c f. f \<in> set (up c) \<Longrightarrow> f \<in> set (nt_up s c)"
    and down: "\<And>c f. f \<in> set (down c) \<Longrightarrow> f \<in> set (nt_down s c) \<or> f \<in> set (cl_queue (bus_cells (nt_bus s) c)) \<or> (\<exists>h. f = HelloAck h)"
  shows "net_inv (Suc n) (s\<lparr>nt_bus := b, nt_up := up, nt_down := down\<rparr>, L \<union> bus_events a (nt_bus s) b)"
proof -
  let ?L = "L \<union> bus_events a (nt_bus s) b"
  note inv = net_invD [OF assms(1)]
  have "conn_inv n (nt_bus s)" using inv(1) by (simp add: bus_inv_def)
  note kept = bus_conns_exec [OF this assms(2,3)]
  have L: "L \<subseteq> ?L" by blast
  have "bus_traced ?L b" using bus_traced_exec [OF inv(2,1) assms(2,3)] in_ inv(6) by blast
  moreover have "bus_inv (Suc n) b" by (rule bus_inv_exec [OF inv(1) assms(2,3)])
  moreover have "app_traced (Suc n) (bus_conns b) ?L c A" if "nt_apps s c = Some A" for c A
    using inv(3) [OF that] by (rule app_traced_mono [OF _ kept L]) auto
  moreover have "up_ok ?L c f" if "f \<in> set (up c)" for c f
    using inv(6) [OF up [OF that]] L by (rule up_ok_mono)
  moreover have "down_ok (bus_conns b) ?L c f" if "f \<in> set (down c)" for c f
  proof -
    from inv(2) have "f \<in> set (cl_queue (bus_cells (nt_bus s) c)) \<Longrightarrow> down_ok (bus_conns (nt_bus s)) L c f"
      unfolding bus_traced_def by blast
    with down [OF that] inv(7) [of f c] show ?thesis using down_ok_mono [OF _ kept L] by auto
  qed
  ultimately show ?thesis using inv(4,5) by (auto simp: net_inv_def)
qed

text \<open>A step of the app on \<open>c\<close>.\<close>

lemma net_inv_app:
  assumes "net_inv n (s, L)" "n < 2 ^ 64 - 2" "nt_apps s c = Some A" "app_exec a A = Some B"
    and in_: "\<And>f. a = AppInbound (Inr (Some f)) \<Longrightarrow> f \<in> set (nt_down s c)"
    and up: "\<And>d f. f \<in> set (up d) \<Longrightarrow> f \<in> set (nt_up s d) \<or> d = c \<and> f \<in> set (bk_queue (ap_client A))"
    and down: "\<And>d f. f \<in> set (down d) \<Longrightarrow> f \<in> set (nt_down s d)"
  shows "net_inv (Suc n) (s\<lparr>nt_apps := (nt_apps s)(c \<mapsto> B), nt_up := up, nt_down := down\<rparr>, L \<union> app_events c a A)"
proof -
  let ?L = "L \<union> app_events c a A"
  let ?conns = "bus_conns (nt_bus s)"
  note inv = net_invD [OF assms(1)]
  have L: "L \<subseteq> ?L" by blast
  have "bus_traced ?L (nt_bus s)"
    using bus_traced_relayed [OF inv(2)]
    by (intro bus_traced_upd [OF inv(2) hello_kept_refl L]) (auto elim: relayed_ok_same simp: app_events_own(3))
  moreover have "bus_inv (Suc n) (nt_bus s)" by (rule bus_inv_mono [OF inv(1)]) simp
  moreover have "app_traced (Suc n) ?conns ?L c B"
    using app_traced_exec [OF inv(3) [OF assms(3)] assms(2,4)] in_ inv(7) by blast
  moreover have "app_traced (Suc n) ?conns ?L d D" if "nt_apps s d = Some D" "d \<noteq> c" for d D
    using inv(3) [OF that(1)] that(2)
    by (intro app_traced_mono [OF _ hello_kept_refl L, of n]) (auto dest: app_events_own(1,2))
  moreover have "up_ok ?L d f" if "f \<in> set (up d)" for d f
  proof -
    from inv(3) [OF assms(3)] have "f \<in> set (bk_queue (ap_client A)) \<Longrightarrow> up_ok L c f"
      unfolding app_traced_def by blast
    with up [OF that] inv(6) [of f d] show ?thesis using up_ok_mono [OF _ L] by blast
  qed
  moreover have "down_ok ?conns ?L d f" if "f \<in> set (down d)" for d f
    using inv(7) [OF down [OF that]] hello_kept_refl L by (rule down_ok_mono)
  ultimately show ?thesis using inv(4,5) by (auto simp: net_inv_def dest: app_events_own(1,2) split: if_splits)
qed

lemma app_traced_start:
  assumes "\<And>j v. Asked c j v \<notin> L" "\<And>q hr res. Replied c q hr res \<notin> L"
    "establish debug cfg hello handlers written reply now = Inr client"
  shows "app_traced n conns L c (app_start client now)"
  using assms
  by (auto simp: app_traced_def asked_ok_def replied_ok_def app_start_def establish_def client_new_def
      split: sum.splits)

lemma net_inv_establish:
  assumes "net_inv n (s, L)" "nt_apps s c = None"
    "establish debug cfg hello handlers written reply now = Inr client"
    "\<And>d f. f \<in> set (down d) \<Longrightarrow> f \<in> set (nt_down s d)"
  shows "net_inv (Suc n) (s\<lparr>nt_apps := (nt_apps s)(c \<mapsto> app_start client now), nt_down := down\<rparr>, L)"
proof -
  note inv = net_invD [OF assms(1)]
  have "app_traced (Suc n) (bus_conns (nt_bus s)) L c (app_start client now)"
    by (rule app_traced_start [OF inv(4) [OF assms(2)] inv(5) [OF assms(2)] assms(3)])
  moreover have "app_traced (Suc n) (bus_conns (nt_bus s)) L d D" if "nt_apps s d = Some D" for d D
    by (rule app_traced_mono [OF inv(3) [OF that] hello_kept_refl order_refl]) auto
  moreover have "bus_inv (Suc n) (nt_bus s)" by (rule bus_inv_mono [OF inv(1)]) simp
  ultimately show ?thesis using inv(2,4-7) assms(4) by (auto simp: net_inv_def)
qed

lemma writer_head:
  "bus_exec json (WriterStep c ok) s = Some t \<Longrightarrow> hd (cl_queue (bus_cells s c)) \<in> set (cl_queue (bus_cells s c))"
  by (auto split: option.splits if_splits)

lemma app_writer_head:
  "app_exec (AppWriter ok) A = Some B \<Longrightarrow> hd (bk_queue (ap_client A)) \<in> set (bk_queue (ap_client A))"
  by (auto split: if_splits)

lemma push_in: "f \<in> set (push c ok g streams d) \<Longrightarrow> f \<in> set (streams d) \<or> d = c \<and> f = g"
  by (auto simp: push_def split: if_splits)

lemma lost_no_frame [simp]: "lost e \<noteq> Inr (Some f)"
  by (simp add: lost_def split: option.splits)

lemma net_bus_same: "s\<lparr>nt_bus := b, nt_up := nt_up s, nt_down := nt_down s\<rparr> = s\<lparr>nt_bus := b\<rparr>"
  "s\<lparr>nt_bus := b, nt_up := nt_up s, nt_down := down\<rparr> = s\<lparr>nt_bus := b, nt_down := down\<rparr>"
  "s\<lparr>nt_bus := b, nt_up := up, nt_down := nt_down s\<rparr> = s\<lparr>nt_bus := b, nt_up := up\<rparr>"
  "s\<lparr>nt_apps := apps, nt_up := nt_up s, nt_down := nt_down s\<rparr> = s\<lparr>nt_apps := apps\<rparr>"
  "s\<lparr>nt_apps := apps, nt_up := nt_up s, nt_down := down\<rparr> = s\<lparr>nt_apps := apps, nt_down := down\<rparr>"
  "s\<lparr>nt_apps := apps, nt_up := up, nt_down := nt_down s\<rparr> = s\<lparr>nt_apps := apps, nt_up := up\<rparr>"
  by simp_all

lemma net_inv_exec:
  assumes "net_inv n x" "n < 2 ^ 64 - 2" "net_log json debug a x = Some y"
  shows "net_inv (Suc n) y"
proof (cases x)
  case (Pair s L)
  with assms(3) obtain t where t: "net_exec json debug a s = Some t" "y = (t, L \<union> net_events a s t)"
    by (auto simp: net_log_def)
  note inv = assms(1) [unfolded Pair]
  note bus = net_inv_bus [OF inv assms(2)] and app = net_inv_app [OF inv assms(2)]
  show ?thesis
  proof (cases a)
    case (NetBus b)
    with t(1) obtain u where u: "bus_exec json b (nt_bus s) = Some u" "t = s\<lparr>nt_bus := u\<rparr>" "\<not> bus_on_wire b"
      by (auto split: if_splits)
    from bus [OF u(1), of "nt_up s" "nt_down s"] u(3) NetBus u(2) t(2) show ?thesis
      by (cases b) (simp_all add: net_bus_same del: bus_exec.simps bus_events.simps)
  next
    case (NetAckWrite c ok)
    with t(1) obtain k u where u: "bus_exec json (AckWrite c ok) (nt_bus s) = Some u"
      "t = s\<lparr>nt_bus := u, nt_down := push c ok (ack_frame (bus_broker (nt_bus s)) k) (nt_down s)\<rparr>"
      by (auto simp del: bus_exec.simps split: option.splits)
    from bus [OF u(1), of "nt_up s" "push c ok (ack_frame (bus_broker (nt_bus s)) k) (nt_down s)"] NetAckWrite u(2) t(2)
    show ?thesis by (auto simp: net_bus_same ack_frame_def dest!: push_in)
  next
    case (NetBusWrite c ok)
    let ?down = "push c ok (hd (cl_queue (bus_cells (nt_bus s) c))) (nt_down s)"
    from NetBusWrite t(1) obtain u where u: "bus_exec json (WriterStep c ok) (nt_bus s) = Some u"
      "t = s\<lparr>nt_bus := u, nt_down := ?down\<rparr>" by (auto simp del: bus_exec.simps)
    from bus [OF u(1), of "nt_up s" ?down] writer_head [OF u(1)] NetBusWrite u(2) t(2)
    show ?thesis by (auto simp: net_bus_same dest!: push_in)
  next
    case (NetBusRead c)
    with t(1) obtain f fs u where u: "bus_exec json (Inbound c (Inr (Some f))) (nt_bus s) = Some u"
      "nt_up s c = f # fs" "t = s\<lparr>nt_bus := u, nt_up := (nt_up s)(c := fs)\<rparr>"
      by (auto simp del: bus_exec.simps split: list.splits)
    from bus [OF u(1), of "(nt_up s)(c := fs)" "nt_down s"] NetBusRead u(2,3) t(2)
    show ?thesis by (auto simp: net_bus_same split: if_splits)
  next
    case (NetBusLost c e)
    with t(1) obtain u where u: "bus_exec json (Inbound c (lost e)) (nt_bus s) = Some u" "t = s\<lparr>nt_bus := u\<rparr>"
      by (auto simp del: bus_exec.simps)
    from bus [OF u(1), of "nt_up s" "nt_down s"] NetBusLost u(2) t(2) show ?thesis
      by (simp add: net_bus_same)
  next
    case (NetEstablish c cfg handlers now)
    with t(1) obtain k f fs where k: "nt_apps s c = None" "bus_conns (nt_bus s) c = Some k" "nt_down s c = f # fs"
      by (auto split: option.splits list.splits)
    with t(1) NetEstablish obtain client where
      u: "establish debug cfg (cn_hello k) handlers (Inr ()) (Inr (Some f)) now = Inr client"
      "t = s\<lparr>nt_apps := (nt_apps s)(c \<mapsto> app_start client now), nt_down := (nt_down s)(c := fs)\<rparr>"
      by (auto split: sum.splits)
    from net_inv_establish [OF inv k(1) u(1), of "(nt_down s)(c := fs)"] k(3) u(2) t(2) NetEstablish show ?thesis
      by (auto split: if_splits)
  next
    case (NetApp c b)
    with t(1) obtain A B where u: "nt_apps s c = Some A" "app_exec b A = Some B" "\<not> app_on_wire b"
      "t = s\<lparr>nt_apps := (nt_apps s)(c \<mapsto> B)\<rparr>" by (auto split: if_splits option.splits)
    from app [OF u(1,2), of "nt_up s" "nt_down s"] u(1,3,4) NetApp t(2) show ?thesis
      by (cases b) (simp_all add: net_bus_same del: app_exec.simps app_events.simps)
  next
    case (NetAppWrite c ok)
    with t(1) obtain A B where u: "nt_apps s c = Some A" "app_exec (AppWriter ok) A = Some B"
      "t = s\<lparr>nt_apps := (nt_apps s)(c \<mapsto> B), nt_up := push c ok (hd (bk_queue (ap_client A))) (nt_up s)\<rparr>"
      by (auto simp del: app_exec.simps split: option.splits)
    from app [OF u(1,2), of "push c ok (hd (bk_queue (ap_client A))) (nt_up s)" "nt_down s"] app_writer_head [OF u(2)]
      u(3) NetAppWrite t(2) show ?thesis by (auto simp: net_bus_same dest!: push_in)
  next
    case (NetAppRead c)
    with t(1) obtain A B f fs where u: "nt_apps s c = Some A" "app_exec (AppInbound (Inr (Some f))) A = Some B"
      "nt_down s c = f # fs" "t = s\<lparr>nt_apps := (nt_apps s)(c \<mapsto> B), nt_down := (nt_down s)(c := fs)\<rparr>"
      by (auto simp del: app_exec.simps split: option.splits list.splits)
    from app [OF u(1,2), of "nt_up s" "(nt_down s)(c := fs)"] u(3,4) NetAppRead t(2) show ?thesis
      by (auto simp: net_bus_same split: if_splits)
  next
    case (NetAppLost c e)
    with t(1) obtain A B where u: "nt_apps s c = Some A" "app_exec (AppInbound (lost e)) A = Some B"
      "t = s\<lparr>nt_apps := (nt_apps s)(c \<mapsto> B)\<rparr>" by (auto simp del: app_exec.simps split: option.splits)
    from app [OF u(1,2), of "nt_up s" "nt_down s"] u(3) NetAppLost t(2) show ?thesis by (simp add: net_bus_same)
  qed
qed

lemma net_inv_init: "net_inv 0 (net_init config, {})"
  by (simp add: net_inv_def net_init_def bus_inv_init bus_traced_init)

interpretation net: guarded_system "net_log json debug" net_inv "2 ^ 64 - 2" "(net_init config, {})"
  for json debug config
  by unfold_locales (rule net_inv_exec, assumption+, rule net_inv_init)

subsection \<open>A run\<close>

lemma demo_net_result:
  "map_option (\<lambda>x. map_option (\<lambda>A. ap_calls A 0) (nt_apps (fst x) 0))
     (run_actions (net_log demo_json (\<lambda>_. [])) demo_net (net_init broker_config_default, {})) =
   Some (Some (Some (CallDone (Inr [9]))))"
  by (simp add: demo_net_def net_log_def net_init_def demo_eval push_def ack_frame_def establish_def hello_reply_def
      client_new_def app_start_def client_invoke_def client_send_def connection_inbound_def client_response_def
      record_activity_def dispatch_start_def scope_user_id_def reply_to_def deliver_response_def resume_task_def
      finish_task_def stamp_caller_def invoke_of_def str_simps)

lemma demo_net_returns:
  "\<exists>s L A. run_actions (net_log demo_json (\<lambda>_. [])) demo_net (net_init broker_config_default, {}) = Some (s, L) \<and>
     nt_apps s 0 = Some A \<and> ap_calls A 0 = Some (CallDone (Inr [9]))"
  using demo_net_result by (auto simp: map_option_eq_Some)

section \<open>Theorems\<close>

text \<open>
  C1. Whatever the interleaving of broker and apps, and whatever connections are lost: if a call that
  an app made with \<open>invoke\<close> has returned bytes, the app asked for it (call \<open>j\<close>, with the frame \<open>v\<close>),
  and either an app connected under the service that the call names ran the handler it registered
  for the method, on the payload asked with and for the caller asked with (stamped with the asking
  app's service), and that handler returned these bytes; or the broker's local handler of the service
  did. The service is what stands before the first dot of \<open>service.method\<close>.
\<close>

theorem call_result_authentic:
  assumes run: "run_actions (net_log json debug) as (net_init config, {}) = Some (s, L)" "length as \<le> 2 ^ 64 - 2"
    and "nt_apps s c = Some A" "ap_calls A j = Some (CallDone (Inr bs))"
  shows "\<exists>v sv target m.
    Asked c j v \<in> L \<and> service_of (bus_conns (nt_bus s)) c sv \<and>
    split_once (inv_method v) (CHR ''.'') = Some (target, m) \<and>
    ((\<exists>d D h q. service_of (bus_conns (nt_bus s)) d target \<and> nt_apps s d = Some D \<and>
        dm_get (bk_handlers (ap_client D)) m = Some h \<and>
        Replied d q (Some (h, \<lparr>ir_payload = inv_payload v, ir_caller = stamp_caller sv (inv_caller v)\<rparr>)) (Inr bs) \<in> L) \<or>
     (\<exists>h. LocalAnswered target h m (inv_payload v) (stamp_caller sv (inv_caller v)) (Inr bs) \<in> L))"
proof -
  have inv: "net_inv (length as) (s, L)" using run by (intro net.inv_run)
  note A = net_invD(3) [OF inv assms(3)]
  have "call_traced (bus_conns (nt_bus s)) L c j (CallDone (Inr bs))"
    using A assms(4) unfolding app_traced_def by blast
  then obtain r spec where r: "asked_under L c j r" "asked_as (bus_conns (nt_bus s)) L c r spec"
    "answered (bus_conns (nt_bus s)) L (FromApp c r) spec bs"
    by (auto simp: from_call_def)
  then obtain v i w sv where v: "Asked c j v \<in> L" "inv_req_id v = r" "Asked c i w \<in> L" "inv_req_id w = r"
    "service_of (bus_conns (nt_bus s)) c sv"
    "split_once (inv_method w) (CHR ''.'') = Some (cs_service spec, cs_method spec)"
    "cs_payload spec = inv_payload w" "cs_caller spec = stamp_caller sv (inv_caller w)"
    by (auto simp: asked_under_def asked_as_def)
  have "asked_ok (length as) L c A" by (rule app_traced_ok [OF A])
  with v(1-4) have w: "w = v" unfolding asked_ok_def by blast
  have handled: "\<exists>D h. nt_apps s d = Some D \<and> dm_get (bk_handlers (ap_client D)) (cs_method spec) = Some h \<and>
      hr = Some (h, \<lparr>ir_payload = cs_payload spec, ir_caller = cs_caller spec\<rparr>)"
    if d: "Relayed k og d (invoke_of q spec) \<in> L" "Replied d q hr (Inr bs) \<in> L" for k og d q hr
  proof (cases "nt_apps s d")
    case None
    with net_invD(5) [OF inv] d(2) show ?thesis by blast
  next
    case (Some D)
    from app_traced_ok(2) [OF net_invD(3) [OF inv Some]] d(2) obtain l og' u where
      u: "Relayed l og' d u \<in> L" "inv_req_id u = q"
      "case hr of None \<Rightarrow> False
       | Some (h, req) \<Rightarrow> req = \<lparr>ir_payload = inv_payload u, ir_caller = inv_caller u\<rparr> \<and>
           dm_get (bk_handlers (ap_client D)) (inv_method u) = Some h"
      unfolding replied_ok_def by (fastforce split: option.splits)
    have "inv_req_id (invoke_of q spec) = inv_req_id u" using u(2) by (simp add: invoke_of_def)
    with bus_traced_relayed [OF net_invD(2) [OF inv]] d(1) u(1) have "u = invoke_of q spec"
      unfolding relayed_ok_def by blast
    with u(3) Some show ?thesis by (auto simp: invoke_of_def split: option.splits prod.splits)
  qed
  show ?thesis
  proof (intro exI conjI)
    show "Asked c j v \<in> L" "service_of (bus_conns (nt_bus s)) c sv"
      "split_once (inv_method v) (CHR ''.'') = Some (cs_service spec, cs_method spec)"
      using v w by simp_all
    show "(\<exists>d D h q. service_of (bus_conns (nt_bus s)) d (cs_service spec) \<and> nt_apps s d = Some D \<and>
        dm_get (bk_handlers (ap_client D)) (cs_method spec) = Some h \<and>
        Replied d q (Some (h, \<lparr>ir_payload = inv_payload v, ir_caller = stamp_caller sv (inv_caller v)\<rparr>)) (Inr bs) \<in> L) \<or>
      (\<exists>h. LocalAnswered (cs_service spec) h (cs_method spec) (inv_payload v) (stamp_caller sv (inv_caller v)) (Inr bs) \<in> L)"
      using r(3) handled v(7,8) w unfolding answered_def by metis
  qed
qed

theorem call_result_authentic_witness:
  "\<exists>s L A v m target. run_actions (net_log demo_json (\<lambda>_. [])) demo_net (net_init broker_config_default, {}) = Some (s, L) \<and>
     nt_apps s 0 = Some A \<and> ap_calls A 0 = Some (CallDone (Inr [9])) \<and>
     Asked 0 0 v \<in> L \<and> split_once (inv_method v) (CHR ''.'') = Some (target, m)"
proof -
  from demo_net_returns obtain s L A where run:
    "run_actions (net_log demo_json (\<lambda>_. [])) demo_net (net_init broker_config_default, {}) = Some (s, L)"
    "nt_apps s 0 = Some A" "ap_calls A 0 = Some (CallDone (Inr [9]))" by blast
  have "length demo_net \<le> 2 ^ 64 - 2" by (simp add: demo_net_def)
  from call_result_authentic [OF run(1) this run(2,3)] run show ?thesis by blast
qed

end
