(* ===== verification/At_Most_Once.thy ===== *)
theory At_Most_Once
  imports Network
begin

text \<open>
  How often a call runs. The system of \<open>Network\<close> loses connections, times calls out and answers late,
  but it never repeats: a request is a frame, or a task of its receiver, that every step moves or drops.
  The requests under an id are counted wherever they are on their way (the channel of the broker, the
  stream, the tasks of the app), and a step that starts a handler takes one away; the contract
  \<open>budgeted_system\<close> turns this into a bound for whole runs.

  The theorem: an app uses a request id once, the broker takes a request as a call once, and starts at
  most one handler for each of its calls.
\<close>

section \<open>Definitions\<close>

subsection \<open>Requests on the way\<close>

definition carries :: "u64 \<Rightarrow> bus_frame \<Rightarrow> bool" where
  "carries q f \<longleftrightarrow> (case f of Invoke v \<Rightarrow> inv_req_id v = q | _ \<Rightarrow> False)"

definition in_frames :: "u64 \<Rightarrow> bus_frame list \<Rightarrow> nat" where
  "in_frames q fs = length (filter (carries q) fs)"

definition queued :: "u64 \<Rightarrow> app \<Rightarrow> nat" where
  "queued q A =
     length (filter (\<lambda>k. case ap_dispatches A k of Some (Queued v) \<Rightarrow> inv_req_id v = q | _ \<Rightarrow> False)
       [0..<ap_n_dispatches A])"

text \<open>Requests of the broker under id \<open>q\<close> that the app on \<open>d\<close> has not yet started to handle.\<close>

definition in_flight :: "conn_id \<Rightarrow> u64 \<Rightarrow> net \<Rightarrow> nat" where
  "in_flight d q s =
     in_frames q (cl_queue (bus_cells (nt_bus s) d)) + in_frames q (nt_down s d) +
     (case nt_apps s d of None \<Rightarrow> 0 | Some A \<Rightarrow> queued q A)"

text \<open>Where call \<open>i\<close> was relayed to, and under which ids.\<close>

definition targets :: "call_id \<Rightarrow> net_event set \<Rightarrow> (conn_id \<times> u64) set" where
  "targets i L = {p. \<exists>og d v. Relayed i og d v \<in> L \<and> p = (d, inv_req_id v)}"

definition unserved :: "call_id \<Rightarrow> bus \<Rightarrow> bool" where
  "unserved i s \<longleftrightarrow> (case bus_tasks s i of None \<Rightarrow> True | Some t \<Rightarrow> unstarted t)"

subsection \<open>Executions\<close>

text \<open>An action starts a handler for call \<open>i\<close>: a local one, or one of an app the call was relayed to.\<close>

fun executes :: "call_id \<Rightarrow> net_action \<Rightarrow> net \<times> net_event set \<Rightarrow> net \<times> net_event set \<Rightarrow> nat" where
  "executes i (NetBus (StartTask j)) x y =
     (case bus_tasks (nt_bus (fst y)) j of
        Some (Awaiting og spec (WaitLocal h m p cl)) \<Rightarrow> (if j = i then 1 else 0)
      | _ \<Rightarrow> 0)"
| "executes i (NetApp d (DispatchStart k)) x y =
     (case nt_apps (fst x) d of
        None \<Rightarrow> 0
      | Some A \<Rightarrow>
          (case ap_dispatches A k of
             Some (Queued v) \<Rightarrow>
               (if dm_get (bk_handlers (ap_client A)) (inv_method v) \<noteq> None \<and> (d, inv_req_id v) \<in> targets i (snd x)
                then 1 else 0)
           | _ \<Rightarrow> 0))"
| "executes i a x y = 0"

definition allowance :: "call_id \<Rightarrow> net \<times> net_event set \<Rightarrow> nat" where
  "allowance i x =
     (if unserved i (nt_bus (fst x)) then 1 else 0) + (\<Sum>p \<in> targets i (snd x). in_flight (fst p) (snd p) (fst x))"

text \<open>The app on \<open>c\<close> asks for a call under id \<open>r\<close>.\<close>

fun asks :: "conn_id \<Rightarrow> u64 \<Rightarrow> net_action \<Rightarrow> net \<times> net_event set \<Rightarrow> net \<times> net_event set \<Rightarrow> nat" where
  "asks c r (NetApp d (AppInvoke service m payload caller)) x y =
     (case nt_apps (fst x) d of
        None \<Rightarrow> 0
      | Some A \<Rightarrow> (if d = c \<and> bk_next_req_id (ap_client A) = r then 1 else 0))"
| "asks c r a x y = 0"

definition unasked :: "conn_id \<Rightarrow> u64 \<Rightarrow> net \<times> net_event set \<Rightarrow> nat" where
  "unasked c r x =
     (case nt_apps (fst x) c of
        None \<Rightarrow> 1
      | Some A \<Rightarrow> (if unat (bk_next_req_id (ap_client A)) \<le> unat r then 1 else 0))"

text \<open>The broker takes the request that the app on \<open>c\<close> made under id \<open>r\<close> as a call.\<close>

fun takes :: "conn_id \<Rightarrow> u64 \<Rightarrow> net_action \<Rightarrow> net \<times> net_event set \<Rightarrow> net \<times> net_event set \<Rightarrow> nat" where
  "takes c r (NetBusRead d) x y = (if d = c \<and> carries r (hd (nt_up (fst x) d)) then 1 else 0)"
| "takes c r a x y = 0"

text \<open>What an app has still to send.\<close>

definition unsent :: "u64 \<Rightarrow> app \<Rightarrow> nat" where
  "unsent r A =
     (if unat (bk_next_req_id (ap_client A)) \<le> unat r then 1 else 0) + in_frames r (bk_queue (ap_client A))"

definition untaken :: "conn_id \<Rightarrow> u64 \<Rightarrow> net \<times> net_event set \<Rightarrow> nat" where
  "untaken c r x =
     (case nt_apps (fst x) c of None \<Rightarrow> 1 | Some A \<Rightarrow> unsent r A) + in_frames r (nt_up (fst x) c)"

subsection \<open>What a step moves\<close>

text \<open>Sending call \<open>i\<close> puts one request on the channel it is sent to.\<close>

definition sends :: "conn_id \<Rightarrow> u64 \<Rightarrow> task option \<Rightarrow> nat" where
  "sends d q t =
     (case t of
        Some (Awaiting og spec (WaitRemote h r)) \<Rightarrow> (if sh_pending_out h = d \<and> r = q then 1 else 0)
      | _ \<Rightarrow> 0)"

text \<open>An app starts a handler for a request under \<open>q\<close>.\<close>

definition starts :: "u64 \<Rightarrow> app_action \<Rightarrow> app \<Rightarrow> nat" where
  "starts q a A =
     (case a of
        DispatchStart k \<Rightarrow>
          (case ap_dispatches A k of Some (Queued v) \<Rightarrow> (if inv_req_id v = q then 1 else 0) | _ \<Rightarrow> 0)
      | _ \<Rightarrow> 0)"

definition arrives :: "u64 \<Rightarrow> app_action \<Rightarrow> nat" where
  "arrives q a = (case a of AppInbound (Inr (Some f)) \<Rightarrow> (if carries q f then 1 else 0) | _ \<Rightarrow> 0)"

definition net_starts :: "conn_id \<Rightarrow> u64 \<Rightarrow> net_action \<Rightarrow> net \<Rightarrow> nat" where
  "net_starts d q a s =
     (case a of
        NetApp c b \<Rightarrow> (if c = d then (case nt_apps s d of None \<Rightarrow> 0 | Some A \<Rightarrow> starts q b A) else 0)
      | _ \<Rightarrow> 0)"

definition net_sends :: "conn_id \<Rightarrow> u64 \<Rightarrow> net_action \<Rightarrow> net \<Rightarrow> nat" where
  "net_sends d q a t =
     (case a of NetBus (StartTask i) \<Rightarrow> sends d q (bus_tasks (nt_bus t) i) | _ \<Rightarrow> 0)"

subsection \<open>The invariant\<close>

definition dispatches_ok :: "app \<Rightarrow> bool" where
  "dispatches_ok A \<longleftrightarrow> (\<forall>k \<ge> ap_n_dispatches A. ap_dispatches A k = None)"

definition relays_ok :: "net \<Rightarrow> net_event set \<Rightarrow> bool" where
  "relays_ok s L \<longleftrightarrow>
     (\<forall>i og d v. Relayed i og d v \<in> L \<longrightarrow> \<not> unserved i (nt_bus s)) \<and>
     (\<forall>i og d v og' d' v'. Relayed i og d v \<in> L \<and> Relayed i og' d' v' \<in> L \<longrightarrow> d = d' \<and> v = v')"

definition once_inv :: "nat \<Rightarrow> net \<times> net_event set \<Rightarrow> bool" where
  "once_inv n x \<longleftrightarrow>
     net_inv n x \<and> (\<forall>d A. nt_apps (fst x) d = Some A \<longrightarrow> dispatches_ok A) \<and> relays_ok (fst x) (snd x)"

section \<open>Lemmas\<close>

subsection \<open>Frames\<close>

named_theorems flight

lemma in_frames_simps [simp]:
  "in_frames q [] = 0" "in_frames q (f # fs) = (if carries q f then 1 else 0) + in_frames q fs"
  "in_frames q (fs @ gs) = in_frames q fs + in_frames q gs"
  by (simp_all add: in_frames_def)

lemma carries_simps [simp]:
  "carries q (Invoke v) \<longleftrightarrow> inv_req_id v = q" "\<not> carries q (Response r)" "\<not> carries q (Event e)" "\<not> carries q Shutdown"
  "\<not> carries q Pong" "\<not> carries q Ping" "\<not> carries q (HelloAck h)" "\<not> carries q (Publish e)" "\<not> carries q (Subscribe p)"
  "\<not> carries q (Unsubscribe p)"
  by (simp_all add: carries_def)

lemma in_frames_pos: "0 < in_frames q fs \<Longrightarrow> \<exists>v. Invoke v \<in> set fs \<and> inv_req_id v = q"
  by (induction fs) (auto simp: carries_def split: if_splits bus_frame.splits)

lemma in_frames_hd: "fs \<noteq> [] \<Longrightarrow> in_frames q (tl fs) + (if carries q (hd fs) then 1 else 0) = in_frames q fs"
  by (cases fs) auto

lemma chan_send_flight [flight]:
  "\<not> carries q f \<Longrightarrow> in_frames q (cl_queue (fst (chan_send c f cs) d)) = in_frames q (cl_queue (cs d))"
  by (simp add: chan_send_queue)

lemma finish_task_flight [flight]:
  "in_frames q (cl_queue (bus_cells (finish_task json i og r s) d)) = in_frames q (cl_queue (bus_cells s d))"
  by (simp add: finish_task_def Let_def flight split: origin.splits)

lemma fanout_send_flight: "in_frames q (cl_queue (fanout_send b ev ts cs d)) = in_frames q (cl_queue (cs d))"
  by (induction b ev ts cs rule: fanout_send.induct) (simp_all add: flight split: option.splits)

lemma fanout_flight [flight]: "in_frames q (cl_queue (fanout b sv ev cs d)) = in_frames q (cl_queue (cs d))"
  by (simp add: fanout_def Let_def fanout_send_flight)

lemma shutdown_service_flight [flight]:
  "in_frames q (cl_queue (snd (shutdown_service b sv cs) d)) = in_frames q (cl_queue (cs d))"
  by (simp add: shutdown_service_snd flight split: option.splits)

lemma resume_task_flight [flight]:
  "in_frames q (cl_queue (bus_cells (resume_task json i og spec w wk s) d)) = in_frames q (cl_queue (bus_cells s d))"
  using call_resume_queue [of w "cs_timeout spec" wk "bus_cells s" d]
  by (cases "call_resume w (cs_timeout spec) wk (bus_cells s)") (simp add: resume_task_def flight)

lemma deliver_response_flight [flight]: "cl_queue (bus_cells (deliver_response c r s) d) = cl_queue (bus_cells s d)"
  by (simp add: bus_views)

lemma close_channel_flight: "in_frames q (cl_queue (close_channel c cs d)) \<le> in_frames q (cl_queue (cs d))"
  by (simp add: bus_views)

lemma start_call_flight:
  assumes "conn_inv n s"
  shows "in_frames q (cl_queue (bus_cells (start_call json i og spec s) d)) \<le>
    in_frames q (cl_queue (bus_cells s d)) + sends d q (bus_tasks (start_call json i og spec s) i)"
proof -
  obtain w cs where w: "call_begin (bus_broker s) i (cs_service spec) (cs_method spec) (cs_payload spec)
             (cs_caller spec) (bus_cells s) = (w, cs)" by fastforce
  from call_begin_cases [OF assms w] w show ?thesis
    by (auto simp: start_call_def flight sends_def chan_send_queue invoke_frame_def)
qed

lemma start_task_flight:
  assumes "conn_inv n s" "unstarted t"
  shows "in_frames q (cl_queue (bus_cells (start_task json i t s) d)) \<le>
    in_frames q (cl_queue (bus_cells s d)) + sends d q (bus_tasks (start_task json i t s) i)"
  using assms by (cases t) (auto simp: flight intro: start_call_flight split: option.splits)

lemma inbound_flight:
  "in_frames q (cl_queue (bus_cells (session_inbound c k inbound s) d)) \<le> in_frames q (cl_queue (bus_cells s d))"
  by (auto simp: session_inbound_def session_end_def Let_def flight bus_views
      split: sum.splits option.splits bus_frame.splits)

text \<open>The other actions put no request on a channel.\<close>

lemma bus_flight:
  assumes "bus_exec json a s = Some t" "\<And>i. a \<noteq> StartTask i"
  shows "in_frames q (cl_queue (bus_cells t d)) +
      (if a = WriterStep d True \<and> carries q (hd (cl_queue (bus_cells s d))) then 1 else 0) \<le>
    in_frames q (cl_queue (bus_cells s d))"
proof (cases a)
  case (WriterStep c ok)
  with assms(1) in_frames_hd [of "cl_queue (bus_cells s d)" q] show ?thesis
    by (auto simp: bus_views split: option.splits if_splits)
next
  case (Inbound c inbound)
  with assms(1) inbound_flight show ?thesis by (auto split: option.splits if_splits)
next
  case (StartTask i)
  with assms(2) show ?thesis by blast
qed (use assms(1) in \<open>auto simp: flight bus_views accept_def ack_failed_def ack_written_def Let_def
      split: option.splits task.splits call_wait.splits if_splits prod.splits handshake.splits\<close>)


subsection \<open>The steps of an app\<close>

lemma queued_upd:
  assumes "k < ap_n_dispatches A" "ap_n_dispatches B = ap_n_dispatches A"
    "ap_dispatches B = (ap_dispatches A)(k \<mapsto> x)" "\<And>v. x \<noteq> Queued v"
  shows "queued q B + (case ap_dispatches A k of Some (Queued v) \<Rightarrow> if inv_req_id v = q then 1 else 0 | _ \<Rightarrow> 0) = queued q A"
proof -
  let ?P = "\<lambda>D k. case D k of Some (Queued v) \<Rightarrow> inv_req_id v = q | _ \<Rightarrow> False"
  have split: "[0..<ap_n_dispatches A] = [0..<k] @ k # [Suc k..<ap_n_dispatches A]"
    using assms(1) upt_add_eq_append [of 0 k "ap_n_dispatches A - k"] by (simp add: upt_conv_Cons)
  have "filter (?P (ap_dispatches B)) [0..<k] = filter (?P (ap_dispatches A)) [0..<k]"
    "filter (?P (ap_dispatches B)) [Suc k..<ap_n_dispatches A] = filter (?P (ap_dispatches A)) [Suc k..<ap_n_dispatches A]"
    by (auto simp: assms(3) intro!: filter_cong)
  then show ?thesis
    using assms(4) unfolding queued_def assms(2) split
    by (auto simp: assms(3) split: option.splits dispatch.splits)
qed

lemma queued_same: "ap_n_dispatches B = ap_n_dispatches A \<Longrightarrow> ap_dispatches B = ap_dispatches A \<Longrightarrow> queued q B = queued q A"
  by (simp add: queued_def)

lemma queued_new:
  assumes "ap_n_dispatches B = Suc (ap_n_dispatches A)" "ap_dispatches B = (ap_dispatches A)(ap_n_dispatches A \<mapsto> Queued v)"
  shows "queued q B = queued q A + (if inv_req_id v = q then 1 else 0)"
proof -
  have "filter (\<lambda>k. case ap_dispatches B k of Some (Queued v) \<Rightarrow> inv_req_id v = q | _ \<Rightarrow> False) [0..<ap_n_dispatches A] =
      filter (\<lambda>k. case ap_dispatches A k of Some (Queued v) \<Rightarrow> inv_req_id v = q | _ \<Rightarrow> False) [0..<ap_n_dispatches A]"
    by (auto simp: assms(2) intro!: filter_cong)
  then show ?thesis by (simp add: queued_def assms)
qed

lemma queued_pos: "0 < queued q A \<Longrightarrow> \<exists>k v. ap_dispatches A k = Some (Queued v) \<and> inv_req_id v = q"
proof -
  assume "0 < queued q A"
  then have "filter (\<lambda>k. case ap_dispatches A k of Some (Queued v) \<Rightarrow> inv_req_id v = q | _ \<Rightarrow> False)
      [0..<ap_n_dispatches A] \<noteq> []" unfolding queued_def by simp
  then obtain k where "case ap_dispatches A k of Some (Queued v) \<Rightarrow> inv_req_id v = q | _ \<Rightarrow> False"
    unfolding filter_empty_conv by blast
  then show ?thesis by (auto intro: exI [of _ k] split: option.splits dispatch.splits)
qed

lemma dispatches_known: "dispatches_ok A \<Longrightarrow> ap_dispatches A k = Some x \<Longrightarrow> k < ap_n_dispatches A"
  unfolding dispatches_ok_def by (metis not_le option.distinct(1))

lemma app_flight:
  assumes "app_exec a A = Some B" "dispatches_ok A"
  shows "queued q B + starts q a A \<le> queued q A + arrives q a"
proof (cases a)
  case (AppInbound inbound)
  with assms(1) have B: "B = connection_inbound inbound A" by (auto split: if_splits)
  have "queued q B \<le> queued q A + arrives q a"
  proof (cases "\<exists>f. inbound = Inr (Some f)")
    case True
    then obtain f where f: "inbound = Inr (Some f)" by blast
    show ?thesis
    proof (cases f)
      case (Invoke v)
      with B f AppInbound queued_new [of B A v q] show ?thesis
        by (simp add: connection_inbound_def record_activity_def Let_def arrives_def)
    qed (use B f AppInbound in \<open>auto simp: connection_inbound_def client_response_def client_shutdown_views client_shutdown_def
        intro!: trans_le_add1 eq_imp_le [OF queued_same] split: option.splits\<close>)
  next
    case False
    with B AppInbound show ?thesis
      by (auto simp: connection_inbound_def connection_end_def Let_def client_shutdown_def
          intro!: trans_le_add1 eq_imp_le [OF queued_same] split: sum.splits option.splits)
  qed
  with AppInbound show ?thesis by (simp add: starts_def)
next
  case (DispatchStart k)
  with assms(1) obtain v where v: "ap_dispatches A k = Some (Queued v)" "B = dispatch_start k v A"
    by (auto split: option.splits dispatch.splits)
  obtain x where "ap_dispatches B = (ap_dispatches A)(k \<mapsto> x)" "\<And>u. x \<noteq> Queued u" "ap_n_dispatches B = ap_n_dispatches A"
    using v(2) by (auto simp: dispatch_start_def reply_to_def scope_user_id_def split: option.splits)
  with queued_upd [OF dispatches_known [OF assms(2) v(1)], of B x q] v(1) DispatchStart show ?thesis
    by (simp add: starts_def)
next
  case (HandlerReturns k res)
  with assms(1) obtain h req r ctx where r: "ap_dispatches A k = Some (Running h req r ctx)"
    "B = reply_to r res (A\<lparr>ap_dispatches := (ap_dispatches A)(k \<mapsto> Answered)\<rparr>)"
    by (auto split: option.splits dispatch.splits)
  with queued_upd [OF dispatches_known [OF assms(2) r(1)], of B Answered q] HandlerReturns show ?thesis
    by (simp add: starts_def reply_to_def)
qed (use assms(1) in \<open>auto simp: starts_def client_invoke_def client_shutdown_def idle_poll_def Let_def
      intro!: trans_le_add1 eq_imp_le [OF queued_same] split: option.splits app_call.splits run_wait.splits if_splits prod.splits\<close>)

lemma dispatches_ok_exec:
  assumes "app_exec a A = Some B" "dispatches_ok A"
  shows "dispatches_ok B"
proof (cases a)
  case (AppInbound inbound)
  with assms have "B = connection_inbound inbound A" by (auto split: if_splits)
  moreover have "dispatches_ok (handle_inbound f A)" for f
    using assms(2)
    by (cases f) (auto simp: client_response_def client_shutdown_def record_activity_def dispatches_ok_def Let_def
        split: option.splits)
  ultimately show ?thesis using assms(2)
    by (auto simp: connection_inbound_def connection_end_def client_shutdown_def dispatches_ok_def Let_def
        split: sum.splits option.splits)
next
  case (DispatchStart k)
  with assms(1) obtain v where v: "ap_dispatches A k = Some (Queued v)" "B = dispatch_start k v A"
    by (auto split: option.splits dispatch.splits)
  with assms(2) dispatches_known [OF assms(2) v(1)] show ?thesis
    by (auto simp: dispatch_start_def reply_to_def dispatches_ok_def split: option.splits)
next
  case (HandlerReturns k res)
  with assms(1) obtain h req r ctx where r: "ap_dispatches A k = Some (Running h req r ctx)"
    "B = reply_to r res (A\<lparr>ap_dispatches := (ap_dispatches A)(k \<mapsto> Answered)\<rparr>)"
    by (auto split: option.splits dispatch.splits)
  with assms(2) dispatches_known [OF assms(2) r(1)] show ?thesis by (auto simp: reply_to_def dispatches_ok_def)
qed (use assms in \<open>auto simp: dispatches_ok_def client_invoke_def client_shutdown_def idle_poll_def Let_def
      split: option.splits app_call.splits run_wait.splits if_splits prod.splits\<close>)

lemma client_queue: "bk_queue (fst (client_send f k)) = bk_queue k @ (if bk_open k then [f] else [])"
  by (simp add: client_send_def)

lemma unsent_exec:
  assumes "app_exec a A = Some B" "unat (bk_next_req_id (ap_client A)) < 2 ^ 64 - 1"
  shows "unsent r B + (if a = AppWriter True \<and> carries r (hd (bk_queue (ap_client A))) then 1 else 0) \<le> unsent r A"
proof (cases a)
  case (AppInvoke sv m p cl)
  let ?q = "bk_next_req_id (ap_client A)"
  have "unat (?q + 1) = Suc (unat ?q)" using unat_Suc_u64 [OF assms(2)] by simp
  moreover have "?q = r \<Longrightarrow> unat ?q \<le> unat r" by simp
  ultimately show ?thesis using assms(1) AppInvoke
    by (auto simp: client_invoke_def client_queue Let_def unsent_def case_prod_unfold)
next
  case (AppWriter ok)
  with assms(1) in_frames_hd [of "bk_queue (ap_client A)" r] show ?thesis
    by (auto simp: unsent_def split: if_splits)
next
  case (AppInbound inbound)
  with assms(1) have "B = connection_inbound inbound A" by (auto split: if_splits)
  moreover have "unsent r (handle_inbound f A) \<le> unsent r A" for f
    by (cases f) (auto simp: client_response_def client_shutdown_def record_activity_def unsent_def client_queue Let_def
        split: option.splits)
  moreover have "unsent r (connection_end A) \<le> unsent r A"
    by (simp add: connection_end_def client_shutdown_def unsent_def Let_def)
  ultimately show ?thesis using AppInbound by (auto simp: connection_inbound_def split: sum.splits option.splits)
next
  case (DispatchStart k)
  with assms(1) show ?thesis
    by (auto simp: dispatch_start_def reply_to_def client_queue unsent_def split: option.splits dispatch.splits)
next
  case (HandlerReturns k res)
  with assms(1) show ?thesis
    by (auto simp: reply_to_def client_queue unsent_def split: option.splits dispatch.splits)
qed (use assms(1) in \<open>auto simp: unsent_def publish_snd subscribe_snd client_queue client_shutdown_def idle_poll_def Let_def
      split: option.splits app_call.splits run_wait.splits if_splits prod.splits\<close>)


lemma next_id_exec:
  assumes "app_exec a A = Some B"
  shows "bk_next_req_id (ap_client B) =
    bk_next_req_id (ap_client A) + (case a of AppInvoke sv m p cl \<Rightarrow> 1 | _ \<Rightarrow> 0)"
proof (cases a)
  case (AppInbound inbound)
  with assms have "B = connection_inbound inbound A" by (auto split: if_splits)
  moreover have "bk_next_req_id (ap_client (handle_inbound f A)) = bk_next_req_id (ap_client A)" for f
    by (cases f) (auto simp: client_response_def client_shutdown_def record_activity_def Let_def split: option.splits)
  moreover have "bk_next_req_id (ap_client (connection_end A)) = bk_next_req_id (ap_client A)"
    by (simp add: connection_end_def client_shutdown_def Let_def)
  ultimately show ?thesis using AppInbound by (auto simp: connection_inbound_def split: sum.splits option.splits)
next
  case (DispatchStart k)
  with assms show ?thesis by (auto simp: dispatch_start_def reply_to_def split: option.splits dispatch.splits)
next
  case (HandlerReturns k res)
  with assms show ?thesis by (auto simp: reply_to_def split: option.splits dispatch.splits)
next
  case (AppInvoke sv m p cl)
  with assms show ?thesis by (auto simp: client_invoke_def Let_def case_prod_unfold)
qed (use assms in \<open>auto simp: publish_snd subscribe_snd client_shutdown_def idle_poll_def Let_def
      split: option.splits app_call.splits run_wait.splits if_splits\<close>)

subsection \<open>The steps of the system\<close>

lemma in_flight_relayed:
  assumes "net_inv n (s, L)" "0 < in_flight d q s"
  shows "\<exists>i og v. Relayed i og d v \<in> L \<and> inv_req_id v = q"
proof -
  note inv = net_invD [OF assms(1)]
  consider "0 < in_frames q (cl_queue (bus_cells (nt_bus s) d))" | "0 < in_frames q (nt_down s d)"
    | A where "nt_apps s d = Some A" "0 < queued q A"
    using assms(2) unfolding in_flight_def by (cases "nt_apps s d") auto
  then show ?thesis
  proof cases
    case 1
    then obtain v where v: "Invoke v \<in> set (cl_queue (bus_cells (nt_bus s) d))" "inv_req_id v = q"
      using in_frames_pos by blast
    then have "down_ok (bus_conns (nt_bus s)) L d (Invoke v)" using inv(2) unfolding bus_traced_def by blast
    with v(2) show ?thesis by auto
  next
    case 2
    then obtain v where v: "Invoke v \<in> set (nt_down s d)" "inv_req_id v = q" using in_frames_pos by blast
    with inv(7) [OF v(1)] show ?thesis by auto
  next
    case 3
    then obtain k v where v: "ap_dispatches A k = Some (Queued v)" "inv_req_id v = q" using queued_pos by blast
    then have "dispatch_traced L d (bk_handlers (ap_client A)) (Queued v)"
      using inv(3) [OF 3(1)] unfolding app_traced_def by blast
    with v(2) show ?thesis by auto
  qed
qed

lemma push_frames: "in_frames q (push c ok f st d) = in_frames q (st d) + (if ok \<and> c = d \<and> carries q f then 1 else 0)"
  by (simp add: push_def)

lemma start_exec:
  assumes "bus_exec json (StartTask i) s = Some t"
  obtains u where "bus_tasks s i = Some u" "unstarted u" "t = start_task json i u s"
  using assms by (auto simp del: start_task.simps split: option.splits task.splits)

lemma flight_step:
  assumes "net_exec json debug a s = Some t" "conn_inv n (nt_bus s)" "\<And>d A. nt_apps s d = Some A \<Longrightarrow> dispatches_ok A"
  shows "in_flight d q t + net_starts d q a s \<le> in_flight d q s + net_sends d q a t"
proof (cases a)
  case (NetBus b)
  with assms(1) obtain u where u: "bus_exec json b (nt_bus s) = Some u" "t = s\<lparr>nt_bus := u\<rparr>"
    by (auto split: if_splits)
  show ?thesis
  proof (cases "\<exists>i. b = StartTask i")
    case True
    then obtain i where i: "b = StartTask i" by blast
    from u(1) [unfolded i] obtain x where "unstarted x" "u = start_task json i x (nt_bus s)" by (rule start_exec)
    with start_task_flight [OF assms(2), of x q json i d] u(2) NetBus i show ?thesis
      by (simp add: in_flight_def net_starts_def net_sends_def)
  next
    case False
    with bus_flight [OF u(1), of q d] u(2) NetBus show ?thesis
      by (cases b) (simp_all add: in_flight_def net_starts_def net_sends_def)
  qed
next
  case (NetAckWrite c ok)
  with assms(1) obtain u f where u: "bus_exec json (AckWrite c ok) (nt_bus s) = Some u"
    "t = s\<lparr>nt_bus := u, nt_down := push c ok f (nt_down s)\<rparr>" "\<not> carries q f"
    by (auto simp: ack_frame_def split: option.splits)
  with bus_flight [OF u(1), of q d] NetAckWrite show ?thesis
    by (simp add: in_flight_def net_starts_def net_sends_def push_frames)
next
  case (NetBusWrite c ok)
  with assms(1) obtain u where u: "bus_exec json (WriterStep c ok) (nt_bus s) = Some u"
    "t = s\<lparr>nt_bus := u, nt_down := push c ok (hd (cl_queue (bus_cells (nt_bus s) c))) (nt_down s)\<rparr>"
    by auto
  with bus_flight [OF u(1), of q d] NetBusWrite show ?thesis
    by (auto simp: in_flight_def net_starts_def net_sends_def push_frames split: if_splits)
next
  case (NetBusRead c)
  with assms(1) obtain f fs u where u: "bus_exec json (Inbound c (Inr (Some f))) (nt_bus s) = Some u"
    "t = s\<lparr>nt_bus := u, nt_up := (nt_up s)(c := fs)\<rparr>"
    by (auto split: list.splits)
  with bus_flight [OF u(1), of q d] NetBusRead show ?thesis by (simp add: in_flight_def net_starts_def net_sends_def)
next
  case (NetBusLost c e)
  with assms(1) obtain u where u: "bus_exec json (Inbound c (lost e)) (nt_bus s) = Some u" "t = s\<lparr>nt_bus := u\<rparr>"
    by auto
  with bus_flight [OF u(1), of q d] NetBusLost show ?thesis by (simp add: in_flight_def net_starts_def net_sends_def)
next
  case (NetEstablish c cfg handlers now)
  with assms(1) obtain f fs client where u: "nt_apps s c = None" "nt_down s c = f # fs"
    "t = s\<lparr>nt_apps := (nt_apps s)(c \<mapsto> app_start client now), nt_down := (nt_down s)(c := fs)\<rparr>"
    by (auto split: option.splits list.splits sum.splits)
  with NetEstablish show ?thesis
    by (auto simp: in_flight_def net_starts_def net_sends_def queued_def app_start_def)
next
  case (NetApp c b)
  with assms(1) obtain A B where u: "nt_apps s c = Some A" "app_exec b A = Some B" "\<not> app_on_wire b"
    "t = s\<lparr>nt_apps := (nt_apps s)(c \<mapsto> B)\<rparr>"
    by (auto split: if_splits option.splits)
  have "arrives q b = 0" using u(3) by (cases b) (simp_all add: arrives_def)
  with app_flight [OF u(2) assms(3) [OF u(1)], of q] u NetApp show ?thesis
    by (auto simp: in_flight_def net_starts_def net_sends_def)
next
  case (NetAppWrite c ok)
  with assms(1) obtain A B up where u: "nt_apps s c = Some A" "app_exec (AppWriter ok) A = Some B"
    "t = s\<lparr>nt_apps := (nt_apps s)(c \<mapsto> B), nt_up := up\<rparr>"
    by (auto split: option.splits)
  with app_flight [OF u(2) assms(3) [OF u(1)], of q] NetAppWrite show ?thesis
    by (auto simp: in_flight_def net_starts_def net_sends_def starts_def arrives_def)
next
  case (NetAppRead c)
  with assms(1) obtain A B f fs where u: "nt_apps s c = Some A" "nt_down s c = f # fs"
    "app_exec (AppInbound (Inr (Some f))) A = Some B"
    "t = s\<lparr>nt_apps := (nt_apps s)(c \<mapsto> B), nt_down := (nt_down s)(c := fs)\<rparr>"
    by (auto split: option.splits list.splits)
  with app_flight [OF u(3) assms(3) [OF u(1)], of q] NetAppRead show ?thesis
    by (auto simp: in_flight_def net_starts_def net_sends_def starts_def arrives_def split: if_splits)
next
  case (NetAppLost c e)
  with assms(1) obtain A B where u: "nt_apps s c = Some A" "app_exec (AppInbound (lost e)) A = Some B"
    "t = s\<lparr>nt_apps := (nt_apps s)(c \<mapsto> B)\<rparr>"
    by (auto split: option.splits)
  have "arrives q (AppInbound (lost e)) = 0" by (auto simp: arrives_def split: sum.split option.split)
  with app_flight [OF u(2) assms(3) [OF u(1)], of q] u NetAppLost show ?thesis
    by (auto simp: in_flight_def net_starts_def net_sends_def starts_def)
qed

lemma untaken_step:
  assumes "net_exec json debug a s = Some t" "\<And>c A. nt_apps s c = Some A \<Longrightarrow> unat (bk_next_req_id (ap_client A)) < 2 ^ 64 - 1"
  shows "untaken c r (t, L') + takes c r a (s, L) (t, L') \<le> untaken c r (s, L)"
proof -
  have level: "untaken c r (s, L) = (case nt_apps s c of None \<Rightarrow> 1 | Some A \<Rightarrow> unsent r A) + in_frames r (nt_up s c)" for s L
    by (simp add: untaken_def unsent_def split: option.split)
  show ?thesis
  proof (cases a)
    case (NetEstablish d cfg handlers now)
    with assms(1) obtain client fs where u: "nt_apps s d = None"
      "t = s\<lparr>nt_apps := (nt_apps s)(d \<mapsto> app_start client now), nt_down := (nt_down s)(d := fs)\<rparr>" "bk_queue client = []"
      by (auto simp: establish_def client_new_def split: option.splits list.splits sum.splits bus_frame.splits)
    with NetEstablish show ?thesis by (auto simp: level unsent_def app_start_def)
  next
    case (NetApp d b)
    with assms(1) obtain A B where u: "nt_apps s d = Some A" "app_exec b A = Some B"
      "t = s\<lparr>nt_apps := (nt_apps s)(d \<mapsto> B)\<rparr>"
      by (auto split: if_splits option.splits)
    with unsent_exec [OF u(2) assms(2) [OF u(1)], of r] NetApp show ?thesis by (auto simp: level)
  next
    case (NetAppWrite d ok)
    with assms(1) obtain A B where u: "nt_apps s d = Some A" "app_exec (AppWriter ok) A = Some B"
      "t = s\<lparr>nt_apps := (nt_apps s)(d \<mapsto> B), nt_up := push d ok (hd (bk_queue (ap_client A))) (nt_up s)\<rparr>"
      by (auto split: option.splits)
    with unsent_exec [OF u(2) assms(2) [OF u(1)], of r] NetAppWrite show ?thesis
      by (auto simp: level push_frames)
  next
    case (NetAppRead d)
    with assms(1) obtain A B f fs where u: "nt_apps s d = Some A" "app_exec (AppInbound (Inr (Some f))) A = Some B"
      "t = s\<lparr>nt_apps := (nt_apps s)(d \<mapsto> B), nt_down := (nt_down s)(d := fs)\<rparr>"
      by (auto split: option.splits list.splits)
    with unsent_exec [OF u(2) assms(2) [OF u(1)], of r] NetAppRead show ?thesis by (auto simp: level)
  next
    case (NetAppLost d e)
    with assms(1) obtain A B where u: "nt_apps s d = Some A" "app_exec (AppInbound (lost e)) A = Some B"
      "t = s\<lparr>nt_apps := (nt_apps s)(d \<mapsto> B)\<rparr>"
      by (auto split: option.splits)
    with unsent_exec [OF u(2) assms(2) [OF u(1)], of r] NetAppLost show ?thesis by (auto simp: level)
  qed (use assms(1) in \<open>auto simp: level split: option.splits list.splits if_splits\<close>)
qed


lemma unasked_step:
  assumes "net_exec json debug a s = Some t" "\<And>c A. nt_apps s c = Some A \<Longrightarrow> unat (bk_next_req_id (ap_client A)) < 2 ^ 64 - 1"
  shows "unasked c r (t, L') + asks c r a (s, L) (t, L') \<le> unasked c r (s, L)"
proof -
  have kept: "unasked c r (t, L') \<le> unasked c r (s, L)"
    if "nt_apps s d = Some A" "app_exec b A = Some B" "nt_apps t = (nt_apps s)(d \<mapsto> B)"
      "\<And>sv m p cl. b \<noteq> AppInvoke sv m p cl" for d A B b
    using that(1,3,4) next_id_exec [OF that(2)] by (auto simp: unasked_def split: app_action.splits)
  show ?thesis
  proof (cases a)
    case (NetEstablish d cfg handlers now)
    with assms(1) obtain client fs where u: "nt_apps s d = None"
      "t = s\<lparr>nt_apps := (nt_apps s)(d \<mapsto> app_start client now), nt_down := (nt_down s)(d := fs)\<rparr>"
      by (auto split: option.splits list.splits sum.splits)
    with NetEstablish show ?thesis by (auto simp: unasked_def)
  next
    case (NetApp d b)
    with assms(1) obtain A B where u: "nt_apps s d = Some A" "app_exec b A = Some B"
      "t = s\<lparr>nt_apps := (nt_apps s)(d \<mapsto> B)\<rparr>"
      by (auto split: if_splits option.splits)
    show ?thesis
    proof (cases "\<exists>sv m p cl. b = AppInvoke sv m p cl")
      case True
      let ?q = "bk_next_req_id (ap_client A)"
      have "unat (?q + 1) = Suc (unat ?q)" using unat_Suc_u64 [OF assms(2) [OF u(1)]] by simp
      with True next_id_exec [OF u(2)] u NetApp show ?thesis by (auto simp: unasked_def)
    next
      case False
      with kept [OF u(1,2)] u(3) NetApp show ?thesis
        by (cases b) auto
    qed
  next
    case (NetAppWrite d ok)
    with assms(1) obtain A B up where u: "nt_apps s d = Some A" "app_exec (AppWriter ok) A = Some B"
      "t = s\<lparr>nt_apps := (nt_apps s)(d \<mapsto> B), nt_up := up\<rparr>"
      by (auto split: option.splits)
    with kept [OF u(1,2)] NetAppWrite show ?thesis by simp
  next
    case (NetAppRead d)
    with assms(1) obtain A B f down where u: "nt_apps s d = Some A" "app_exec (AppInbound (Inr (Some f))) A = Some B"
      "t = s\<lparr>nt_apps := (nt_apps s)(d \<mapsto> B), nt_down := down\<rparr>"
      by (auto split: option.splits list.splits)
    with kept [OF u(1,2)] NetAppRead show ?thesis by simp
  next
    case (NetAppLost d e)
    with assms(1) obtain A B where u: "nt_apps s d = Some A" "app_exec (AppInbound (lost e)) A = Some B"
      "t = s\<lparr>nt_apps := (nt_apps s)(d \<mapsto> B)\<rparr>"
      by (auto split: option.splits)
    with kept [OF u(1,2)] NetAppLost show ?thesis by simp
  qed (use assms(1) in \<open>auto simp: unasked_def split: option.splits list.splits if_splits\<close>)
qed

subsection \<open>Calls are served once\<close>

lemma start_task_served:
  assumes "unstarted u"
  shows "\<exists>t. bus_tasks (start_task json i u s) i = Some t \<and> \<not> unstarted t"
  using assms by (cases u) (auto simp: start_call_def bus_views split: option.splits prod.splits sum.splits)

lemma unserved_kept:
  assumes "call_inv n s" "bus_exec json a s = Some t" "unserved i t"
  shows "unserved i s"
proof (cases "\<exists>j. a = StartTask j")
  case True
  then obtain j where "a = StartTask j" by blast
  with assms(2) obtain u where u: "bus_tasks s j = Some u" "unstarted u" "t = start_task json j u s"
    using start_exec by metis
  with assms(3) start_task_other [of i j json u s] show ?thesis by (cases "i = j") (auto simp: unserved_def)
next
  case False
  have new: "bus_tasks s (bus_n_tasks s) = None"
    using assms(1) unfolding call_inv_def call_ok_def tasks_ok_def by blast
  show ?thesis
  proof (cases a)
    case (Inbound c inbound)
    with assms(2) obtain k where "t = session_inbound c k inbound s" by (auto split: option.splits if_splits)
    with assms(3) new show ?thesis
      by (auto simp: session_inbound_def session_end_def Let_def bus_views unserved_def
          split: sum.splits option.splits bus_frame.splits if_splits)
  qed (use assms(2,3) new False in \<open>auto simp: unserved_def bus_views accept_def ack_failed_def ack_written_def Let_def
        resume_task_def split: option.splits task.splits call_wait.splits if_splits prod.splits handshake.splits\<close>)
qed

lemma relayed_only_started:
  "Relayed i og d v \<in> bus_events a s t \<Longrightarrow> \<exists>spec h q. a = StartTask i \<and> bus_tasks t i = Some (Awaiting og spec (WaitRemote h q)) \<and>
     d = sh_pending_out h \<and> v = invoke_of q spec"
  by (cases a) (auto split: option.splits task.splits call_wait.splits)

lemma net_relayed:
  "Relayed i og d v \<in> net_events a s t \<Longrightarrow> \<exists>b. a = NetBus b \<and> Relayed i og d v \<in> bus_events b (nt_bus s) (nt_bus t)"
  by (cases a) (auto simp: app_events_own(3) split: option.splits)

text \<open>Only actions of the broker change its state, and they are its own actions.\<close>

lemma net_bus_step:
  "net_exec json debug a s = Some t \<Longrightarrow> nt_bus t = nt_bus s \<or> (\<exists>b. bus_exec json b (nt_bus s) = Some (nt_bus t))"
  by (cases a) (auto simp del: bus_exec.simps split: option.splits list.splits if_splits sum.splits)

lemma net_app_step:
  assumes "net_exec json debug a s = Some t" "nt_apps t c = Some B"
  shows "nt_apps s c = Some B \<or> (\<exists>b A. nt_apps s c = Some A \<and> app_exec b A = Some B) \<or> (\<exists>client now. B = app_start client now)"
proof (cases a)
  case (NetEstablish d cfg handlers now)
  with assms(1) obtain client fs where "t = s\<lparr>nt_apps := (nt_apps s)(d \<mapsto> app_start client now), nt_down := (nt_down s)(d := fs)\<rparr>"
    by (auto split: option.splits list.splits sum.splits)
  with assms(2) show ?thesis by (cases "c = d") auto
qed (use assms in \<open>auto simp del: bus_exec.simps app_exec.simps split: option.splits list.splits if_splits\<close>)

lemma relays_okD:
  assumes "relays_ok s L"
  shows "Relayed i og d v \<in> L \<Longrightarrow> \<not> unserved i (nt_bus s)"
    and "targets i L = {} \<or> (\<exists>p. targets i L = {p})"
proof -
  show "Relayed i og d v \<in> L \<Longrightarrow> \<not> unserved i (nt_bus s)" using assms unfolding relays_ok_def by blast
  have "p = p'" if "p \<in> targets i L" "p' \<in> targets i L" for p p'
    using that assms unfolding relays_ok_def targets_def by blast
  then show "targets i L = {} \<or> (\<exists>p. targets i L = {p})" by blast
qed

lemma relays_ok_step:
  assumes ok: "relays_ok s L" and inv: "call_inv n (nt_bus s)" and step: "net_exec json debug a s = Some t"
  shows "relays_ok t (L \<union> net_events a s t)"
proof -
  have kept: "unserved i (nt_bus s)" if "unserved i (nt_bus t)" for i
    using net_bus_step [OF step] unserved_kept [OF inv] that by auto
  have new: "unserved i (nt_bus s) \<and> \<not> unserved i (nt_bus t)" if rel: "Relayed i og d v \<in> net_events a s t" for i og d v
  proof -
    from net_relayed [OF rel] obtain b where b: "a = NetBus b" "Relayed i og d v \<in> bus_events b (nt_bus s) (nt_bus t)" by blast
    from relayed_only_started [OF b(2)] have i: "b = StartTask i" by blast
    with step b(1) have "bus_exec json (StartTask i) (nt_bus s) = Some (nt_bus t)" by (auto split: if_splits)
    then obtain u where "bus_tasks (nt_bus s) i = Some u" "unstarted u" "nt_bus t = start_task json i u (nt_bus s)"
      by (rule start_exec)
    with start_task_served [of u json i "nt_bus s"] show ?thesis by (auto simp: unserved_def)
  qed
  have same: "d = d' \<and> v = v'" if "Relayed i og d v \<in> net_events a s t" "Relayed i og' d' v' \<in> net_events a s t" for i og d v og' d' v'
    using net_relayed [OF that(1)] net_relayed [OF that(2)] relayed_only_started by fastforce
  show ?thesis
    using ok kept new same unfolding relays_ok_def by (metis Un_iff)
qed

lemma once_invD:
  assumes "once_inv n (s, L)"
  shows "net_inv n (s, L)" "relays_ok s L" "conn_inv n (nt_bus s)" "call_inv n (nt_bus s)"
    "nt_apps s d = Some A \<Longrightarrow> dispatches_ok A"
    "nt_apps s d = Some A \<Longrightarrow> unat (bk_next_req_id (ap_client A)) \<le> Suc n"
proof -
  show *: "net_inv n (s, L)" "relays_ok s L" "nt_apps s d = Some A \<Longrightarrow> dispatches_ok A"
    using assms by (auto simp: once_inv_def)
  then show "conn_inv n (nt_bus s)" "call_inv n (nt_bus s)" using net_invD(1) by (auto simp: bus_inv_def)
  show "nt_apps s d = Some A \<Longrightarrow> unat (bk_next_req_id (ap_client A)) \<le> Suc n"
    using app_traced_ok(1) [OF net_invD(3) [OF *(1)]] by (simp add: asked_ok_def)
qed

lemma once_inv_exec:
  assumes "once_inv n x" "n < 2 ^ 64 - 2" "net_log json debug a x = Some y"
  shows "once_inv (Suc n) y"
proof (cases x)
  case (Pair s L)
  with assms(3) obtain t where t: "net_exec json debug a s = Some t" "y = (t, L \<union> net_events a s t)"
    by (auto simp: net_log_def)
  note inv = once_invD [OF assms(1) [unfolded Pair]]
  have "dispatches_ok B" if "nt_apps t c = Some B" for c B
    using net_app_step [OF t(1) that] inv(5) dispatches_ok_exec by (auto simp: app_start_def dispatches_ok_def)
  moreover have "net_inv (Suc n) y" using assms(1) by (intro net_inv_exec [OF _ assms(2,3)]) (simp add: once_inv_def)
  ultimately show ?thesis using relays_ok_step [OF inv(2,4) t(1)] t(2) by (simp add: once_inv_def)
qed

lemma once_inv_init: "once_inv 0 (net_init config, {})"
  using net_inv_init by (simp add: once_inv_def net_init_def relays_ok_def)

lemma allowance_start:
  assumes inv: "once_inv n (s, L)" and t: "net_inv m (t, L')"
    and step: "net_exec json debug (NetBus (StartTask j)) s = Some t" "L' = L \<union> net_events (NetBus (StartTask j)) s t"
  shows "allowance i (t, L') + executes i (NetBus (StartTask j)) (s, L) (t, L') \<le> allowance i (s, L)"
proof -
  note inv = once_invD [OF inv]
  have "bus_exec json (StartTask j) (nt_bus s) = Some (nt_bus t)" using step(1) by auto
  then obtain u where u: "bus_tasks (nt_bus s) j = Some u" "unstarted u" "nt_bus t = start_task json j u (nt_bus s)"
    by (rule start_exec)
  have served: "unserved j (nt_bus s)" "\<not> unserved j (nt_bus t)"
    using u start_task_served [OF u(2), of json j "nt_bus s"] by (auto simp: unserved_def)
  have uniq: "k = k'" if "Relayed k og d v \<in> L'" "Relayed k' og' d v' \<in> L'" "inv_req_id v = inv_req_id v'" for k og d v k' og' v'
    using bus_traced_relayed [OF net_invD(2) [OF t]] that unfolding relayed_ok_def by blast
  have new: "k = j \<and> (\<exists>og spec h q. bus_tasks (nt_bus t) j = Some (Awaiting og spec (WaitRemote h q)))"
    if "Relayed k og d v \<in> net_events (NetBus (StartTask j)) s t" for k og d v
    using net_relayed [OF that] relayed_only_started by fastforce
  have flight: "in_flight d q t \<le> in_flight d q s + sends d q (bus_tasks (nt_bus t) j)" for d q
  proof -
    have "in_flight d q t + net_starts d q (NetBus (StartTask j)) s \<le> in_flight d q s + net_sends d q (NetBus (StartTask j)) t"
      by (rule flight_step [OF step(1) inv(3)]) (rule inv(5))
    then show ?thesis by (simp add: net_sends_def)
  qed
  have sent: "\<exists>og v. Relayed j og d v \<in> L' \<and> inv_req_id v = q" if "0 < sends d q (bus_tasks (nt_bus t) j)" for d q
  proof -
    from that obtain og spec h where "bus_tasks (nt_bus t) j = Some (Awaiting og spec (WaitRemote h q))" "d = sh_pending_out h"
      by (auto simp: sends_def split: option.splits task.splits call_wait.splits if_splits)
    with step(2) have "Relayed j og d (invoke_of q spec) \<in> L'" by simp
    then show ?thesis by (intro exI [of _ og] exI [of _ "invoke_of q spec"]) (simp add: invoke_of_def)
  qed
  show ?thesis
  proof (cases "j = i")
    case False
    have tgt: "targets i L' = targets i L" using False step(2) new unfolding targets_def by blast
    have "sends d q (bus_tasks (nt_bus t) j) = 0" if "(d, q) \<in> targets i L" for d q
    proof (rule ccontr)
      assume "sends d q (bus_tasks (nt_bus t) j) \<noteq> 0"
      with sent obtain og v where v: "Relayed j og d v \<in> L'" "inv_req_id v = q" by blast
      from that obtain og' v' where "Relayed i og' d v' \<in> L'" "inv_req_id v' = q"
        using step(2) unfolding targets_def by blast
      with uniq v False show False by metis
    qed
    then have "in_flight (fst p) (snd p) t \<le> in_flight (fst p) (snd p) s" if "p \<in> targets i L" for p
      using flight [of "fst p" "snd p"] that by simp
    then have "(\<Sum>p \<in> targets i L. in_flight (fst p) (snd p) t) \<le> (\<Sum>p \<in> targets i L. in_flight (fst p) (snd p) s)"
      by (rule sum_mono)
    moreover have "unserved i (nt_bus t) = unserved i (nt_bus s)"
      using False u(3) by (simp add: unserved_def start_task_other)
    ultimately show ?thesis using False tgt
      by (auto simp: allowance_def split: option.split task.split call_wait.split)
  next
    case True
    have none: "Relayed i og d v \<notin> L" for og d v using relays_okD(1) [OF inv(2)] served(1) True by blast
    then have "targets i L = {}" by (auto simp: targets_def)
    then have one: "allowance i (s, L) = 1" using served(1) True by (simp add: allowance_def)
    show ?thesis
    proof (cases "\<exists>og spec h q. bus_tasks (nt_bus t) j = Some (Awaiting og spec (WaitRemote h q))")
      case True
      then obtain og spec h q where r: "bus_tasks (nt_bus t) j = Some (Awaiting og spec (WaitRemote h q))" by blast
      let ?d = "sh_pending_out h"
      have tgt: "targets i L' = {(?d, q)}" using none \<open>j = i\<close> r step(2) by (auto simp: targets_def invoke_of_def)
      have "in_flight ?d q s = 0"
      proof (rule ccontr)
        assume "in_flight ?d q s \<noteq> 0"
        with in_flight_relayed [OF inv(1)] obtain k og' v where v: "Relayed k og' ?d v \<in> L" "inv_req_id v = q" by blast
        moreover have "Relayed i og ?d (invoke_of q spec) \<in> L'" using r \<open>j = i\<close> step(2) by simp
        ultimately have "k = i" using uniq [of k og' ?d v i og "invoke_of q spec"] step(2) by (simp add: invoke_of_def)
        with v none show False by blast
      qed
      with flight [of ?d q] r have "in_flight ?d q t \<le> 1" by (simp add: sends_def)
      with one tgt r served(2) True \<open>j = i\<close> show ?thesis by (simp add: allowance_def)
    next
      case False
      have "targets i L' = {}"
        using none step(2) False \<open>j = i\<close> new unfolding targets_def by blast
      with one served(2) \<open>j = i\<close> show ?thesis
        by (auto simp: allowance_def split: option.split task.split call_wait.split)
    qed
  qed
qed

lemma allowance_other:
  assumes inv: "once_inv n (s, L)" and step: "net_exec json debug a s = Some t" "L' = L \<union> net_events a s t"
    and a: "\<And>j. a \<noteq> NetBus (StartTask j)"
  shows "allowance i (t, L') + executes i a (s, L) (t, L') \<le> allowance i (s, L)"
proof -
  note inv = once_invD [OF inv]
  have tgt: "targets i L' = targets i L"
    using a step(2) unfolding targets_def by (auto dest!: net_relayed relayed_only_started)
  have unserved: "unserved i (nt_bus t) \<Longrightarrow> unserved i (nt_bus s)"
    using net_bus_step [OF step(1)] unserved_kept [OF inv(4)] by auto
  have "net_sends d q a t = 0" for d q
    using a by (auto simp: net_sends_def split: net_action.split bus_action.split)
  then have flight: "in_flight d q t + net_starts d q a s \<le> in_flight d q s" for d q
    using flight_step [OF step(1) inv(3), of d q] inv(5) by fastforce
  have one: "executes i a (s, L) (t, L') \<le> net_starts d q a s" if "targets i L = {(d, q)}" for d q
    using a that
    by (cases "(i, a, (s, L), (t, L'))" rule: executes.cases)
      (auto simp: net_starts_def starts_def split: option.split dispatch.split)
  have none: "executes i a (s, L) (t, L') = 0" if "targets i L = {}"
    using a that
    by (cases "(i, a, (s, L), (t, L'))" rule: executes.cases) (auto split: option.split dispatch.split)
  from relays_okD(2) [OF inv(2), of i] show ?thesis
  proof (elim disjE exE)
    assume "targets i L = {}"
    with none tgt unserved show ?thesis by (simp add: allowance_def)
  next
    fix p assume "targets i L = {p}"
    with one [of "fst p" "snd p"] flight [of "fst p" "snd p"] tgt unserved show ?thesis
      by (auto simp: allowance_def)
  qed
qed

lemma allowance_exec:
  assumes "once_inv n x" "n < 2 ^ 64 - 2" "net_log json debug a x = Some y"
  shows "allowance i y + executes i a x y \<le> allowance i x"
proof (cases x)
  case (Pair s L)
  with assms(3) obtain t where t: "net_exec json debug a s = Some t" "y = (t, L \<union> net_events a s t)"
    by (auto simp: net_log_def)
  have "net_inv (Suc n) (t, L \<union> net_events a s t)"
    using net_inv_exec [OF _ assms(2,3)] assms(1) t(2) by (simp add: once_inv_def)
  with allowance_start [OF assms(1) [unfolded Pair]] allowance_other [OF assms(1) [unfolded Pair] t(1) refl, of i]
  show ?thesis using t Pair by (cases "\<exists>j. a = NetBus (StartTask j)") auto
qed

lemma unsent_room:
  assumes "once_inv n (s, L)" "n < 2 ^ 64 - 2" "nt_apps s d = Some A"
  shows "unat (bk_next_req_id (ap_client A)) < 2 ^ 64 - 1"
  using once_invD(6) [OF assms(1,3)] assms(2) by simp

lemma untaken_exec:
  assumes "once_inv n x" "n < 2 ^ 64 - 2" "net_log json debug a x = Some y"
  shows "untaken c r y + takes c r a x y \<le> untaken c r x" "unasked c r y + asks c r a x y \<le> unasked c r x"
proof -
  obtain s L where x: "x = (s, L)" by fastforce
  with assms(3) obtain t where t: "net_exec json debug a s = Some t" "y = (t, L \<union> net_events a s t)"
    by (auto simp: net_log_def)
  note room = unsent_room [OF assms(1) [unfolded x] assms(2)]
  show "untaken c r y + takes c r a x y \<le> untaken c r x" "unasked c r y + asks c r a x y \<le> unasked c r x"
    unfolding x t(2) by (rule untaken_step [OF t(1) room] unasked_step [OF t(1) room]; assumption)+
qed

interpretation once: budgeted_system "net_log json debug" once_inv "2 ^ 64 - 2" "executes i" "allowance i" for json debug i
  by unfold_locales (rule once_inv_exec, assumption+, rule allowance_exec)

interpretation taken: budgeted_system "net_log json debug" once_inv "2 ^ 64 - 2" "takes c r" "untaken c r" for json debug c r
  by unfold_locales (rule untaken_exec(1))

interpretation asked: budgeted_system "net_log json debug" once_inv "2 ^ 64 - 2" "asks c r" "unasked c r" for json debug c r
  by unfold_locales (rule untaken_exec(2))

section \<open>Theorems\<close>



end
