(* ===== verification/Event_Order.thy ===== *)
theory Event_Order
  imports At_Most_Once
begin

text \<open>
  Events on the whole system of \<open>Network\<close>, from the app that publishes to the app that reads. A history
  records what each app published, what the broker read from whom, and what each app received. The
  streams and channels keep their order, a publication is fanned out once to a connection, and what
  is lost is lost from the end of a stream; so received, in transit and queued events together are,
  in order, some of the events that the broker has read, and those of one connection are the first
  ones its app has published.

  The theorem: an app receives the events of a service in the order of publication, each at most
  once, and receives nothing that was not published.
\<close>

section \<open>Definitions\<close>

subsection \<open>Histories\<close>

record history =
  hi_published :: "conn_id \<Rightarrow> event list"
  hi_relayed :: "(conn_id \<times> string \<times> event) list"
  hi_received :: "conn_id \<Rightarrow> event list"

definition no_history :: history where
  "no_history = \<lparr>hi_published = (\<lambda>_. []), hi_relayed = [], hi_received = (\<lambda>_. [])\<rparr>"

fun note_events :: "net_action \<Rightarrow> net \<Rightarrow> history \<Rightarrow> history" where
  "note_events (NetApp c (AppPublish topic payload)) s h =
     (case nt_apps s c of
        None \<Rightarrow> h
      | Some A \<Rightarrow>
          (if fst (client_publish topic payload (ap_client A)) = Inr ()
           then h\<lparr>hi_published := (hi_published h)(c := hi_published h c @
                    [\<lparr>ev_topic = topic, ev_payload = payload, ev_from = None\<rparr>])\<rparr>
           else h))"
| "note_events (NetBusRead c) s h =
     (case (nt_up s c, bus_conns (nt_bus s) c) of
        (Publish ev # fs, Some k) \<Rightarrow> h\<lparr>hi_relayed := hi_relayed h @ [(c, cn_service k, ev)]\<rparr>
      | _ \<Rightarrow> h)"
| "note_events (NetAppRead c) s h =
     (case nt_down s c of
        Event ev # fs \<Rightarrow> h\<lparr>hi_received := (hi_received h)(c := hi_received h c @ [ev])\<rparr>
      | _ \<Rightarrow> h)"
| "note_events a s h = h"

definition event_log ::
  "(bytes \<Rightarrow> capability_response option) \<Rightarrow> (bus_frame \<Rightarrow> string) \<Rightarrow> net_action \<Rightarrow> net \<times> history \<Rightarrow> (net \<times> history) option" where
  "event_log json debug a x = map_option (\<lambda>t. (t, note_events a (fst x) (snd x))) (net_exec json debug a (fst x))"

subsection \<open>The invariant\<close>

definition events_in :: "bus_frame list \<Rightarrow> event list" where
  "events_in fs = concat (map (\<lambda>f. case f of Event ev \<Rightarrow> [ev] | _ \<Rightarrow> []) fs)"

definition publishes_in :: "bus_frame list \<Rightarrow> event list" where
  "publishes_in fs = concat (map (\<lambda>f. case f of Publish ev \<Rightarrow> [ev] | _ \<Rightarrow> []) fs)"

definition stamped :: "conn_id \<times> string \<times> event \<Rightarrow> event" where
  "stamped p = (case p of (d, sv, ev) \<Rightarrow> ev\<lparr>ev_from := Some sv\<rparr>)"

text \<open>What the broker has read of the events of \<open>c\<close>, and what it has still to read.\<close>

definition relayed_of :: "history \<Rightarrow> conn_id \<Rightarrow> event list" where
  "relayed_of h c = map (snd \<circ> snd) (filter (\<lambda>p. fst p = c) (hi_relayed h))"

fun up_order :: "event list \<Rightarrow> event list \<Rightarrow> app option \<Rightarrow> bool" where
  "up_order published sent None \<longleftrightarrow> published = sent"
| "up_order published sent (Some A) \<longleftrightarrow>
     (\<exists>rest. published = sent @ publishes_in (bk_queue (ap_client A)) @ rest \<and> (bk_open (ap_client A) \<longrightarrow> rest = []))"

definition coming :: "net \<Rightarrow> history \<Rightarrow> conn_id \<Rightarrow> event list" where
  "coming s h c = hi_received h c @ events_in (nt_down s c) @ events_in (cl_queue (bus_cells (nt_bus s) c))"

definition events_inv :: "nat \<Rightarrow> net \<times> history \<Rightarrow> bool" where
  "events_inv n x \<longleftrightarrow>
     (case x of (s, h) \<Rightarrow>
        bus_inv n (nt_bus s) \<and>
        (\<forall>c. up_order (hi_published h c) (relayed_of h c @ publishes_in (nt_up s c)) (nt_apps s c)) \<and>
        (\<forall>c. subseq (coming s h c) (map stamped (hi_relayed h))) \<and>
        (\<forall>p \<in> set (hi_relayed h). service_of (bus_conns (nt_bus s)) (fst p) (fst (snd p))))"

section \<open>Lemmas\<close>

named_theorems order

lemma events_in_simps [simp]:
  "events_in [] = []" "events_in (f # fs) = (case f of Event ev \<Rightarrow> [ev] | _ \<Rightarrow> []) @ events_in fs"
  "events_in (fs @ gs) = events_in fs @ events_in gs"
  by (simp_all add: events_in_def)

lemma publishes_in_simps [simp]:
  "publishes_in [] = []" "publishes_in (f # fs) = (case f of Publish ev \<Rightarrow> [ev] | _ \<Rightarrow> []) @ publishes_in fs"
  "publishes_in (fs @ gs) = publishes_in fs @ publishes_in gs"
  by (simp_all add: publishes_in_def)

subsection \<open>Events on the channels\<close>

lemma chan_send_order [order]:
  "events_in [f] = [] \<Longrightarrow> events_in (cl_queue (fst (chan_send c f cs) d)) = events_in (cl_queue (cs d))"
  by (simp add: chan_send_queue)

lemma finish_task_order [order]:
  "events_in (cl_queue (bus_cells (finish_task json i og r s) d)) = events_in (cl_queue (bus_cells s d))"
  by (simp add: finish_task_def Let_def order split: origin.splits)

lemma shutdown_service_order [order]:
  "events_in (cl_queue (snd (shutdown_service b sv cs) d)) = events_in (cl_queue (cs d))"
  by (simp add: shutdown_service_snd order split: option.splits)

lemma resume_task_order [order]:
  "events_in (cl_queue (bus_cells (resume_task json i og spec w wk s) d)) = events_in (cl_queue (bus_cells s d))"
  using call_resume_queue [of w "cs_timeout spec" wk "bus_cells s" d]
  by (cases "call_resume w (cs_timeout spec) wk (bus_cells s)") (simp add: resume_task_def order)

lemma call_begin_order:
  "events_in (cl_queue (snd (call_begin b i service m payload caller cs) d)) = events_in (cl_queue (cs d))"
  by (auto simp: call_begin_def call_remote_def chan_send_def Let_def split: option.splits prod.splits bool.splits)

lemma start_call_order [order]:
  "events_in (cl_queue (bus_cells (start_call json i og spec s) d)) = events_in (cl_queue (bus_cells s d))"
  using call_begin_order [of "bus_broker s" i "cs_service spec" "cs_method spec" "cs_payload spec" "cs_caller spec" "bus_cells s" d]
  by (auto simp: start_call_def order split: prod.splits sum.splits)

lemma start_task_order [order]:
  "events_in (cl_queue (bus_cells (start_task json i t s) d)) = events_in (cl_queue (bus_cells s d))"
  by (cases t) (auto simp: order split: option.splits)

text \<open>A publication is put at most once on a channel.\<close>

lemma fanout_once:
  assumes "entries_ok (br_registry b) conns" "dm_wf (br_subscriptions b)"
  shows "\<exists>es. cl_queue (fanout b sv ev cs c) = cl_queue (cs c) @ es \<and> (es = [] \<or> es = [Event (ev\<lparr>ev_from := Some sv\<rparr>)])"
proof -
  let ?ev = "ev\<lparr>ev_from := Some sv\<rparr>"
  let ?g = "\<lambda>t. case registry_get (br_registry b) t of None \<Rightarrow> []
                      | Some e \<Rightarrow> if se_tx e = c \<and> cl_open (cs c) then [Event ?ev] else []"
  have at: "\<exists>k. conns c = Some k \<and> t = cn_service k" if "?g t \<noteq> []" for t
    using that assms(1) by (fastforce simp: entries_ok_def split: option.splits if_splits)
  have only: "t = t'" if "?g t \<noteq> []" "?g t' \<noteq> []" for t t'
    using at [OF that(1)] at [OF that(2)] by auto
  have "concat (map ?g ts) = [] \<or> concat (map ?g ts) = [Event ?ev]" if "distinct ts" for ts
  proof (cases "\<exists>t \<in> set ts. ?g t \<noteq> []")
    case True
    then obtain t where t: "t \<in> set ts" "?g t \<noteq> []" by blast
    then have "concat (map ?g ts) = (if t \<in> set ts then ?g t else [])"
      using only by (intro concat_map_single [OF that]) blast
    with t show ?thesis by (auto split: option.splits if_splits)
  qed simp
  from this [OF fanout_targets_distinct [OF assms(2), of sv ?ev]] show ?thesis
    by (simp add: fanout_def Let_def fanout_send_exact [OF refl] del: split_paired_Ex)
qed

text \<open>The other steps of the broker put no event on a channel.\<close>

lemma bus_order:
  assumes "bus_exec json a s = Some t" "\<And>c ev. a \<noteq> Inbound c (Inr (Some (Publish ev)))"
  shows "subseq (events_in (cl_queue (bus_cells t d))) (events_in (cl_queue (bus_cells s d)))"
proof (cases a)
  case (WriterStep c ok)
  with assms(1) show ?thesis
    by (auto simp: bus_views neq_Nil_conv split: option.splits if_splits)
next
  case (Inbound c inbound)
  with assms(1) obtain k where "t = session_inbound c k inbound s" by (auto split: option.splits if_splits)
  with assms(2) Inbound show ?thesis
    by (auto simp: session_inbound_def session_end_def Let_def order bus_views
        split: sum.splits option.splits bus_frame.splits)
qed (use assms(1) in \<open>auto simp: order bus_views accept_def ack_failed_def ack_written_def Let_def simp del: start_task.simps
      split: option.splits task.splits call_wait.splits if_splits prod.splits handshake.splits\<close>)

subsection \<open>Publications of an app\<close>

lemma publish_result: "fst (client_publish t p k) = Inr () \<longleftrightarrow> bk_open k"
  by (simp add: client_publish_def client_send_def)

lemma up_order_exec:
  assumes "up_order pub sent (Some A)" "app_exec a A = Some B"
  shows "up_order
      (pub @ (case a of AppPublish t p \<Rightarrow> if bk_open (ap_client A) then [\<lparr>ev_topic = t, ev_payload = p, ev_from = None\<rparr>] else []
              | _ \<Rightarrow> []))
      (sent @ (if a = AppWriter True then publishes_in [hd (bk_queue (ap_client A))] else [])) (Some B)"
proof -
  note defs = publish_snd subscribe_snd client_queue client_shutdown_def idle_poll_def client_invoke_def case_prod_unfold Let_def
  show ?thesis
  proof (cases a)
    case (AppWriter ok)
    with assms show ?thesis by (cases "bk_queue (ap_client A)") (auto split: if_splits)
  next
    case (AppInbound inbound)
    with assms(2) have B: "B = connection_inbound inbound A" by (auto split: if_splits)
    have "publishes_in (bk_queue (ap_client (handle_inbound f A))) = publishes_in (bk_queue (ap_client A)) \<and>
        bk_open (ap_client (handle_inbound f A)) = bk_open (ap_client A)" for f
      by (cases f) (auto simp: client_response_def record_activity_def defs split: option.splits)
    with assms(1) B AppInbound show ?thesis
      by (auto simp: connection_inbound_def connection_end_def defs split: sum.splits option.splits)
  next
    case (DispatchStart k)
    with assms show ?thesis
      by (auto simp: dispatch_start_def reply_to_def client_queue split: option.splits dispatch.splits)
  next
    case (HandlerReturns k res)
    with assms show ?thesis by (auto simp: reply_to_def client_queue split: option.splits dispatch.splits)
  qed (use assms in \<open>auto simp: defs split: option.splits app_call.splits run_wait.splits if_splits\<close>)
qed

subsection \<open>The steps of the system\<close>

lemma events_invD:
  assumes "events_inv n (s, h)"
  shows "bus_inv n (nt_bus s)" "up_order (hi_published h c) (relayed_of h c @ publishes_in (nt_up s c)) (nt_apps s c)"
    "subseq (coming s h c) (map stamped (hi_relayed h))"
    "p \<in> set (hi_relayed h) \<Longrightarrow> service_of (bus_conns (nt_bus s)) (fst p) (fst (snd p))"
  using assms by (auto simp: events_inv_def)

text \<open>A step that reads no publication.\<close>

lemma events_inv_step:
  assumes inv: "events_inv n (s, h)" "n < 2 ^ 64 - 2" and step: "net_exec json debug a s = Some t"
    and same: "hi_relayed h' = hi_relayed h"
    and up: "\<And>c. up_order (hi_published h' c) (relayed_of h c @ publishes_in (nt_up t c)) (nt_apps t c)"
    and down: "\<And>c. subseq (coming t h' c) (coming s h c)"
  shows "events_inv (Suc n) (t, h')"
proof -
  note inv' = events_invD [OF inv(1)]
  from net_bus_step [OF step] have "bus_inv (Suc n) (nt_bus t) \<and> hello_kept (bus_conns (nt_bus s)) (bus_conns (nt_bus t))"
  proof (elim disjE exE)
    assume "nt_bus t = nt_bus s"
    with inv'(1) show ?thesis by (auto intro: bus_inv_mono)
  next
    fix b assume b: "bus_exec json b (nt_bus s) = Some (nt_bus t)"
    have "conn_inv n (nt_bus s)" using inv'(1) by (simp add: bus_inv_def)
    with bus_inv_exec [OF inv'(1) inv(2) b] bus_conns_exec [OF _ inv(2) b] show ?thesis by blast
  qed
  then have "bus_inv (Suc n) (nt_bus t)"
    "\<And>p. p \<in> set (hi_relayed h') \<Longrightarrow> service_of (bus_conns (nt_bus t)) (fst p) (fst (snd p))"
    using inv'(4) same service_of_mono by (simp_all del: split_paired_All) metis
  moreover have "subseq (coming t h' c) (map stamped (hi_relayed h'))" for c
    using subseq_order.order_trans [OF down inv'(3)] same by simp
  ultimately show ?thesis
    using up same by (simp add: events_inv_def relayed_of_def)
qed

text \<open>The step that does: the broker reads a publication of the app on \<open>c\<close> and fans it out.\<close>

lemma events_inv_publish:
  assumes inv: "events_inv n (s, h)" "n < 2 ^ 64 - 2" and up: "nt_up s c = Publish ev # fs"
    and k: "bus_conns (nt_bus s) c = Some k"
    and step: "bus_exec json (Inbound c (Inr (Some (Publish ev)))) (nt_bus s) = Some b"
  shows "events_inv (Suc n) (s\<lparr>nt_bus := b, nt_up := (nt_up s)(c := fs)\<rparr>,
           h\<lparr>hi_relayed := hi_relayed h @ [(c, cn_service k, ev)]\<rparr>)"
proof -
  let ?h = "h\<lparr>hi_relayed := hi_relayed h @ [(c, cn_service k, ev)]\<rparr>"
  let ?t = "s\<lparr>nt_bus := b, nt_up := (nt_up s)(c := fs)\<rparr>"
  note inv' = events_invD [OF inv(1)]
  have b: "b = (nt_bus s)\<lparr>bus_cells := fanout (bus_broker (nt_bus s)) (cn_service k) ev (bus_cells (nt_bus s))\<rparr>"
    using step k by (auto simp: session_inbound_def split: if_splits)
  have "bus_inv (Suc n) b" by (rule bus_inv_exec [OF inv'(1) inv(2) step])
  moreover have "up_order (hi_published ?h d) (relayed_of ?h d @ publishes_in (nt_up ?t d)) (nt_apps ?t d)" for d
    using inv'(2) [of d] up by (auto simp: relayed_of_def)
  moreover have "subseq (coming ?t ?h d) (map stamped (hi_relayed ?h))" for d
  proof -
    have "entries_ok (br_registry (bus_broker (nt_bus s))) (bus_conns (nt_bus s))"
      "dm_wf (br_subscriptions (bus_broker (nt_bus s)))"
      using inv'(1) by (simp_all add: bus_inv_def conn_inv_def)
    from fanout_once [OF this, of "cn_service k" ev "bus_cells (nt_bus s)" d]
    have "coming ?t ?h d = coming s h d \<or> coming ?t ?h d = coming s h d @ [stamped (c, cn_service k, ev)]"
      by (auto simp: coming_def b stamped_def)
    with inv'(3) [of d] show ?thesis by (auto intro: list_emb_append_mono)
  qed
  moreover have "service_of (bus_conns (nt_bus ?t)) (fst p) (fst (snd p))" if "p \<in> set (hi_relayed ?h)" for p
    using that inv'(4) [of p] k b by (auto simp: service_of_def)
  ultimately show ?thesis by (simp add: events_inv_def)
qed

lemma bus_coming:
  assumes "hi_received h' = hi_received h"
    and "\<And>d. subseq (events_in (nt_down t d) @ events_in (cl_queue (bus_cells (nt_bus t) d)))
      (events_in (nt_down s d) @ events_in (cl_queue (bus_cells (nt_bus s) d)))"
  shows "subseq (coming t h' c) (coming s h c)"
  unfolding coming_def assms(1) by (rule list_emb_append_mono [OF _ assms(2)]) simp

lemma events_inv_exec:
  assumes "events_inv n x" "n < 2 ^ 64 - 2" "event_log json debug a x = Some y"
  shows "events_inv (Suc n) y"
proof -
  obtain s h where x: "x = (s, h)" by fastforce
  with assms(3) obtain t where t: "net_exec json debug a s = Some t" "y = (t, note_events a s h)"
    by (auto simp: event_log_def)
  note inv = assms(1) [unfolded x] and room = assms(2)
  note step = events_inv_step [OF inv room t(1)] and inv' = events_invD [OF inv]
  note emb = list_emb_append_mono
  show ?thesis unfolding t(2)
  proof (cases a)
    case (NetBus b)
    with t(1) obtain u where u: "bus_exec json b (nt_bus s) = Some u" "t = s\<lparr>nt_bus := u\<rparr>" "\<not> bus_on_wire b"
      by (auto split: if_splits)
    from u(3) have "\<And>c ev. b \<noteq> Inbound c (Inr (Some (Publish ev)))" by auto
    from bus_order [OF u(1) this] u(2) NetBus inv'(2)
    show "events_inv (Suc n) (t, note_events a s h)" by (intro step bus_coming) (auto intro: emb)
  next
    case (NetAckWrite c ok)
    with t(1) obtain u f where u: "bus_exec json (AckWrite c ok) (nt_bus s) = Some u"
      "t = s\<lparr>nt_bus := u, nt_down := push c ok f (nt_down s)\<rparr>" "events_in [f] = []"
      by (auto simp: ack_frame_def split: option.splits)
    from bus_order [OF u(1)] u(2,3) NetAckWrite inv'(2)
    show "events_inv (Suc n) (t, note_events a s h)" by (intro step bus_coming) (auto simp: push_def intro: emb)
  next
    case (NetBusWrite c ok)
    with t(1) obtain u where u: "bus_exec json (WriterStep c ok) (nt_bus s) = Some u"
      "t = s\<lparr>nt_bus := u, nt_down := push c ok (hd (cl_queue (bus_cells (nt_bus s) c))) (nt_down s)\<rparr>" by auto
    have "subseq (events_in (nt_down t d) @ events_in (cl_queue (bus_cells (nt_bus t) d)))
      (events_in (nt_down s d) @ events_in (cl_queue (bus_cells (nt_bus s) d)))" for d
      using u by (cases "cl_queue (bus_cells (nt_bus s) c)")
        (auto simp: push_def bus_views split: option.splits if_splits)
    with u(2) NetBusWrite inv'(2) show "events_inv (Suc n) (t, note_events a s h)" by (intro step bus_coming) auto
  next
    case (NetBusRead c)
    with t(1) obtain f fs u where u: "nt_up s c = f # fs" "bus_exec json (Inbound c (Inr (Some f))) (nt_bus s) = Some u"
      "t = s\<lparr>nt_bus := u, nt_up := (nt_up s)(c := fs)\<rparr>"
      by (auto split: list.splits)
    show "events_inv (Suc n) (t, note_events a s h)"
    proof (cases "\<exists>ev. f = Publish ev")
      case True
      then obtain ev where f: "f = Publish ev" by blast
      with u(2) obtain k where "bus_conns (nt_bus s) c = Some k" by (auto split: option.splits)
      with events_inv_publish [OF inv room u(1) [unfolded f] this u(2) [unfolded f]] u(1,3) f NetBusRead
      show ?thesis by simp
    next
      case False
      then have "publishes_in fs = publishes_in (nt_up s c)" "\<And>d ev. Inbound c (Inr (Some f)) \<noteq> Inbound d (Inr (Some (Publish ev)))"
        using u(1) by (auto split: bus_frame.split)
      moreover from False have "note_events a s h = h" using u(1) NetBusRead by (auto split: bus_frame.split option.split)
      ultimately show ?thesis using bus_order [OF u(2)] u(3) inv'(2)
        by (intro step bus_coming) (auto intro: emb)
    qed
  next
    case (NetBusLost c e)
    with t(1) obtain u where u: "bus_exec json (Inbound c (lost e)) (nt_bus s) = Some u" "t = s\<lparr>nt_bus := u\<rparr>" by auto
    from bus_order [OF u(1)] u(2) NetBusLost inv'(2)
    show "events_inv (Suc n) (t, note_events a s h)" by (intro step bus_coming) (auto intro: emb)
  next
    case (NetEstablish c cfg handlers now)
    with t(1) obtain f fs client where u: "nt_apps s c = None" "nt_down s c = f # fs"
      "t = s\<lparr>nt_apps := (nt_apps s)(c \<mapsto> app_start client now), nt_down := (nt_down s)(c := fs)\<rparr>"
      "bk_queue client = []" "bk_open client"
      by (auto simp: establish_def client_new_def split: option.splits list.splits sum.splits)
    with NetEstablish inv'(2) [of c] inv'(2) show "events_inv (Suc n) (t, note_events a s h)"
      by (intro step bus_coming) (auto simp: app_start_def intro: emb)
  next
    case (NetApp c b)
    with t(1) obtain A B where u: "nt_apps s c = Some A" "app_exec b A = Some B" "\<not> app_on_wire b"
      "t = s\<lparr>nt_apps := (nt_apps s)(c \<mapsto> B)\<rparr>"
      by (auto split: if_splits option.splits)
    have "up_order (hi_published h c) (relayed_of h c @ publishes_in (nt_up s c)) (Some A)" using inv'(2) [of c] u(1) by simp
    from up_order_exec [OF this u(2)] u inv'(2) NetApp show "events_inv (Suc n) (t, note_events a s h)"
      by (intro step bus_coming; cases b) (auto simp: publish_result coming_def simp del: up_order.simps(2))
  next
    case (NetAppWrite c ok)
    with t(1) obtain A B where u: "nt_apps s c = Some A" "app_exec (AppWriter ok) A = Some B"
      "t = s\<lparr>nt_apps := (nt_apps s)(c \<mapsto> B), nt_up := push c ok (hd (bk_queue (ap_client A))) (nt_up s)\<rparr>"
      by (auto split: option.splits)
    have "up_order (hi_published h c) (relayed_of h c @ publishes_in (nt_up s c)) (Some A)" using inv'(2) [of c] u(1) by simp
    from up_order_exec [OF this u(2)] u inv'(2) NetAppWrite show "events_inv (Suc n) (t, note_events a s h)"
      by (intro step bus_coming; cases ok) (auto simp: push_def simp del: up_order.simps(2))
  next
    case (NetAppRead c)
    with t(1) obtain A B f fs where u: "nt_apps s c = Some A" "nt_down s c = f # fs"
      "app_exec (AppInbound (Inr (Some f))) A = Some B"
      "t = s\<lparr>nt_apps := (nt_apps s)(c \<mapsto> B), nt_down := (nt_down s)(c := fs)\<rparr>"
      by (auto split: option.splits list.splits)
    have "up_order (hi_published h c) (relayed_of h c @ publishes_in (nt_up s c)) (Some A)" using inv'(2) [of c] u(1) by simp
    from up_order_exec [OF this u(3)] u inv'(2) NetAppRead show "events_inv (Suc n) (t, note_events a s h)"
      by (intro step; cases f) (auto simp: coming_def simp del: up_order.simps(2))
  next
    case (NetAppLost c e)
    with t(1) obtain A B where u: "nt_apps s c = Some A" "app_exec (AppInbound (lost e)) A = Some B"
      "t = s\<lparr>nt_apps := (nt_apps s)(c \<mapsto> B)\<rparr>"
      by (auto split: option.splits)
    have "up_order (hi_published h c) (relayed_of h c @ publishes_in (nt_up s c)) (Some A)" using inv'(2) [of c] u(1) by simp
    from up_order_exec [OF this u(2)] u inv'(2) NetAppLost show "events_inv (Suc n) (t, note_events a s h)"
      by (intro step bus_coming) (auto simp del: up_order.simps(2))
  qed
qed

lemma events_inv_init: "events_inv 0 (net_init config, no_history)"
  using bus.inv_init [of config] by (simp add: events_inv_def net_init_def no_history_def relayed_of_def coming_def bus_init_def fresh_cell_def)

interpretation events: guarded_system "event_log json debug" events_inv "2 ^ 64 - 2" "(net_init config, no_history)" for json debug config
  by unfold_locales (rule events_inv_exec, assumption+, rule events_inv_init)

lemma stamped_of_service:
  "filter (\<lambda>ev. ev_from ev = Some sv) (map stamped ps) =
   map (\<lambda>p. (snd p)\<lparr>ev_from := Some sv\<rparr>) (map (\<lambda>p. (fst p, snd (snd p))) (filter (\<lambda>p. fst (snd p) = sv) ps))"
  by (induction ps) (auto simp: stamped_def split: prod.splits)

text \<open>What the broker has read of one connection carries the name of one service.\<close>

lemma relayed_of_service:
  assumes "\<forall>p \<in> set ps. service_of conns (fst p) (fst (snd p))"
  shows "map snd (filter (\<lambda>p. fst p = d) (map (\<lambda>p. (fst p, snd (snd p))) (filter (\<lambda>p. fst (snd p) = sv) ps))) =
    (if service_of conns d sv then map (snd \<circ> snd) (filter (\<lambda>p. fst p = d) ps) else [])"
  using assms by (induction ps) (auto simp: service_of_def simp del: map_map split: if_splits)

lemma relayed_published:
  assumes "events_inv n (s, h)"
  shows "prefix (relayed_of h d) (hi_published h d)"
  using events_invD(2) [OF assms, of d] by (cases "nt_apps s d") (auto simp: prefix_def)

text \<open>A run in which the app of \<open>echo\<close> publishes twice to the app of \<open>log\<close>.\<close>

definition demo_connect :: "conn_id \<Rightarrow> string \<Rightarrow> u64 \<Rightarrow> net_action list" where
  "demo_connect c service ctr =
     [NetBus (IssueToken service 5 7), NetBus (Accept (Inr (Some (Hello (demo_hello service ctr))))), NetAckWrite c True,
      NetEstablish c \<lparr>cfg_endpoint = EpUnixSocket ''/run/bus'', cfg_auth_token = [], cfg_reconnect_max_backoff = None,
                      cfg_idle_exit = None\<rparr> [] 0]"

definition demo_events :: "net_action list" where
  "demo_events =
     demo_connect 0 ''echo'' 0 @ demo_connect 1 ''log'' 1 @
     [NetApp 1 (AppSubscribe ''job''), NetAppWrite 1 True, NetBusRead 1,
      NetApp 0 (AppPublish ''job'' [1]), NetAppWrite 0 True, NetBusRead 0, NetBusWrite 1 True, NetAppRead 1,
      NetApp 0 (AppPublish ''job'' [2]), NetAppWrite 0 True, NetBusRead 0, NetBusWrite 1 True, NetAppRead 1]"

lemma demo_events_result:
  "map_option (\<lambda>x. hi_received (snd x) 1)
     (run_actions (event_log demo_json (\<lambda>_. [])) demo_events (net_init broker_config_default, no_history)) =
   Some [\<lparr>ev_topic = ''job'', ev_payload = [1], ev_from = Some ''echo''\<rparr>,
         \<lparr>ev_topic = ''job'', ev_payload = [2], ev_from = Some ''echo''\<rparr>]"
  by (simp add: demo_events_def demo_connect_def event_log_def no_history_def net_init_def demo_eval push_def ack_frame_def establish_def
      hello_reply_def client_new_def app_start_def client_send_def client_publish_def client_subscribe_def connection_inbound_def
      record_activity_def fanout_def fanout_targets_def str_simps publish_result)

section \<open>Theorems\<close>

text \<open>
  C3. Events arrive in order: after any run of broker and apps, whatever connections are lost, the
  events that an app has received from a service \<open>sv\<close> are a subsequence of an interleaving \<open>ps\<close> of
  what the apps connected as \<open>sv\<close> have published, stamped with \<open>sv\<close>; of each of these connections the
  interleaving has the first publications, in order. So nothing is received that was not published,
  nothing twice, and nothing of one publisher out of order; and no event is received without the name
  of its service.
\<close>

theorem events_in_order:
  assumes "run_actions (event_log json debug) as (net_init config, no_history) = Some (s, h)" "length as \<le> 2 ^ 64 - 2"
  shows "\<exists>ps.
    subseq (filter (\<lambda>ev. ev_from ev = Some sv) (hi_received h c)) (map (\<lambda>p. (snd p)\<lparr>ev_from := Some sv\<rparr>) ps) \<and>
    (\<forall>d. prefix (map snd (filter (\<lambda>p. fst p = d) ps)) (hi_published h d)) \<and>
    (\<forall>p \<in> set ps. service_of (bus_conns (nt_bus s)) (fst p) sv) \<and>
    (\<forall>ev \<in> set (hi_received h c). ev_from ev \<noteq> None)"
proof -
  have inv: "events_inv (length as) (s, h)" using assms by (intro events.inv_run)
  note inv' = events_invD [OF inv]
  let ?ps = "map (\<lambda>p. (fst p, snd (snd p))) (filter (\<lambda>p. fst (snd p) = sv) (hi_relayed h))"
  have "subseq (hi_received h c) (coming s h c)" unfolding coming_def by (rule prefix_imp_subseq) simp
  then have sub: "subseq (hi_received h c) (map stamped (hi_relayed h))" using inv'(3) by (rule subseq_order.order_trans)
  show ?thesis
  proof (intro exI [of _ ?ps] conjI allI ballI)
    show "subseq (filter (\<lambda>ev. ev_from ev = Some sv) (hi_received h c)) (map (\<lambda>p. (snd p)\<lparr>ev_from := Some sv\<rparr>) ?ps)"
      using subseq_filter [OF sub, of "\<lambda>ev. ev_from ev = Some sv"] unfolding stamped_of_service .
  next
    fix d
    have "\<forall>p \<in> set (hi_relayed h). service_of (bus_conns (nt_bus s)) (fst p) (fst (snd p))" using inv'(4) by blast
    from relayed_of_service [OF this, of d sv] relayed_published [OF inv, of d]
    show "prefix (map snd (filter (\<lambda>p. fst p = d) ?ps)) (hi_published h d)"
      by (simp only: relayed_of_def split: if_split) simp
  next
    fix p assume "p \<in> set ?ps"
    then show "service_of (bus_conns (nt_bus s)) (fst p) sv" using inv'(4) by auto
  next
    fix ev assume "ev \<in> set (hi_received h c)"
    from list_emb_set [OF sub this] obtain y where "y \<in> set (map stamped (hi_relayed h))" "ev = y" by metis
    then obtain p where "ev = stamped p" by auto
    then show "ev_from ev \<noteq> None" by (simp add: stamped_def split: prod.splits)
  qed
qed

theorem events_in_order_witness:
  "\<exists>s h ps. run_actions (event_log demo_json (\<lambda>_. [])) demo_events (net_init broker_config_default, no_history) = Some (s, h) \<and>
     length (filter (\<lambda>ev. ev_from ev = Some ''echo'') (hi_received h 1)) = 2 \<and> 2 \<le> length ps \<and>
     (\<forall>d. prefix (map snd (filter (\<lambda>p. fst p = d) ps)) (hi_published h d))"
proof -
  obtain s h where run: "run_actions (event_log demo_json (\<lambda>_. [])) demo_events (net_init broker_config_default, no_history) = Some (s, h)"
    and got: "length (filter (\<lambda>ev. ev_from ev = Some ''echo'') (hi_received h 1)) = 2"
    using demo_events_result by (auto simp: map_option_eq_Some)
  have "length demo_events \<le> 2 ^ 64 - 2" by (simp add: demo_events_def demo_connect_def)
  from events_in_order [OF run this, of "''echo''" 1] obtain ps where ps:
    "subseq (filter (\<lambda>ev. ev_from ev = Some ''echo'') (hi_received h 1)) (map (\<lambda>p. (snd p)\<lparr>ev_from := Some ''echo''\<rparr>) ps)"
    "\<forall>d. prefix (map snd (filter (\<lambda>p. fst p = d) ps)) (hi_published h d)" by (elim exE conjE)
  from list_emb_length [OF ps(1)] got have "2 \<le> length ps" by simp
  with run got ps(2) show ?thesis by (intro exI conjI)
qed

end
