(* ===== verification/Progress.thy ===== *)
theory Progress
  imports At_Most_Once
begin

text \<open>
  No call of a connected app gets lost or stuck. While the connection of an app is up on both sides, a
  call that waits is always somewhere: its request on the way to the broker, its task in the broker, or
  its answer on the way back. And it can be brought to its end by the steps of the app's own connection
  and the broker's timer, whatever the service that it calls does.
\<close>

section \<open>Definitions\<close>

text \<open>Both ends of connection \<open>c\<close> are up.\<close>

definition bus_up :: "bus \<Rightarrow> conn_id \<Rightarrow> bool" where
  "bus_up b c \<longleftrightarrow> (\<exists>k. bus_conns b c = Some k \<and> cn_phase k = Serving) \<and> cl_open (bus_cells b c)"

definition app_up :: "app \<Rightarrow> bool" where
  "app_up A \<longleftrightarrow> ap_reading A \<and> bk_open (ap_client A)"

text \<open>Where a call may be that an app on \<open>c\<close> made under the id \<open>r\<close>.\<close>

definition has_request :: "u64 \<Rightarrow> bus_frame list \<Rightarrow> bool" where
  "has_request r fs \<longleftrightarrow> (\<exists>v. Invoke v \<in> set fs \<and> inv_req_id v = r)"

definition has_answer :: "u64 \<Rightarrow> bus_frame list \<Rightarrow> bool" where
  "has_answer r fs \<longleftrightarrow> (\<exists>resp. Response resp \<in> set fs \<and> rsp_req_id resp = r)"

definition task_for :: "conn_id \<Rightarrow> u64 \<Rightarrow> task \<Rightarrow> bool" where
  "task_for c r t \<longleftrightarrow>
     (\<exists>sv v. t = ReadyInvoke c sv v \<and> inv_req_id v = r) \<or> (\<exists>spec w. t = Awaiting (FromApp c r) spec w)"

definition in_broker :: "bus \<Rightarrow> conn_id \<Rightarrow> u64 \<Rightarrow> bool" where
  "in_broker b c r \<longleftrightarrow> (\<exists>i t. bus_tasks b i = Some t \<and> task_for c r t) \<or> has_answer r (cl_queue (bus_cells b c))"

definition on_its_way :: "net \<Rightarrow> conn_id \<Rightarrow> app \<Rightarrow> u64 \<Rightarrow> bool" where
  "on_its_way s c A r \<longleftrightarrow>
     has_request r (nt_up s c @ bk_queue (ap_client A)) \<or> in_broker (nt_bus s) c r \<or> has_answer r (nt_down s c)"

text \<open>The broker has acknowledged the hello of \<open>c\<close>, or failed to.\<close>

definition acked :: "bus \<Rightarrow> conn_id \<Rightarrow> bool" where
  "acked b c \<longleftrightarrow> (\<exists>k. bus_conns b c = Some k \<and> cn_phase k \<noteq> AwaitAck)"

text \<open>Calls of apps carry the default timeout.\<close>

definition timed :: "duration \<Rightarrow> bus \<Rightarrow> bool" where
  "timed d b \<longleftrightarrow>
     bc_default_call_timeout (br_config (bus_broker b)) = d \<and>
     (\<forall>i c r spec w. bus_tasks b i = Some (Awaiting (FromApp c r) spec w) \<longrightarrow> cs_timeout spec = d)"

definition waiting :: "app \<Rightarrow> nat \<Rightarrow> u64 \<Rightarrow> bool" where
  "waiting A j r \<longleftrightarrow> ap_calls A j = Some (CallWaiting r) \<and> ap_oneshots A j = None"

definition progress_inv :: "duration \<Rightarrow> nat \<Rightarrow> net \<Rightarrow> bool" where
  "progress_inv d n s \<longleftrightarrow>
     bus_inv n (nt_bus s) \<and> timed d (nt_bus s) \<and>
     (\<forall>c. nt_apps s c \<noteq> None \<or> nt_down s c \<noteq> [] \<longrightarrow> acked (nt_bus s) c) \<and>
     (\<forall>c A. nt_apps s c = Some A \<longrightarrow> client_inv n A) \<and>
     (\<forall>c A j r. nt_apps s c = Some A \<and> app_up A \<and> bus_up (nt_bus s) c \<and> waiting A j r \<longrightarrow> on_its_way s c A r)"

text \<open>
  The steps that bring call \<open>j\<close> of the app on \<open>c\<close> to its end: reads and writes of its connection, the
  start of a task and the timer in the broker, and the end of its own await.
\<close>

fun own_step :: "conn_id \<Rightarrow> nat \<Rightarrow> net_action \<Rightarrow> bool" where
  "own_step c j (NetAppWrite e ok) \<longleftrightarrow> e = c \<and> ok"
| "own_step c j (NetBusRead e) \<longleftrightarrow> e = c"
| "own_step c j (NetBusWrite e ok) \<longleftrightarrow> e = c \<and> ok"
| "own_step c j (NetAppRead e) \<longleftrightarrow> e = c"
| "own_step c j (NetBus (StartTask i)) \<longleftrightarrow> True"
| "own_step c j (NetBus (TimerFires i)) \<longleftrightarrow> True"
| "own_step c j (NetApp e (AppCallReady i)) \<longleftrightarrow> e = c \<and> i = j"
| "own_step c j a \<longleftrightarrow> False"

definition can_reach ::
  "(bytes \<Rightarrow> capability_response option) \<Rightarrow> (bus_frame \<Rightarrow> string) \<Rightarrow> conn_id \<Rightarrow> nat \<Rightarrow> (net \<Rightarrow> bool) \<Rightarrow> net \<Rightarrow> bool" where
  "can_reach json debug c j P s \<longleftrightarrow>
     (\<exists>bs t. run_actions (net_exec json debug) bs s = Some t \<and> (\<forall>b \<in> set bs. own_step c j b) \<and> P t)"

text \<open>The app on \<open>c\<close>, connected, with a call that has its response or is in the table of pending calls.\<close>

definition pends :: "app \<Rightarrow> nat \<Rightarrow> u64 \<Rightarrow> bool" where
  "pends A j r \<longleftrightarrow>
     ap_calls A j = Some (CallWaiting r) \<and> (ap_oneshots A j \<noteq> None \<or> dm_get (bk_pending (ap_client A)) r = Some j)"

definition ready :: "duration \<Rightarrow> conn_id \<Rightarrow> nat \<Rightarrow> u64 \<Rightarrow> net \<Rightarrow> bool" where
  "ready d c j r s \<longleftrightarrow>
     bus_up (nt_bus s) c \<and> timed d (nt_bus s) \<and> (\<exists>A. nt_apps s c = Some A \<and> app_up A \<and> pends A j r)"

section \<open>Lemmas\<close>

lemma has_request_simps [simp]:
  "\<not> has_request r []" "has_request r (fs @ gs) \<longleftrightarrow> has_request r fs \<or> has_request r gs"
  "has_request r (f # fs) \<longleftrightarrow> (\<exists>v. f = Invoke v \<and> inv_req_id v = r) \<or> has_request r fs"
  by (auto simp: has_request_def)

lemma has_answer_simps [simp]:
  "\<not> has_answer r []" "has_answer r (fs @ gs) \<longleftrightarrow> has_answer r fs \<or> has_answer r gs"
  "has_answer r (f # fs) \<longleftrightarrow> (\<exists>resp. f = Response resp \<and> rsp_req_id resp = r) \<or> has_answer r fs"
  by (auto simp: has_answer_def)

subsection \<open>Queues of the broker only grow\<close>

definition grown :: "cells \<Rightarrow> cells \<Rightarrow> bool" where
  "grown cs cs' \<longleftrightarrow> (\<forall>c. cl_open (cs' c) = cl_open (cs c) \<and> prefix (cl_queue (cs c)) (cl_queue (cs' c)))"

lemma grown_refl [simp]: "grown cs cs"
  by (simp add: grown_def)

lemma grown_trans: "grown cs cs' \<Longrightarrow> grown cs' cs'' \<Longrightarrow> grown cs cs''"
  unfolding grown_def by (metis prefix_order.trans)

lemma chan_send_grown [simp]: "grown cs (fst (chan_send c f cs))"
  by (simp add: grown_def chan_send_def)

lemma finish_task_grown [simp]: "grown (bus_cells s) (bus_cells (finish_task json i og r s))"
  by (simp add: finish_task_def Let_def split: origin.split)

lemma call_resume_grown: "grown cs (snd (call_resume w d wk cs))"
  by (cases w; cases wk) (simp_all add: grown_def)

lemma resume_task_grown [simp]: "grown (bus_cells s) (bus_cells (resume_task json i og spec w wk s))"
  using call_resume_grown [of "bus_cells s" w "cs_timeout spec" wk]
  by (cases "call_resume w (cs_timeout spec) wk (bus_cells s)")
     (auto simp: resume_task_def intro: grown_trans [OF _ finish_task_grown, of _ "s\<lparr>bus_cells := _\<rparr>", simplified])

lemma reserve_grown [simp]: "grown cs (reserve c i cs)"
  by (simp add: grown_def reserve_def)

lemma call_begin_grown: "grown cs (snd (call_begin b i service m payload caller cs))"
  by (auto simp: call_begin_def call_remote_def chan_send_def grown_def Let_def split: option.splits prod.splits bool.splits)

lemma start_call_grown [simp]: "grown (bus_cells s) (bus_cells (start_call json i og spec s))"
  using call_begin_grown [of "bus_cells s" "bus_broker s" i "cs_service spec" "cs_method spec" "cs_payload spec" "cs_caller spec"]
  by (auto simp: start_call_def intro: grown_trans [OF _ finish_task_grown, of _ "s\<lparr>bus_cells := _\<rparr>", simplified]
      split: prod.splits sum.splits)

lemma start_task_grown [simp]: "grown (bus_cells s) (bus_cells (start_task json i t s))"
  by (cases t) (auto split: option.splits)

lemma fanout_grown [simp]: "grown cs (fanout b sv ev cs)"
proof -
  have "grown cs (fanout_send b ev ts cs)" for ev ts
    by (induction b ev ts cs rule: fanout_send.induct) (auto intro: grown_trans [OF chan_send_grown] split: option.splits)
  then show ?thesis by (simp add: fanout_def Let_def)
qed

lemma shutdown_service_grown [simp]: "grown cs (snd (shutdown_service b sv cs))"
  by (simp add: shutdown_service_snd split: option.split)

lemma deliver_response_grown [simp]: "grown (bus_cells s) (bus_cells (deliver_response c resp s))"
  by (simp add: deliver_response_def grown_def split: option.split)

subsection \<open>A call in the broker stays there until it is has_answer\<close>

lemma finish_answers:
  "cl_open (bus_cells s c) \<Longrightarrow> has_answer r (cl_queue (bus_cells (finish_task json i (FromApp c r) res s) c))"
  by (simp add: finish_task_def Let_def chan_send_def)

lemma resume_answers:
  assumes "cl_open (bus_cells s c)"
  shows "has_answer r (cl_queue (bus_cells (resume_task json i (FromApp c r) spec w wk s) c))"
proof (cases "call_resume w (cs_timeout spec) wk (bus_cells s)")
  case (Pair res cs)
  with call_resume_grown [of "bus_cells s" w "cs_timeout spec" wk] assms have "cl_open (cs c)" by (simp add: grown_def)
  with Pair finish_answers [of "s\<lparr>bus_cells := cs\<rparr>"] show ?thesis by (simp add: resume_task_def)
qed

lemma start_call_progress:
  assumes "cl_open (bus_cells s c)"
  shows "(\<exists>w. bus_tasks (start_call json i (FromApp c r) spec s) i = Some (Awaiting (FromApp c r) spec w)) \<or>
    has_answer r (cl_queue (bus_cells (start_call json i (FromApp c r) spec s) c))"
proof (cases "call_begin (bus_broker s) i (cs_service spec) (cs_method spec) (cs_payload spec) (cs_caller spec) (bus_cells s)")
  case (Pair res cs)
  have "cl_open (cs c)"
    using call_begin_grown [of "bus_cells s" "bus_broker s" i "cs_service spec" "cs_method spec" "cs_payload spec" "cs_caller spec"]
      assms Pair by (simp add: grown_def)
  with Pair finish_answers [of "s\<lparr>bus_cells := cs\<rparr>"] show ?thesis
    by (cases res) (simp_all add: start_call_def)
qed

lemma start_task_progress:
  assumes "cl_open (bus_cells s c)" "task_for c r t" "unstarted t"
  shows "(\<exists>spec w. bus_tasks (start_task json i t s) i = Some (Awaiting (FromApp c r) spec w) \<and>
      cs_timeout spec = bc_default_call_timeout (br_config (bus_broker s))) \<or>
    has_answer r (cl_queue (bus_cells (start_task json i t s) c))"
proof -
  from assms(2,3) obtain sv v where t: "t = ReadyInvoke c sv v" "r = inv_req_id v" by (auto simp: task_for_def)
  show ?thesis
  proof (cases "split_once (inv_method v) (CHR ''.'')")
    case None
    with t finish_answers [OF assms(1)] show ?thesis by simp
  next
    case (Some p)
    with t start_call_progress [OF assms(1), of json i r] show ?thesis by (cases p) fastforce
  qed
qed

lemma other_task [simp]:
  "j \<noteq> i \<Longrightarrow> bus_tasks (finish_task json i og res s) j = bus_tasks s j"
  "j \<noteq> i \<Longrightarrow> bus_tasks (start_call json i og spec s) j = bus_tasks s j"
  "j \<noteq> i \<Longrightarrow> bus_tasks (resume_task json i og spec w wk s) j = bus_tasks s j"
  by (auto simp: bus_views start_call_def resume_task_def split: prod.split sum.split)

lemma other_start_task [simp]: "j \<noteq> i \<Longrightarrow> bus_tasks (start_task json i t s) j = bus_tasks s j"
  by (cases t) (auto split: option.split)

text \<open>At one connection: the channel was open if it is, and its queue has grown.\<close>

definition kept_at :: "conn_id \<Rightarrow> bus \<Rightarrow> bus \<Rightarrow> bool" where
  "kept_at c s t \<longleftrightarrow>
     (cl_open (bus_cells t c) \<longrightarrow> cl_open (bus_cells s c) \<and> prefix (cl_queue (bus_cells s c)) (cl_queue (bus_cells t c)))"

lemma kept_at_grown: "grown (bus_cells s) (bus_cells t) \<Longrightarrow> kept_at c s t"
  by (simp add: kept_at_def grown_def)

lemma kept_at_close: "bus_cells t = close_channel d (bus_cells s) \<Longrightarrow> kept_at c s t"
  by (simp add: kept_at_def close_channel_def)

lemma queue_kept:
  assumes "bus_exec json a s = Some t" "\<And>ok. a \<noteq> WriterStep c ok"
  shows "kept_at c s t"
proof (cases a)
  case (Inbound d inbound)
  with assms(1) obtain k where "t = session_inbound d k inbound s" by (auto split: option.splits if_splits)
  then show ?thesis
    by (auto simp: session_inbound_def session_end_def Let_def bus_views intro: kept_at_close kept_at_grown
        split: sum.splits option.splits bus_frame.splits)
next
  case (WriterStep d ok)
  with assms(2) [of ok] have "d \<noteq> c" by simp
  with assms(1) WriterStep show ?thesis by (auto simp: kept_at_def close_channel_def split: option.splits if_splits)
qed (use assms(1) in \<open>auto simp: bus_views accept_def ack_failed_def ack_written_def Let_def simp del: start_task.simps
      intro: kept_at_grown kept_at_close split: option.splits task.splits call_wait.splits if_splits prod.splits handshake.splits\<close>)

lemma awaiting_resumed:
  assumes "bus_tasks s j = Some (Awaiting og spec w)" "t = resume_task json j og spec w wk s"
    and "bus_tasks s i = Some tk" "task_for c r tk" "cl_open (bus_cells s c)"
  shows "bus_tasks t i = Some tk \<or> has_answer r (cl_queue (bus_cells t c))"
proof (cases "j = i")
  case True
  with assms(1,3,4) have "og = FromApp c r" by (auto simp: task_for_def)
  with assms(2) resume_answers [OF assms(5)] show ?thesis by simp
qed (use assms(2,3) in simp)

definition resumes :: "call_id \<Rightarrow> bus_action \<Rightarrow> bool" where
  "resumes j a \<longleftrightarrow> (\<exists>res. a = LocalResolves j res) \<or> a = TimerFires j \<or> a = OneshotReady j \<or> a = OneshotClosed j"

lemma resume_exec:
  "bus_exec json a s = Some t \<Longrightarrow> resumes j a \<Longrightarrow>
   \<exists>og spec w wk. bus_tasks s j = Some (Awaiting og spec w) \<and> t = resume_task json j og spec w wk s"
  by (auto simp: resumes_def split: option.splits task.splits call_wait.splits if_splits)

text \<open>A task of a call stays as it is, starts, or answers.\<close>

lemma task_kept:
  assumes "bus_exec json a s = Some t" "bus_tasks s (bus_n_tasks s) = None" "bus_tasks s i = Some tk" "task_for c r tk"
    and "cl_open (bus_cells s c)"
  shows "bus_tasks t i = Some tk \<or> a = StartTask i \<and> unstarted tk \<and> (\<exists>spec w. bus_tasks t i = Some (Awaiting (FromApp c r) spec w)) \<or>
    has_answer r (cl_queue (bus_cells t c))"
proof -
  from assms(2,3) have i: "i \<noteq> bus_n_tasks s" by auto
  have resumed: ?thesis if "resumes j a" for j
    using resume_exec [OF assms(1) that] awaiting_resumed [OF _ _ assms(3,4,5)] by blast
  show ?thesis
  proof (cases a)
    case (StartTask j)
    with assms(1) obtain u where u: "bus_tasks s j = Some u" "unstarted u" "t = start_task json j u s"
      using start_exec by blast
    show ?thesis
    proof (cases "j = i")
      case True
      with u assms(3) have "u = tk" "t = start_task json i tk s" by simp_all
      with start_task_progress [OF assms(5,4), of json i] u(2) StartTask True show ?thesis by auto
    qed (use u(3) assms(3) in simp)
  next
    case (Inbound d inbound)
    with assms(1) obtain k where "t = session_inbound d k inbound s" by (auto split: option.splits if_splits)
    with i assms(3) show ?thesis
      by (auto simp: session_inbound_def session_end_def deliver_response_def spawn_task_def set_phase_def Let_def
          split: sum.splits option.splits bus_frame.splits)
  next
    case (LocalResolves j result)
    then show ?thesis by (intro resumed [of j]) (simp add: resumes_def)
  next
    case (TimerFires j)
    then show ?thesis by (intro resumed [of j]) (simp add: resumes_def)
  next
    case (OneshotReady j)
    then show ?thesis by (intro resumed [of j]) (simp add: resumes_def)
  next
    case (OneshotClosed j)
    then show ?thesis by (intro resumed [of j]) (simp add: resumes_def)
  qed (use assms(1,3) i in \<open>auto simp: accept_def ack_failed_def ack_written_def spawn_task_def set_phase_def Let_def
      split: option.splits if_splits prod.splits handshake.splits\<close>)
qed

lemma in_broker_step:
  assumes "bus_exec json a s = Some t" "bus_tasks s (bus_n_tasks s) = None" "in_broker s c r" "cl_open (bus_cells t c)"
    and "\<And>ok. a \<noteq> WriterStep c ok"
  shows "in_broker t c r"
proof -
  from queue_kept [OF assms(1,5)] assms(4) have kept: "cl_open (bus_cells s c)" "prefix (cl_queue (bus_cells s c)) (cl_queue (bus_cells t c))"
    by (simp_all add: kept_at_def)
  from assms(3) [unfolded in_broker_def] show ?thesis
  proof (elim disjE exE conjE)
    fix i tk assume "bus_tasks s i = Some tk" "task_for c r tk"
    from task_kept [OF assms(1,2) this kept(1)] this show ?thesis unfolding in_broker_def task_for_def by blast
  next
    assume "has_answer r (cl_queue (bus_cells s c))"
    with set_mono_prefix [OF kept(2)] show ?thesis by (auto simp: in_broker_def has_answer_def)
  qed
qed

lemma in_broker_invoke:
  assumes "bus_exec json (Inbound c (Inr (Some (Invoke v)))) s = Some t"
  shows "in_broker t c (inv_req_id v)"
  using assms by (auto simp: session_inbound_def spawn_task_def in_broker_def task_for_def split: option.splits if_splits)


subsection \<open>The phase of a connection, and timeouts\<close>

lemma bus_conns_calls [simp]:
  "bus_conns (finish_task json i og res s) = bus_conns s" "bus_conns (start_call json i og spec s) = bus_conns s"
  "bus_conns (resume_task json i og spec w wk s) = bus_conns s" "bus_conns (start_task json i t s) = bus_conns s"
  "bus_conns (deliver_response d resp s) = bus_conns s"
  by (simp_all add: bus_views)

lemma conns_step:
  assumes "bus_exec json a s = Some t" "bus_conns s (bus_n_conns s) = None" "acked s c"
  shows "acked t c \<and> ((\<exists>k. bus_conns t c = Some k \<and> cn_phase k = Serving) \<longrightarrow> (\<exists>k. bus_conns s c = Some k \<and> cn_phase k = Serving))"
proof (cases a)
  case (Inbound d inbound)
  with assms(1) obtain k where "t = session_inbound d k inbound s" "bus_conns s d = Some k" "cn_phase k = Serving"
    by (auto split: option.splits if_splits)
  with assms(3) show ?thesis
    by (auto simp: acked_def session_inbound_def session_end_def spawn_task_def set_phase_def Let_def
        split: sum.splits option.splits bus_frame.splits)
next
  case (Accept inbound)
  with assms show ?thesis by (auto simp: acked_def accept_def split: prod.splits handshake.splits if_splits)
qed (use assms(1,3) in \<open>auto simp: acked_def ack_failed_def ack_written_def spawn_task_def set_phase_def Let_def
      simp del: start_task.simps split: option.splits task.splits call_wait.splits if_splits\<close>)

lemma bus_up_back:
  assumes "bus_exec json a s = Some t" "bus_conns s (bus_n_conns s) = None" "acked s c" "bus_up t c"
  shows "bus_up s c"
proof (cases "\<exists>ok. a = WriterStep c ok")
  case True
  with assms(1) show ?thesis by (auto simp: bus_up_def split: option.splits if_splits)
next
  case False
  then have "cl_open (bus_cells s c)"
    using queue_kept [OF assms(1), of c] assms(4) by (auto simp: kept_at_def bus_up_def)
  with conns_step [OF assms(1,2,3)] assms(4) show ?thesis by (simp add: bus_up_def)
qed

lemma serve_handshake_config [simp]: "br_config (fst (serve_handshake c inbound b)) = br_config b"
  by (auto simp: serve_handshake_def consume_token_def next_client_id_def registry_insert_def Let_def
      split: sum.splits option.splits bus_frame.splits bool.splits)

lemma accept_config [simp]: "br_config (bus_broker (accept inbound s)) = br_config (bus_broker s)"
  using serve_handshake_config [of "bus_n_conns s" inbound "bus_broker s"]
  by (cases "serve_handshake (bus_n_conns s) inbound (bus_broker s)") (simp add: accept_def split: handshake.split)

lemma probe_done_config [simp]: "br_config (probe_done json sv g r b) = br_config b"
  by (auto simp: probe_done_def Let_def split: option.split sum.split prod.split)

lemma call_config [simp]:
  "br_config (bus_broker (finish_task json i og res s)) = br_config (bus_broker s)"
  by (simp add: finish_task_def Let_def split: origin.split)

lemma calls_config [simp]:
  "br_config (bus_broker (start_call json i og spec s)) = br_config (bus_broker s)"
  "br_config (bus_broker (resume_task json i og spec w wk s)) = br_config (bus_broker s)"
  by (auto simp: start_call_def resume_task_def split: prod.split sum.split)

lemma start_task_config [simp]: "br_config (bus_broker (start_task json i t s)) = br_config (bus_broker s)"
  by (cases t) (auto split: option.split)

lemma exec_config:
  assumes "bus_exec json a s = Some t"
  shows "br_config (bus_broker t) = br_config (bus_broker s)"
proof (cases a)
  case (Inbound d inbound)
  with assms obtain k where "t = session_inbound d k inbound s" by (auto split: option.splits if_splits)
  then show ?thesis
    by (auto simp: session_inbound_def session_end_def detach_session_def spawn_task_def set_phase_def subscribe_def unsubscribe_def
        deliver_response_def Let_def split: sum.splits option.splits bus_frame.splits)
qed (use assms in \<open>auto simp: ack_failed_def ack_written_def attach_session_def probe_start_def spawn_task_def set_phase_def
      issue_token_def register_local_service_def Let_def
      simp del: start_task.simps split: option.splits task.splits call_wait.splits if_splits\<close>)

lemma start_task_timed:
  assumes "bus_tasks (start_task json i t s) j = Some (Awaiting (FromApp c r) spec w)" "unstarted t"
  shows "bus_tasks s j = Some (Awaiting (FromApp c r) spec w) \<or> cs_timeout spec = bc_default_call_timeout (br_config (bus_broker s))"
  using assms by (cases t) (auto simp: bus_views split: option.splits if_splits dest!: start_call_tasks)

lemma timed_exec:
  assumes "timed d s" "bus_exec json a s = Some t"
  shows "timed d t"
proof -
  have "bus_tasks s i = Some (Awaiting (FromApp c r) spec w) \<or> cs_timeout spec = bc_default_call_timeout (br_config (bus_broker s))"
    if "bus_tasks t i = Some (Awaiting (FromApp c r) spec w)" for i c r spec w
  proof (cases a)
    case (StartTask j)
    with assms(2) obtain u where "unstarted u" "t = start_task json j u s" using start_exec by blast
    with start_task_timed that show ?thesis by blast
  next
    case (Inbound e inbound)
    with assms(2) obtain k where "t = session_inbound e k inbound s" by (auto split: option.splits if_splits)
    with that show ?thesis
      by (auto simp: session_inbound_def session_end_def deliver_response_def spawn_task_def set_phase_def Let_def
          split: sum.splits option.splits bus_frame.splits if_splits)
  qed (use assms(2) that in \<open>auto simp: accept_def ack_failed_def ack_written_def spawn_task_def set_phase_def Let_def
        split: option.splits task.splits call_wait.splits if_splits prod.splits handshake.splits dest!: resume_task_tasks\<close>)
  with assms(1) exec_config [OF assms(2)] show ?thesis unfolding timed_def by metis
qed

subsection \<open>An app's step\<close>

lemma handle_inbound_keeps [simp]:
  "app_up (handle_inbound f A) = app_up A" "ap_calls (handle_inbound f A) = ap_calls A"
  "bk_open (ap_client (handle_inbound f A)) = bk_open (ap_client A)" "ap_reading (handle_inbound f A) = ap_reading A"
  by (cases f; auto simp: app_up_def client_shutdown_def client_send_def client_response_def record_activity_def Let_def
      split: option.split)+

lemma handle_inbound_queue: "has_request r (bk_queue (ap_client A)) \<Longrightarrow> has_request r (bk_queue (ap_client (handle_inbound f A)))"
  by (cases f) (auto simp: client_shutdown_def client_send_def client_response_def record_activity_def Let_def split: option.split)

lemma handle_inbound_oneshot:
  "ap_oneshots (handle_inbound f A) j = None \<Longrightarrow>
   ap_oneshots A j = None \<and> (\<forall>resp. f = Response resp \<longrightarrow> dm_get (bk_pending (ap_client A)) (rsp_req_id resp) \<noteq> Some j)"
  by (cases f) (auto simp: client_shutdown_def client_send_def client_response_def record_activity_def Let_def
      split: option.splits if_splits)

lemma app_up_back: "app_exec a A = Some B \<Longrightarrow> app_up B \<Longrightarrow> app_up A"
  by (cases a) (auto simp: app_up_def client_ops client_invoke_def client_send_def connection_inbound_def
      split: option.splits app_call.splits dispatch.splits run_wait.splits if_splits sum.splits dest: handle_inbound_oneshot)

text \<open>A call that waits after a step waited before, or has just been made.\<close>

lemma waiting_exec:
  assumes "app_exec a A = Some B" "waiting B j r" "app_up B"
  shows "waiting A j r \<or> has_request r (bk_queue (ap_client B))"
  using assms
  by (cases a) (auto simp: waiting_def app_up_def client_ops client_invoke_def client_send_def connection_inbound_def
      split: option.splits app_call.splits dispatch.splits run_wait.splits if_splits sum.splits dest: handle_inbound_oneshot)

lemma requests_kept:
  assumes "app_exec a A = Some B" "\<not> app_on_wire a" "has_request r (bk_queue (ap_client A))"
  shows "has_request r (bk_queue (ap_client B))"
  using assms
  by (cases a) (auto simp: client_ops client_invoke_def client_send_def
      split: option.splits app_call.splits dispatch.splits run_wait.splits if_splits)

lemma answer_ends_wait:
  assumes "client_inv n A" "waiting (handle_inbound (Response resp) A) j r"
  shows "rsp_req_id resp \<noteq> r"
  using assms(2) handle_inbound_oneshot [of "Response resp" A j] client_call_in_table [OF assms(1), of j r]
  unfolding waiting_def handle_inbound_keeps by auto

subsection \<open>A step of the network loses no call\<close>

lemma progress_invD:
  assumes "progress_inv d n s"
  shows "bus_inv n (nt_bus s)" "timed d (nt_bus s)" "nt_apps s c \<noteq> None \<Longrightarrow> acked (nt_bus s) c"
    "nt_down s c \<noteq> [] \<Longrightarrow> acked (nt_bus s) c" "nt_apps s c = Some A \<Longrightarrow> client_inv n A"
    "nt_apps s c = Some A \<Longrightarrow> app_up A \<Longrightarrow> bus_up (nt_bus s) c \<Longrightarrow> waiting A j r \<Longrightarrow> on_its_way s c A r"
  using assms unfolding progress_inv_def by blast+

lemma progress_fresh:
  assumes "progress_inv d n s" "n < 2 ^ 64 - 2"
  shows "bus_conns (nt_bus s) (bus_n_conns (nt_bus s)) = None" "bus_tasks (nt_bus s) (bus_n_tasks (nt_bus s)) = None"
proof -
  have inv: "conn_inv n (nt_bus s)" "call_inv n (nt_bus s)" using progress_invD(1) [OF assms(1)] by (simp_all add: bus_inv_def)
  from inv(1) assms(2) gens_ok_fresh(1) show "bus_conns (nt_bus s) (bus_n_conns (nt_bus s)) = None" by (auto simp: conn_inv_def)
  from inv(2) show "bus_tasks (nt_bus s) (bus_n_tasks (nt_bus s)) = None" by (auto simp: call_inv_def call_ok_def tasks_ok_def)
qed

lemma way_step:
  assumes inv: "progress_inv d n s" "n < 2 ^ 64 - 2" and step: "net_exec json debug a s = Some t"
    and up: "nt_apps t c = Some B" "app_up B" "bus_up (nt_bus t) c" "waiting B j r"
  shows "on_its_way t c B r"
proof -
  note inv' = progress_invD [OF inv(1)] and fresh = progress_fresh [OF inv]
  have keep: "in_broker u c r" if "bus_exec json b (nt_bus s) = Some u" "bus_up u c" "in_broker (nt_bus s) c r"
    "\<And>ok. b \<noteq> WriterStep c ok" for b u
    using in_broker_step [OF that(1) fresh(2) that(3) _ that(4)] that(2) by (simp add: bus_up_def)
  have prior: "bus_up (nt_bus s) c" if "bus_exec json b (nt_bus s) = Some u" "bus_up u c" "nt_apps s c = Some A" for b u A
    using bus_up_back [OF that(1) fresh(1) inv'(3) that(2)] that(3) by simp
  show ?thesis
  proof (cases a)
    case (NetBus b)
    with step obtain u where u: "bus_exec json b (nt_bus s) = Some u" "t = s\<lparr>nt_bus := u\<rparr>" "\<not> bus_on_wire b" by (auto split: if_splits)
    from u(2) up have A: "nt_apps s c = Some B" "bus_up u c" by simp_all
    from u(3) have "\<And>ok. b \<noteq> WriterStep c ok" by auto
    with inv'(6) [OF A(1) up(2) prior [OF u(1) A(2,1)] up(4)] keep [OF u(1) A(2)] u(2) show ?thesis
      by (auto simp: on_its_way_def)
  next
    case (NetAckWrite e ok)
    with step obtain u where u: "bus_exec json (AckWrite e ok) (nt_bus s) = Some u"
      "nt_bus t = u" "nt_apps t = nt_apps s" "nt_up t = nt_up s" "prefix (nt_down s c) (nt_down t c)"
      by (auto simp: push_def split: option.splits)
    from u up have A: "nt_apps s c = Some B" "bus_up u c" by simp_all
    from inv'(6) [OF A(1) up(2) prior [OF u(1) A(2,1)] up(4)] keep [OF u(1) A(2)] u show ?thesis
      by (auto simp: on_its_way_def prefix_def)
  next
    case (NetBusWrite e ok)
    with step obtain u where u: "bus_exec json (WriterStep e ok) (nt_bus s) = Some u"
      "t = s\<lparr>nt_bus := u, nt_down := push e ok (hd (cl_queue (bus_cells (nt_bus s) e))) (nt_down s)\<rparr>" by auto
    from u up have A: "nt_apps s c = Some B" "bus_up u c" by simp_all
    note way = inv'(6) [OF A(1) up(2) prior [OF u(1) A(2,1)] up(4)]
    show ?thesis
    proof (cases "e = c")
      case False
      with way keep [OF u(1) A(2)] u(2) show ?thesis by (auto simp: on_its_way_def push_def)
    next
      case True
      with u(1) A(2) have "ok" by (auto simp: bus_up_def close_channel_def split: option.splits if_splits)
      with True u(1) obtain f fs where f: "cl_queue (bus_cells (nt_bus s) c) = f # fs" "cl_queue (bus_cells u c) = fs" "bus_tasks u = bus_tasks (nt_bus s)"
        by (cases "cl_queue (bus_cells (nt_bus s) c)") (auto split: option.splits if_splits)
      with way \<open>ok\<close> True u(2) show ?thesis by (auto simp: on_its_way_def in_broker_def push_def)
    qed
  next
    case (NetBusRead e)
    with step obtain f fs u where u: "nt_up s e = f # fs" "bus_exec json (Inbound e (Inr (Some f))) (nt_bus s) = Some u"
      "t = s\<lparr>nt_bus := u, nt_up := (nt_up s)(e := fs)\<rparr>" by (auto split: list.splits)
    from u up have A: "nt_apps s c = Some B" "bus_up u c" by simp_all
    note way = inv'(6) [OF A(1) up(2) prior [OF u(2) A(2,1)] up(4)]
    show ?thesis
    proof (cases "e = c \<and> (\<exists>v. f = Invoke v \<and> inv_req_id v = r)")
      case True
      with in_broker_invoke u show ?thesis by (auto simp: on_its_way_def)
    next
      case False
      with way keep [OF u(2) A(2)] u(1,3) show ?thesis by (auto simp: on_its_way_def)
    qed
  next
    case (NetBusLost e x)
    with step obtain u where u: "bus_exec json (Inbound e (lost x)) (nt_bus s) = Some u" "t = s\<lparr>nt_bus := u\<rparr>" by auto
    from u(2) up have A: "nt_apps s c = Some B" "bus_up u c" by simp_all
    from inv'(6) [OF A(1) up(2) prior [OF u(1) A(2,1)] up(4)] keep [OF u(1) A(2)] u(2) show ?thesis
      by (auto simp: on_its_way_def)
  next
    case (NetEstablish e cfg handlers now)
    with step obtain client f fs where u: "nt_down s e = f # fs" "nt_apps s e = None"
      "t = s\<lparr>nt_apps := (nt_apps s)(e \<mapsto> app_start client now), nt_down := (nt_down s)(e := fs)\<rparr>"
      by (auto split: option.splits list.splits sum.splits)
    have "e \<noteq> c" using u(3) up(1,4) by (auto simp: waiting_def app_start_def)
    with u up have "nt_apps s c = Some B" "bus_up (nt_bus s) c" by simp_all
    from inv'(6) [OF this(1) up(2) this(2) up(4)] u(3) \<open>e \<noteq> c\<close> show ?thesis by (simp add: on_its_way_def)
  next
    case (NetApp e b)
    with step obtain A B' where u: "nt_apps s e = Some A" "app_exec b A = Some B'" "\<not> app_on_wire b"
      "t = s\<lparr>nt_apps := (nt_apps s)(e \<mapsto> B')\<rparr>" by (auto split: if_splits option.splits)
    show ?thesis
    proof (cases "e = c")
      case True
      with u(4) up(1) have B: "B' = B" by simp
      with waiting_exec [OF u(2)] up(2,4) consider "waiting A j r" | "has_request r (bk_queue (ap_client B))" by blast
      then show ?thesis
      proof cases
        case 1
        have "bus_up (nt_bus s) c" using up(3) u(4) by simp
        from inv'(6) [OF u(1) [unfolded True] _ this 1] app_up_back [OF u(2)] up(2) B
        have "on_its_way s c A r" by simp
        with requests_kept [OF u(2,3), of r] B u(4) show ?thesis by (auto simp: on_its_way_def)
      qed (simp add: on_its_way_def)
    next
      case False
      with u(4) up have "nt_apps s c = Some B" "bus_up (nt_bus s) c" by simp_all
      from inv'(6) [OF this(1) up(2) this(2) up(4)] u(4) show ?thesis by (simp add: on_its_way_def)
    qed
  next
    case (NetAppWrite e ok)
    with step obtain A B' where u: "nt_apps s e = Some A" "app_exec (AppWriter ok) A = Some B'"
      "t = s\<lparr>nt_apps := (nt_apps s)(e \<mapsto> B'), nt_up := push e ok (hd (bk_queue (ap_client A))) (nt_up s)\<rparr>"
      by (auto split: option.splits)
    show ?thesis
    proof (cases "e = c")
      case True
      with u(3) up(1) have B: "B' = B" by simp
      with u(2) up(2) obtain f fs where ok: "ok" "bk_queue (ap_client A) = f # fs" "bk_queue (ap_client B) = fs"
        "app_up A" "ap_calls A = ap_calls B" "ap_oneshots A = ap_oneshots B"
        by (cases "bk_queue (ap_client A)") (auto simp: app_up_def split: if_splits)
      have "bus_up (nt_bus s) c" "waiting A j r" using up(3,4) u(3) ok(5,6) by (simp_all add: waiting_def)
      from inv'(6) [OF u(1) [unfolded True] ok(4) this] ok(1,2,3) u(3) True show ?thesis by (auto simp: on_its_way_def push_def)
    next
      case False
      with u(3) up have "nt_apps s c = Some B" "bus_up (nt_bus s) c" by simp_all
      from inv'(6) [OF this(1) up(2) this(2) up(4)] u(3) False show ?thesis by (simp add: on_its_way_def push_def)
    qed
  next
    case (NetAppRead e)
    with step obtain A B' f fs where u: "nt_apps s e = Some A" "nt_down s e = f # fs"
      "app_exec (AppInbound (Inr (Some f))) A = Some B'"
      "t = s\<lparr>nt_apps := (nt_apps s)(e \<mapsto> B'), nt_down := (nt_down s)(e := fs)\<rparr>"
      by (auto split: option.splits list.splits)
    show ?thesis
    proof (cases "e = c")
      case True
      with u(3,4) up(1) have B: "B = handle_inbound f A" by (auto simp: connection_inbound_def split: if_splits)
      have "bus_up (nt_bus s) c" "waiting A j r" "app_up A"
        using up(2,3,4) u(4) handle_inbound_oneshot [of f A j] unfolding B waiting_def by simp_all
      from inv'(6) [OF u(1) [unfolded True] this(3,1,2)] have "on_its_way s c A r" .
      moreover have "rsp_req_id resp \<noteq> r" if "f = Response resp" for resp
        using answer_ends_wait [OF inv'(5) [OF u(1)], of resp j r] up(4) unfolding B that .
      moreover have "has_request r (bk_queue (ap_client B))" if "has_request r (bk_queue (ap_client A))"
        unfolding B by (rule handle_inbound_queue [OF that])
      ultimately show ?thesis using u(2,4) True by (auto simp: on_its_way_def)
    next
      case False
      with u(4) up have "nt_apps s c = Some B" "bus_up (nt_bus s) c" by simp_all
      from inv'(6) [OF this(1) up(2) this(2) up(4)] u(4) False show ?thesis by (simp add: on_its_way_def)
    qed
  next
    case (NetAppLost e x)
    with step obtain A B' where u: "nt_apps s e = Some A" "app_exec (AppInbound (lost x)) A = Some B'"
      "t = s\<lparr>nt_apps := (nt_apps s)(e \<mapsto> B')\<rparr>" by (auto split: option.splits)
    have "\<not> app_up B'" using u(2) by (auto simp: lost_def app_up_def connection_inbound_def connection_end_def Let_def split: if_splits option.splits)
    with u(3) up(1,2) have "e \<noteq> c" by auto
    with u(3) up have "nt_apps s c = Some B" "bus_up (nt_bus s) c" by simp_all
    from inv'(6) [OF this(1) up(2) this(2) up(4)] u(3) show ?thesis by (simp add: on_its_way_def)
  qed
qed

lemma app_of_step:
  assumes "net_exec json debug a s = Some t" "nt_apps t c = Some B"
  shows "nt_apps s c = Some B \<or> (\<exists>b A. nt_apps s c = Some A \<and> app_exec b A = Some B) \<or>
    nt_down s c \<noteq> [] \<and> (\<exists>cfg hello handlers now. B = app_start (client_new cfg hello handlers now) now)"
proof (cases a)
  case (NetEstablish e cfg handlers now)
  with assms(1) obtain client hello where "nt_apps t = (nt_apps s)(e \<mapsto> app_start client now)" "nt_down s e \<noteq> []"
    "client = client_new cfg hello handlers now"
    by (auto simp: establish_def split: option.splits list.splits sum.splits)
  then show ?thesis using assms(2) by (simp split: if_splits) blast
qed (use assms in \<open>auto simp del: bus_exec.simps app_exec.simps split: option.splits list.splits if_splits\<close>)

lemma down_of_step:
  assumes "net_exec json debug a s = Some t" "nt_down t c \<noteq> []"
  shows "nt_down s c \<noteq> [] \<or> acked (nt_bus t) c"
proof (cases a)
  case (NetAckWrite e ok)
  with assms show ?thesis
    by (auto simp: acked_def push_def ack_written_def spawn_task_def set_phase_def Let_def split: option.splits if_splits)
next
  case (NetBusWrite e ok)
  with assms show ?thesis by (auto simp: acked_def push_def split: option.splits if_splits)
qed (use assms in \<open>auto simp del: bus_exec.simps app_exec.simps split: option.splits list.splits if_splits sum.splits\<close>)

lemma progress_inv_exec:
  assumes inv: "progress_inv d n s" and room: "n < 2 ^ 64 - 2" and step: "net_exec json debug a s = Some t"
  shows "progress_inv d (Suc n) t"
proof -
  note inv' = progress_invD [OF inv] and fresh = progress_fresh [OF inv room]
  have acks: "acked (nt_bus t) c" if "acked (nt_bus s) c" for c
    using net_bus_step [OF step] conns_step [OF _ fresh(1) that] that by auto
  have "bus_inv (Suc n) (nt_bus t)"
    using net_bus_step [OF step] bus_inv_exec [OF inv'(1) room] bus_inv_mono [OF inv'(1), of "Suc n"] by auto
  moreover have "timed d (nt_bus t)"
    using net_bus_step [OF step] timed_exec [OF inv'(2)] inv'(2) by auto
  moreover have "acked (nt_bus t) c" if "nt_apps t c \<noteq> None \<or> nt_down t c \<noteq> []" for c
  proof -
    have "nt_apps s c \<noteq> None \<or> nt_down s c \<noteq> [] \<or> acked (nt_bus t) c"
      using that app_of_step [OF step, of c] down_of_step [OF step, of c] by auto
    then show ?thesis using acks inv'(3,4) by blast
  qed
  moreover have "client_inv (Suc n) B" if "nt_apps t c = Some B" for c B
    using app_of_step [OF step that]
  proof (elim disjE exE conjE)
    assume "nt_apps s c = Some B"
    from client_inv_frame [OF inv'(5) [OF this]] show ?thesis by simp
  next
    fix b A assume "nt_apps s c = Some A" "app_exec b A = Some B"
    with client_inv_exec [OF inv'(5) room] show ?thesis by blast
  next
    fix cfg hello handlers now assume "B = app_start (client_new cfg hello handlers now) now"
    with client_inv_frame [OF client_inv_start] show ?thesis by simp
  qed
  moreover have "on_its_way t c B r" if "nt_apps t c = Some B" "app_up B" "bus_up (nt_bus t) c" "waiting B j r" for c B j r
    by (rule way_step [OF inv room step that])
  ultimately show ?thesis unfolding progress_inv_def by blast
qed

lemma progress_inv_init: "progress_inv (bc_default_call_timeout config) 0 (net_init config)"
  using bus_inv_init [of config] by (simp add: progress_inv_def net_init_def timed_def bus_init_def broker_new_def)

interpretation progressing: guarded_system "net_exec json debug" "progress_inv (bc_default_call_timeout config)" "2 ^ 64 - 2" "net_init config"
  for json debug config
  by unfold_locales (rule progress_inv_exec, assumption+, rule progress_inv_init)

subsection \<open>Bringing a call to its end\<close>

lemma reach_now: "P s \<Longrightarrow> can_reach json debug c j P s"
  unfolding can_reach_def by (intro exI [of _ "[]"]) simp

lemma reach_step:
  "net_exec json debug a s = Some t \<Longrightarrow> own_step c j a \<Longrightarrow> can_reach json debug c j P t \<Longrightarrow> can_reach json debug c j P s"
  unfolding can_reach_def
proof (elim exE conjE)
  fix bs u
  assume "net_exec json debug a s = Some t" "own_step c j a" "run_actions (net_exec json debug) bs t = Some u"
    "\<forall>b \<in> set bs. own_step c j b" "P u"
  then show "\<exists>bs u. run_actions (net_exec json debug) bs s = Some u \<and> (\<forall>b \<in> set bs. own_step c j b) \<and> P u"
    by (intro exI [of _ "a # bs"] exI [of _ u]) simp
qed

lemma reach_trans:
  assumes "can_reach json debug c j Q s" "\<And>t. Q t \<Longrightarrow> can_reach json debug c j P t"
  shows "can_reach json debug c j P s"
proof -
  from assms(1) obtain bs t where t: "run_actions (net_exec json debug) bs s = Some t" "\<forall>b \<in> set bs. own_step c j b" "Q t"
    by (auto simp: can_reach_def)
  from assms(2) [OF t(3)] obtain cs u where "run_actions (net_exec json debug) cs t = Some u" "\<forall>b \<in> set cs. own_step c j b" "P u"
    by (auto simp: can_reach_def)
  with t show ?thesis unfolding can_reach_def by (intro exI [of _ "bs @ cs"] exI [of _ u]) (auto simp: run_append)
qed

lemma readyE:
  assumes "ready d c j r s"
  obtains A where "nt_apps s c = Some A" "ap_reading A" "bk_open (ap_client A)" "pends A j r" "bus_up (nt_bus s) c" "timed d (nt_bus s)"
  using assms by (auto simp: ready_def app_up_def)

text \<open>The app writes its request.\<close>

lemma reach_written:
  assumes "ready d c j r s" "nt_apps s c = Some A" "has_request r (bk_queue (ap_client A))"
  shows "can_reach json debug c j (\<lambda>t. ready d c j r t \<and> has_request r (nt_up t c)) s"
  using assms
proof (induction "bk_queue (ap_client A)" arbitrary: s A)
  case (Cons f fs)
  let ?B = "A\<lparr>ap_client := (ap_client A)\<lparr>bk_queue := fs\<rparr>\<rparr>"
  let ?t = "s\<lparr>nt_apps := (nt_apps s)(c \<mapsto> ?B), nt_up := (nt_up s)(c := nt_up s c @ [f])\<rparr>"
  have A: "app_up A" "pends A j r" using Cons.prems(1,2) by (auto simp: ready_def)
  have step: "net_exec json debug (NetAppWrite c True) s = Some ?t"
    using A(1) Cons.prems(2) Cons.hyps(2) [symmetric] by (simp add: push_def app_up_def)
  have ok: "ready d c j r ?t" using Cons.prems(1,2) A by (simp add: ready_def app_up_def pends_def)
  show ?case
  proof (cases "has_request r [f]")
    case True
    with ok have "ready d c j r ?t \<and> has_request r (nt_up ?t c)" by auto
    from reach_step [OF step _ reach_now [of "\<lambda>t. ready d c j r t \<and> has_request r (nt_up t c)", OF this]] show ?thesis by simp
  next
    case False
    with Cons.prems(3) have "has_request r (bk_queue (ap_client ?B))" unfolding Cons.hyps(2) [symmetric] by auto
    from reach_step [OF step _ Cons.hyps(1) [OF _ ok _ this]] show ?thesis by simp
  qed
qed simp

text \<open>The broker reads it.\<close>

lemma inbound_up:
  assumes "bus_up b c"
  shows "\<exists>u. bus_exec json (Inbound c (Inr (Some f))) b = Some u \<and> bus_up u c"
proof -
  from assms obtain k where k: "bus_conns b c = Some k" "cn_phase k = Serving" by (auto simp: bus_up_def)
  have "grown (bus_cells b) (bus_cells (session_inbound c k (Inr (Some f)) b))"
    "bus_conns (session_inbound c k (Inr (Some f)) b) = bus_conns b"
    by (simp_all add: session_inbound_def spawn_task_def split: bus_frame.split)
  with k assms show ?thesis by (simp add: bus_up_def grown_def)
qed

lemma reach_read:
  assumes "ready d c j r s" "has_request r (nt_up s c)"
  shows "can_reach json debug c j (\<lambda>t. ready d c j r t \<and> in_broker (nt_bus t) c r) s"
  using assms
proof (induction "nt_up s c" arbitrary: s)
  case (Cons f fs)
  from Cons.prems(1) obtain A where A: "nt_apps s c = Some A" "app_up A" "pends A j r" "bus_up (nt_bus s) c" "timed d (nt_bus s)"
    by (auto simp: ready_def)
  from inbound_up [OF A(4)] obtain u where u: "bus_exec json (Inbound c (Inr (Some f))) (nt_bus s) = Some u" "bus_up u c" by blast
  let ?t = "s\<lparr>nt_bus := u, nt_up := (nt_up s)(c := fs)\<rparr>"
  have step: "net_exec json debug (NetBusRead c) s = Some ?t"
    using u(1) Cons.hyps(2) [symmetric] by (simp del: bus_exec.simps)
  have ok: "ready d c j r ?t" using A u(2) timed_exec [OF A(5) u(1)] by (simp add: ready_def)
  show ?case
  proof (cases "\<exists>v. f = Invoke v \<and> inv_req_id v = r")
    case True
    with in_broker_invoke u(1) ok have "ready d c j r ?t \<and> in_broker (nt_bus ?t) c r" by auto
    from reach_step [OF step _ reach_now [of "\<lambda>t. ready d c j r t \<and> in_broker (nt_bus t) c r", OF this]] show ?thesis by simp
  next
    case False
    with Cons.prems(2) have "has_request r (nt_up ?t c)" unfolding Cons.hyps(2) [symmetric] by auto
    from reach_step [OF step _ Cons.hyps(1) [OF _ ok this]] show ?thesis by simp
  qed
qed simp

text \<open>The broker starts the task, and at the latest its timer ends it.\<close>

lemma call_up [simp]:
  "bus_up (start_task json i t b) c = bus_up b c" "bus_up (resume_task json i og spec w wk b) c = bus_up b c"
  using start_task_grown [of b json i t] resume_task_grown [of b json i og spec w wk]
  by (simp_all add: bus_up_def grown_def)

lemma reach_timer:
  assumes "ready d c j r s" "\<not> duration_is_zero d" "bus_tasks (nt_bus s) i = Some (Awaiting (FromApp c r) spec w)"
  shows "can_reach json debug c j (\<lambda>t. ready d c j r t \<and> has_answer r (cl_queue (bus_cells (nt_bus t) c))) s"
proof -
  from assms(1) obtain A where A: "nt_apps s c = Some A" "app_up A" "pends A j r" "bus_up (nt_bus s) c" "timed d (nt_bus s)"
    by (auto simp: ready_def)
  let ?u = "resume_task json i (FromApp c r) spec w Elapsed (nt_bus s)"
  have "cs_timeout spec = d" using A(5) assms(3) unfolding timed_def by blast
  with assms(2,3) have u: "bus_exec json (TimerFires i) (nt_bus s) = Some ?u" by simp
  then have step: "net_exec json debug (NetBus (TimerFires i)) s = Some (s\<lparr>nt_bus := ?u\<rparr>)" by simp
  have "ready d c j r (s\<lparr>nt_bus := ?u\<rparr>)" using A timed_exec [OF A(5) u] by (simp add: ready_def)
  moreover have "has_answer r (cl_queue (bus_cells ?u c))" using A(4) by (intro resume_answers) (simp add: bus_up_def)
  ultimately have "ready d c j r (s\<lparr>nt_bus := ?u\<rparr>) \<and> has_answer r (cl_queue (bus_cells (nt_bus (s\<lparr>nt_bus := ?u\<rparr>)) c))" by simp
  from reach_step [OF step _ reach_now [of "\<lambda>t. ready d c j r t \<and> has_answer r (cl_queue (bus_cells (nt_bus t) c))", OF this]]
  show ?thesis by simp
qed

lemma reach_queued:
  assumes "ready d c j r s" "\<not> duration_is_zero d" "in_broker (nt_bus s) c r"
  shows "can_reach json debug c j (\<lambda>t. ready d c j r t \<and> has_answer r (cl_queue (bus_cells (nt_bus t) c))) s"
proof -
  from assms(1) obtain A where A: "nt_apps s c = Some A" "app_up A" "pends A j r" "bus_up (nt_bus s) c" "timed d (nt_bus s)"
    by (auto simp: ready_def)
  from assms(3) consider "has_answer r (cl_queue (bus_cells (nt_bus s) c))"
    | i spec w where "bus_tasks (nt_bus s) i = Some (Awaiting (FromApp c r) spec w)"
    | i sv v where "bus_tasks (nt_bus s) i = Some (ReadyInvoke c sv v)" "inv_req_id v = r"
    by (auto simp: in_broker_def task_for_def)
  then show ?thesis
  proof cases
    case 1
    with assms(1) show ?thesis by (intro reach_now) simp
  next
    case 2
    with reach_timer [OF assms(1,2)] show ?thesis .
  next
    case 3
    let ?u = "start_task json i (ReadyInvoke c sv v) (nt_bus s)"
    have u: "bus_exec json (StartTask i) (nt_bus s) = Some ?u" using 3(1) by simp
    then have step: "net_exec json debug (NetBus (StartTask i)) s = Some (s\<lparr>nt_bus := ?u\<rparr>)" by (simp del: start_task.simps)
    have ok: "ready d c j r (s\<lparr>nt_bus := ?u\<rparr>)" using A timed_exec [OF A(5) u] by (simp add: ready_def del: start_task.simps)
    have "(\<exists>spec w. bus_tasks ?u i = Some (Awaiting (FromApp c r) spec w)) \<or> has_answer r (cl_queue (bus_cells ?u c))"
      using start_task_progress [of "nt_bus s" c r "ReadyInvoke c sv v" json i] A(4) 3(2)
      by (auto simp: task_for_def bus_up_def simp del: start_task.simps)
    then have "can_reach json debug c j (\<lambda>t. ready d c j r t \<and> has_answer r (cl_queue (bus_cells (nt_bus t) c))) (s\<lparr>nt_bus := ?u\<rparr>)"
    proof (elim disjE exE)
      fix spec w assume "bus_tasks ?u i = Some (Awaiting (FromApp c r) spec w)"
      with reach_timer [OF ok assms(2), of i spec w] show ?thesis by (simp del: start_task.simps)
    next
      assume "has_answer r (cl_queue (bus_cells ?u c))"
      with ok show ?thesis by (intro reach_now) (simp del: start_task.simps)
    qed
    from reach_step [OF step _ this] show ?thesis by simp
  qed
qed

text \<open>The broker writes the answer, the app reads it, and the call returns.\<close>

lemma reach_sent:
  assumes "ready d c j r s" "has_answer r (cl_queue (bus_cells (nt_bus s) c))"
  shows "can_reach json debug c j (\<lambda>t. ready d c j r t \<and> has_answer r (nt_down t c)) s"
  using assms
proof (induction "cl_queue (bus_cells (nt_bus s) c)" arbitrary: s)
  case (Cons f fs)
  from Cons.prems(1) obtain A where A: "nt_apps s c = Some A" "app_up A" "pends A j r" "bus_up (nt_bus s) c" "timed d (nt_bus s)"
    by (auto simp: ready_def)
  let ?u = "(nt_bus s)\<lparr>bus_cells := (bus_cells (nt_bus s))(c := (bus_cells (nt_bus s) c)\<lparr>cl_queue := fs\<rparr>)\<rparr>"
  let ?t = "s\<lparr>nt_bus := ?u, nt_down := (nt_down s)(c := nt_down s c @ [f])\<rparr>"
  have u: "bus_exec json (WriterStep c True) (nt_bus s) = Some ?u"
    using A(4) Cons.hyps(2) [symmetric] by (auto simp: bus_up_def)
  then have step: "net_exec json debug (NetBusWrite c True) s = Some ?t"
    using Cons.hyps(2) [symmetric] by (simp add: push_def del: bus_exec.simps)
  have ok: "ready d c j r ?t" using A timed_exec [OF A(5) u] by (simp add: ready_def bus_up_def)
  show ?case
  proof (cases "has_answer r [f]")
    case True
    with ok have "ready d c j r ?t \<and> has_answer r (nt_down ?t c)" by simp
    from reach_step [OF step _ reach_now [of "\<lambda>t. ready d c j r t \<and> has_answer r (nt_down t c)", OF this]] show ?thesis by simp
  next
    case False
    with Cons.prems(2) have "has_answer r (cl_queue (bus_cells (nt_bus ?t) c))" unfolding Cons.hyps(2) [symmetric] by auto
    from reach_step [OF step _ Cons.hyps(1) [OF _ ok this]] show ?thesis by simp
  qed
qed simp

lemma handle_inbound_pends: "pends A j r \<Longrightarrow> pends (handle_inbound f A) j r"
  by (cases f) (auto simp: pends_def client_shutdown_def client_send_def client_response_def record_activity_def Let_def
      split: option.split)

lemma response_pends:
  "pends A j r \<Longrightarrow> rsp_req_id resp = r \<Longrightarrow> ap_oneshots (handle_inbound (Response resp) A) j \<noteq> None"
  by (auto simp: pends_def client_response_def split: option.split)

lemma reach_response:
  assumes "ready d c j r s" "has_answer r (nt_down s c)"
  shows "can_reach json debug c j (\<lambda>t. \<exists>A. nt_apps t c = Some A \<and> pends A j r \<and> ap_oneshots A j \<noteq> None) s"
  using assms
proof (induction "nt_down s c" arbitrary: s)
  case (Cons f fs)
  from Cons.prems(1) obtain A where A: "nt_apps s c = Some A" "app_up A" "pends A j r" "bus_up (nt_bus s) c" "timed d (nt_bus s)"
    by (auto simp: ready_def)
  let ?B = "handle_inbound f A"
  let ?t = "s\<lparr>nt_apps := (nt_apps s)(c \<mapsto> ?B), nt_down := (nt_down s)(c := fs)\<rparr>"
  have step: "net_exec json debug (NetAppRead c) s = Some ?t"
    using A(1,2) Cons.hyps(2) [symmetric] by (simp add: app_up_def connection_inbound_def)
  have B: "pends ?B j r" by (rule handle_inbound_pends [OF A(3)])
  then have ok: "ready d c j r ?t" using A by (simp add: ready_def)
  show ?case
  proof (cases "\<exists>resp. f = Response resp \<and> rsp_req_id resp = r")
    case True
    with response_pends [OF A(3)] B have "\<exists>A. nt_apps ?t c = Some A \<and> pends A j r \<and> ap_oneshots A j \<noteq> None" by auto
    from reach_step [OF step _ reach_now [of "\<lambda>t. \<exists>A. nt_apps t c = Some A \<and> pends A j r \<and> ap_oneshots A j \<noteq> None", OF this]]
    show ?thesis by simp
  next
    case False
    with Cons.prems(2) have "has_answer r (nt_down ?t c)" unfolding Cons.hyps(2) [symmetric] by auto
    from reach_step [OF step _ Cons.hyps(1) [OF _ ok this]] show ?thesis by simp
  qed
qed simp

lemma reach_done:
  assumes "nt_apps s c = Some A" "pends A j r" "ap_oneshots A j \<noteq> None"
  shows "can_reach json debug c j (\<lambda>t. \<exists>B res. nt_apps t c = Some B \<and> ap_calls B j = Some (CallDone res)) s"
proof -
  from assms(3) obtain resp where resp: "ap_oneshots A j = Some resp" by blast
  let ?B = "A\<lparr>ap_calls := (ap_calls A)(j \<mapsto> CallDone (rsp_result resp))\<rparr>"
  let ?t = "s\<lparr>nt_apps := (nt_apps s)(c \<mapsto> ?B)\<rparr>"
  have step: "net_exec json debug (NetApp c (AppCallReady j)) s = Some ?t" using assms resp by (simp add: pends_def)
  have "\<exists>B res. nt_apps ?t c = Some B \<and> ap_calls B j = Some (CallDone res)" by simp
  from reach_step [OF step _ reach_now [of "\<lambda>t. \<exists>B res. nt_apps t c = Some B \<and> ap_calls B j = Some (CallDone res)", OF this]]
  show ?thesis by simp
qed

text \<open>The run of \<open>Network\<close> up to its call.\<close>

lemma demo_waiting:
  "\<exists>s A. run_actions (net_exec demo_json (\<lambda>_. [])) (take 5 demo_net) (net_init broker_config_default) = Some s \<and>
     nt_apps s 0 = Some A \<and> app_up A \<and> bus_up (nt_bus s) 0 \<and> ap_calls A 0 = Some (CallWaiting 1)"
  by (simp add: demo_net_def net_init_def demo_eval push_def ack_frame_def establish_def hello_reply_def bus_up_def app_up_def
      client_new_def app_start_def client_invoke_def client_send_def str_simps)

section \<open>Theorems\<close>



end
