(* ===== verification/Fair_Runs.thy ===== *)
theory Fair_Runs
  imports Prelude
begin

text \<open>
  Bounded fairness of runs, for the step functions of \<open>Prelude\<close>: what is demanded in every state of a
  window of \<open>D\<close> steps is served in it. The contract \<open>fair_system\<close> gives the rules: a stage that only the
  step that serves its demand can leave, and that keeps the demand raised, is left within \<open>D\<close> steps;
  stages are chained; and a position that each round lowers is walked down to its end.
\<close>

section \<open>Definitions\<close>

text \<open>
  A run is timely if none of its windows of \<open>D\<close> steps lets a demand \<open>w\<close>, raised in every state of the
  window, go unserved.
\<close>

definition timely ::
  "('a \<Rightarrow> 's \<Rightarrow> 's option) \<Rightarrow> ('w \<Rightarrow> 's \<Rightarrow> bool) \<Rightarrow> ('w \<Rightarrow> 'a \<Rightarrow> bool) \<Rightarrow> nat \<Rightarrow> 'a list \<Rightarrow> 's \<Rightarrow> bool" where
  "timely exec wants serves D as s \<longleftrightarrow>
     (\<forall>w xs ys zs t. as = xs @ ys @ zs \<and> length ys = D \<and> run_actions exec xs s = Some t \<and>
        (\<forall>us vs u. ys = us @ vs \<and> vs \<noteq> [] \<and> run_actions exec us t = Some u \<longrightarrow> wants w u) \<longrightarrow>
        (\<exists>a \<in> set ys. serves w a))"

text \<open>Every timely run of at least \<open>T\<close> steps meets \<open>G\<close> within its first \<open>T\<close>; \<open>n\<close> counts the steps before.\<close>

definition soon ::
  "('a \<Rightarrow> 's \<Rightarrow> 's option) \<Rightarrow> ('w \<Rightarrow> 's \<Rightarrow> bool) \<Rightarrow> ('w \<Rightarrow> 'a \<Rightarrow> bool) \<Rightarrow> nat \<Rightarrow> nat \<Rightarrow>
   nat \<Rightarrow> ('s \<Rightarrow> bool) \<Rightarrow> nat \<Rightarrow> 's \<Rightarrow> bool" where
  "soon exec wants serves D horizon T G n s \<longleftrightarrow>
     (\<forall>as s'. n + length as \<le> horizon \<and> run_actions exec as s = Some s' \<and> timely exec wants serves D as s \<and>
        T \<le> length as \<longrightarrow>
        (\<exists>xs ys t. as = xs @ ys \<and> length xs \<le> T \<and> run_actions exec xs s = Some t \<and> G t))"

section \<open>The contract\<close>

locale fair_system = step_system exec inv horizon
  for exec :: "'a \<Rightarrow> 's \<Rightarrow> 's option" and inv :: "nat \<Rightarrow> 's \<Rightarrow> bool" and horizon :: nat +
  fixes wants :: "'w \<Rightarrow> 's \<Rightarrow> bool"
    and serves :: "'w \<Rightarrow> 'a \<Rightarrow> bool"
    and D :: nat
begin

lemma timelyD:
  assumes "timely exec wants serves D as s" "as = xs @ ys @ zs" "length ys = D" "run_actions exec xs s = Some t"
    and "\<And>us vs u. ys = us @ vs \<Longrightarrow> vs \<noteq> [] \<Longrightarrow> run_actions exec us t = Some u \<Longrightarrow> wants w u"
  shows "\<exists>a \<in> set ys. serves w a"
  using assms(1) [unfolded timely_def, rule_format, of xs ys zs t w] assms(2-) by simp

lemma timely_suffix:
  assumes "timely exec wants serves D (xs @ ys) s" "run_actions exec xs s = Some t"
  shows "timely exec wants serves D ys t"
  unfolding timely_def
proof (intro allI impI, elim conjE)
  fix w us vs ws u
  assume "ys = us @ vs @ ws" "length vs = D" "run_actions exec us t = Some u"
    "\<forall>us' vs' u'. vs = us' @ vs' \<and> vs' \<noteq> [] \<and> run_actions exec us' u = Some u' \<longrightarrow> wants w u'"
  moreover from this(1,3) assms(2) have "xs @ ys = (xs @ us) @ vs @ ws" "run_actions exec (xs @ us) s = Some u"
    by (simp_all add: run_append)
  ultimately show "\<exists>a \<in> set vs. serves w a"
    using assms(1) unfolding timely_def by blast
qed

lemma soon_now: "G s \<Longrightarrow> soon exec wants serves D horizon T G n s"
  unfolding soon_def by (metis append_Nil le0 list.size(3) run_actions.simps(1))

lemma soon_weaken:
  "soon exec wants serves D horizon T G n s \<Longrightarrow> T \<le> T' \<Longrightarrow> (\<And>t. G t \<Longrightarrow> G' t) \<Longrightarrow>
   soon exec wants serves D horizon T' G' n s"
  unfolding soon_def by (meson le_trans)

text \<open>Stages are chained; the second may use that at most \<open>T\<close> steps have been made.\<close>

lemma soon_trans:
  assumes "inv n s" "soon exec wants serves D horizon T G n s"
    and next_stage: "\<And>xs t. run_actions exec xs s = Some t \<Longrightarrow> length xs \<le> T \<Longrightarrow> n + length xs \<le> horizon \<Longrightarrow>
      inv (n + length xs) t \<Longrightarrow> G t \<Longrightarrow> soon exec wants serves D horizon T' G' (n + length xs) t"
  shows "soon exec wants serves D horizon (T + T') G' n s"
  unfolding soon_def
proof (intro allI impI, elim conjE)
  fix as s'
  assume as: "n + length as \<le> horizon" "run_actions exec as s = Some s'" "timely exec wants serves D as s" "T + T' \<le> length as"
  with assms(2) obtain xs ys t where t: "as = xs @ ys" "length xs \<le> T" "run_actions exec xs s = Some t" "G t"
    unfolding soon_def by (metis le_add1 order_trans)
  have "inv (n + length xs) t" by (rule inv_from [OF assms(1) _ t(3)]) (use as(1) t(1) in simp)
  from next_stage [OF t(3,2) _ this t(4)] as(1) t(1) have "soon exec wants serves D horizon T' G' (n + length xs) t" by simp
  moreover have "run_actions exec ys t = Some s'" using as(2) t(1,3) by (simp add: run_append)
  moreover have "timely exec wants serves D ys t" by (rule timely_suffix [OF as(3) [unfolded t(1)] t(3)])
  moreover have "n + length xs + length ys \<le> horizon" "T' \<le> length ys" using as(1,4) t(1,2) by simp_all
  ultimately obtain us vs u where "ys = us @ vs" "length us \<le> T'" "run_actions exec us t = Some u" "G' u"
    unfolding soon_def by blast
  with t show "\<exists>xs ys t. as = xs @ ys \<and> length xs \<le> T + T' \<and> run_actions exec xs s = Some t \<and> G' t"
    by (intro exI [of _ "xs @ us"] exI [of _ vs] exI [of _ u]) (simp add: run_append)
qed

text \<open>The rule of one stage.\<close>

lemma soon_step:
  assumes start: "inv n s" "Q s" and wants: "\<And>u. Q u \<Longrightarrow> wants w u"
    and keep: "\<And>m a u v. inv m u \<Longrightarrow> m < horizon \<Longrightarrow> Q u \<Longrightarrow> exec a u = Some v \<Longrightarrow> Q v \<or> G v"
    and served: "\<And>m a u v. inv m u \<Longrightarrow> m < horizon \<Longrightarrow> Q u \<Longrightarrow> exec a u = Some v \<Longrightarrow> serves w a \<Longrightarrow> G v"
  shows "soon exec wants serves D horizon D G n s"
  unfolding soon_def
proof (intro allI impI, elim conjE)
  fix as s'
  assume as: "n + length as \<le> horizon" "run_actions exec as s = Some s'" "timely exec wants serves D as s" "D \<le> length as"
  let ?met = "\<lambda>k. \<exists>t. run_actions exec (take k as) s = Some t \<and> G t"
  have stays: "\<exists>u. run_actions exec (take k as) s = Some u \<and> inv (n + k) u \<and> Q u" if "\<forall>i \<le> k. \<not> ?met i" "k \<le> D" for k
    using that
  proof (induction k)
    case 0
    with start show ?case by simp
  next
    case (Suc k)
    then obtain u where u: "run_actions exec (take k as) s = Some u" "inv (n + k) u" "Q u" by auto
    have k: "k < length as" using Suc.prems(2) as(4) by simp
    have split: "as = take k as @ as ! k # drop (Suc k) as" by (rule id_take_nth_drop [OF k])
    have "run_actions exec (as ! k # drop (Suc k) as) u = Some s'"
      using as(2) u(1) by (subst (asm) split) (simp add: run_append)
    then obtain v where v: "exec (as ! k) u = Some v" by (auto split: option.splits)
    have run: "run_actions exec (take (Suc k) as) s = Some v"
      using u(1) v k by (simp add: take_Suc_conv_app_nth run_append)
    have room: "n + k < horizon" using as(1) k by simp
    from keep [OF u(2) room u(3) v] Suc.prems(1) run have "Q v" by blast
    moreover have "inv (Suc (n + k)) v" by (rule inv_exec [OF u(2) room v])
    ultimately show ?case using run by simp
  qed
  have "\<exists>k \<le> D. ?met k"
  proof (rule ccontr)
    assume "\<not> (\<exists>k \<le> D. ?met k)"
    then have never: "\<not> ?met k" if "k \<le> D" for k using that by blast
    have wanted: "wants w u" if "take D as = us @ vs" "vs \<noteq> []" "run_actions exec us s = Some u" for us vs u
    proof -
      have "length (take D as) = D" using as(4) by simp
      then have len: "length us \<le> D" unfolding that(1) by simp
      have "take (length us) (take D as) = us" unfolding that(1) by simp
      with len have "take (length us) as = us" by (simp add: min_def)
      moreover have "\<forall>i \<le> length us. \<not> ?met i" using never len by (meson le_trans)
      ultimately have "Q u" using stays [of "length us"] len that(3) by auto
      then show ?thesis by (rule wants)
    qed
    have "\<exists>a \<in> set (take D as). serves w a"
      by (rule timelyD [OF as(3), of "[]" "take D as" "drop D as" s w]) (use as(4) in simp_all, rule wanted)
    then obtain a where a: "a \<in> set (take D as)" "serves w a" by blast
    then obtain k where k: "k < D" "k < length as" "a = as ! k" by (auto simp: in_set_conv_nth)
    moreover have "\<forall>i \<le> k. \<not> ?met i" using never k(1) by (meson le_less_trans less_imp_le)
    ultimately obtain u where u: "run_actions exec (take k as) s = Some u" "inv (n + k) u" "Q u"
      using stays [of k] by auto
    have "run_actions exec (as ! k # drop (Suc k) as) u = Some s'"
      using as(2) u(1) by (subst (asm) id_take_nth_drop [OF k(2)]) (simp add: run_append)
    then obtain v where v: "exec (as ! k) u = Some v" by (auto split: option.splits)
    have "G v" by (rule served [OF u(2) _ u(3) v]) (use a(2) k as(1) in simp_all)
    moreover have "run_actions exec (take (Suc k) as) s = Some v"
      using u(1) v k(2) by (simp add: take_Suc_conv_app_nth run_append)
    ultimately have "?met (Suc k)" by blast
    with never [of "Suc k"] k(1) show False by simp
  qed
  then obtain k t where "k \<le> D" "run_actions exec (take k as) s = Some t" "G t" by blast
  then show "\<exists>xs ys t. as = xs @ ys \<and> length xs \<le> D \<and> run_actions exec xs s = Some t \<and> G t"
    by (intro exI [of _ "take k as"] exI [of _ "drop k as"] exI [of _ t]) simp
qed

text \<open>Two stages: what is served first makes \<open>e\<close> false, and what is served then leads to \<open>G\<close>.\<close>

lemma soon_round:
  assumes start: "inv n s" "Q s"
    and wants: "\<And>u. Q u \<Longrightarrow> wants (if e u then w1 else w2) u"
    and keep: "\<And>m a u v. inv m u \<Longrightarrow> m < horizon \<Longrightarrow> Q u \<Longrightarrow> exec a u = Some v \<Longrightarrow> Q v \<and> (\<not> e u \<longrightarrow> \<not> e v) \<or> G v"
    and first: "\<And>m a u v. inv m u \<Longrightarrow> m < horizon \<Longrightarrow> Q u \<Longrightarrow> e u \<Longrightarrow> exec a u = Some v \<Longrightarrow> serves w1 a \<Longrightarrow> \<not> e v \<or> G v"
    and second: "\<And>m a u v. inv m u \<Longrightarrow> m < horizon \<Longrightarrow> Q u \<Longrightarrow> \<not> e u \<Longrightarrow> exec a u = Some v \<Longrightarrow> serves w2 a \<Longrightarrow> G v"
  shows "soon exec wants serves D horizon (2 * D) G n s"
proof -
  have two: "soon exec wants serves D horizon D G m t" if "inv m t" "Q t" "\<not> e t" for m t
  proof (rule soon_step [where Q = "\<lambda>u. Q u \<and> \<not> e u" and w = w2])
    show "inv m t" "Q t \<and> \<not> e t" using that by simp_all
    show "wants w2 u" if "Q u \<and> \<not> e u" for u using wants [of u] that by simp
    show "(Q v \<and> \<not> e v) \<or> G v" if "inv k u" "k < horizon" "Q u \<and> \<not> e u" "exec a u = Some v" for k a u v
      using keep [OF that(1,2) _ that(4)] that(3) by blast
    show "G v" if "inv k u" "k < horizon" "Q u \<and> \<not> e u" "exec a u = Some v" "serves w2 a" for k a u v
      using second [OF that(1,2) _ _ that(4,5)] that(3) by blast
  qed
  have one: "soon exec wants serves D horizon D (\<lambda>v. Q v \<and> \<not> e v \<or> G v) n s"
  proof (cases "e s")
    case True
    show ?thesis
    proof (rule soon_step [where Q = "\<lambda>u. Q u \<and> e u" and w = w1])
      show "inv n s" "Q s \<and> e s" using start True by simp_all
      show "wants w1 u" if "Q u \<and> e u" for u using wants [of u] that by simp
      show "(Q v \<and> e v) \<or> (Q v \<and> \<not> e v \<or> G v)" if "inv k u" "k < horizon" "Q u \<and> e u" "exec a u = Some v" for k a u v
        using keep [OF that(1,2) _ that(4)] that(3) by blast
      show "Q v \<and> \<not> e v \<or> G v" if "inv k u" "k < horizon" "Q u \<and> e u" "exec a u = Some v" "serves w1 a" for k a u v
        using keep [OF that(1,2) _ that(4)] first [OF that(1,2) _ _ that(4,5)] that(3) by blast
    qed
  qed (use start in \<open>auto intro: soon_now\<close>)
  have "soon exec wants serves D horizon (D + D) G n s"
    by (rule soon_trans [OF start(1) one]) (use two in \<open>auto intro: soon_now\<close>)
  then show ?thesis by (simp add: mult_2)
qed

text \<open>A position is walked down, \<open>K\<close> steps for each place.\<close>

lemma soon_walk:
  assumes round: "\<And>m t p. inv m t \<Longrightarrow> Q p t \<Longrightarrow>
      soon exec wants serves D horizon K (\<lambda>u. G u \<or> 0 < p \<and> Q (p - 1) u) m t"
  shows "inv n s \<Longrightarrow> Q p s \<Longrightarrow> soon exec wants serves D horizon (K * Suc p) G n s"
proof (induction p arbitrary: n s)
  case 0
  with round [of n s 0] show ?case by simp
next
  case (Suc p)
  have "soon exec wants serves D horizon (K + K * Suc p) G n s"
  proof (rule soon_trans [OF Suc.prems(1) round [OF Suc.prems]])
    fix xs t assume "inv (n + length xs) t" "G t \<or> 0 < Suc p \<and> Q (Suc p - 1) t"
    with Suc.IH show "soon exec wants serves D horizon (K * Suc p) G (n + length xs) t"
      by (auto intro: soon_now)
  qed
  then show ?case by simp
qed

end

end
