(* ===== verification/Fairness.thy ===== *)
theory Fairness
  imports Progress Event_Order Fair_Runs
begin

text \<open>
  Calls end under fair schedules. \<open>Progress\<close> shows that a waiting call can always be brought to its end;
  here every schedule does it that lets no reader, writer, task, timer or await wait for more than \<open>D\<close>
  steps while it could act: the call is done after a number of steps that the lengths of the queues
  and streams at the start determine, or the connection of its app has gone down meanwhile.
\<close>

section \<open>Definitions\<close>

subsection \<open>What can be demanded of the network\<close>

text \<open>
  One demand for each place where a task of the broker or of an app, or its runtime, can go on: the
  writers and readers of both sides, a task that can start, a timeout that runs, an await whose
  response has come.
\<close>

datatype demand =
    ToAppWriter conn_id
  | ToBusReader conn_id
  | ToStart call_id
  | ToTimer call_id
  | ToBusWriter conn_id
  | ToAppReader conn_id
  | ToAwait conn_id nat

fun wants :: "demand \<Rightarrow> net \<Rightarrow> bool" where
  "wants (ToAppWriter c) s \<longleftrightarrow>
     (case nt_apps s c of None \<Rightarrow> False | Some A \<Rightarrow> bk_open (ap_client A) \<and> bk_queue (ap_client A) \<noteq> [])"
| "wants (ToBusReader c) s \<longleftrightarrow>
     (case bus_conns (nt_bus s) c of None \<Rightarrow> False | Some k \<Rightarrow> cn_phase k = Serving \<and> nt_up s c \<noteq> [])"
| "wants (ToStart i) s \<longleftrightarrow> (case bus_tasks (nt_bus s) i of None \<Rightarrow> False | Some t \<Rightarrow> unstarted t)"
| "wants (ToTimer i) s \<longleftrightarrow>
     (case bus_tasks (nt_bus s) i of
        Some (Awaiting og spec w) \<Rightarrow> \<not> duration_is_zero (cs_timeout spec)
      | _ \<Rightarrow> False)"
| "wants (ToBusWriter c) s \<longleftrightarrow>
     (case bus_conns (nt_bus s) c of
        None \<Rightarrow> False
      | Some k \<Rightarrow> cn_phase k = Serving \<and> cl_open (bus_cells (nt_bus s) c) \<and> cl_queue (bus_cells (nt_bus s) c) \<noteq> [])"
| "wants (ToAppReader c) s \<longleftrightarrow>
     (case nt_apps s c of None \<Rightarrow> False | Some A \<Rightarrow> ap_reading A \<and> nt_down s c \<noteq> [])"
| "wants (ToAwait c j) s \<longleftrightarrow>
     (case nt_apps s c of
        None \<Rightarrow> False
      | Some A \<Rightarrow> (case ap_calls A j of Some (CallWaiting r) \<Rightarrow> ap_oneshots A j \<noteq> None | _ \<Rightarrow> False))"

fun serves :: "demand \<Rightarrow> net_action \<Rightarrow> bool" where
  "serves (ToAppWriter c) a \<longleftrightarrow> (\<exists>ok. a = NetAppWrite c ok)"
| "serves (ToBusReader c) a \<longleftrightarrow> a = NetBusRead c \<or> (\<exists>e. a = NetBusLost c e)"
| "serves (ToStart i) a \<longleftrightarrow> a = NetBus (StartTask i)"
| "serves (ToTimer i) a \<longleftrightarrow> a = NetBus (TimerFires i)"
| "serves (ToBusWriter c) a \<longleftrightarrow> (\<exists>ok. a = NetBusWrite c ok)"
| "serves (ToAppReader c) a \<longleftrightarrow> a = NetAppRead c \<or> (\<exists>e. a = NetAppLost c e)"
| "serves (ToAwait c j) a \<longleftrightarrow> a = NetApp c (AppCallReady j)"

definition timely_net ::
  "(bytes \<Rightarrow> capability_response option) \<Rightarrow> (bus_frame \<Rightarrow> string) \<Rightarrow> nat \<Rightarrow> net_action list \<Rightarrow> net \<Rightarrow> bool" where
  "timely_net json debug = timely (net_exec json debug) wants serves"

text \<open>Call \<open>j\<close> of the app on \<open>c\<close> is done, or the connection has gone down.\<close>

definition ended :: "conn_id \<Rightarrow> nat \<Rightarrow> net \<Rightarrow> bool" where
  "ended c j s \<longleftrightarrow>
     (\<exists>A. nt_apps s c = Some A \<and> ((\<exists>res. ap_calls A j = Some (CallDone res)) \<or> \<not> app_up A \<or> \<not> bus_up (nt_bus s) c))"

text \<open>The steps allowed to a call, from the frames that are before it.\<close>

definition patience :: "nat \<Rightarrow> net \<Rightarrow> conn_id \<Rightarrow> app \<Rightarrow> nat" where
  "patience D s c A =
     (let up = 2 * D * (length (nt_up s c) + length (bk_queue (ap_client A))) + 2 * D
      in up + 2 * D * (length (nt_down s c) + length (cl_queue (bus_cells (nt_bus s) c)) + up) + D)"

subsection \<open>Stages\<close>

text \<open>The request is within the first \<open>p + 1\<close> frames on the way up, the answer on the way down.\<close>

definition going_up :: "duration \<Rightarrow> conn_id \<Rightarrow> nat \<Rightarrow> u64 \<Rightarrow> nat \<Rightarrow> net \<Rightarrow> bool" where
  "going_up d c j r p s \<longleftrightarrow>
     ready d c j r s \<and>
     (\<exists>A. nt_apps s c = Some A \<and> has_request r (take (Suc p) (nt_up s c @ bk_queue (ap_client A))))"

definition coming_down :: "duration \<Rightarrow> conn_id \<Rightarrow> nat \<Rightarrow> u64 \<Rightarrow> nat \<Rightarrow> net \<Rightarrow> bool" where
  "coming_down d c j r p s \<longleftrightarrow>
     ready d c j r s \<and> has_answer r (take (Suc p) (nt_down s c @ cl_queue (bus_cells (nt_bus s) c)))"

definition in_task :: "duration \<Rightarrow> conn_id \<Rightarrow> nat \<Rightarrow> u64 \<Rightarrow> call_id \<Rightarrow> task \<Rightarrow> net \<Rightarrow> bool" where
  "in_task d c j r i tk s \<longleftrightarrow> ready d c j r s \<and> bus_tasks (nt_bus s) i = Some tk \<and> task_for c r tk"

definition responded :: "duration \<Rightarrow> conn_id \<Rightarrow> nat \<Rightarrow> u64 \<Rightarrow> net \<Rightarrow> bool" where
  "responded d c j r s \<longleftrightarrow> ready d c j r s \<and> (\<exists>A. nt_apps s c = Some A \<and> ap_oneshots A j \<noteq> None)"

section \<open>Lemmas\<close>

interpretation fair: fair_system "net_exec json debug" "progress_inv d" "2 ^ 64 - 2" wants serves D for json debug d D
  by unfold_locales (rule progress_inv_exec)

subsection \<open>A call stays until it is done\<close>

lemma calls_fresh: "client_inv n A \<Longrightarrow> ap_calls A (ap_n_calls A) = None"
  by (auto simp: client_inv_def call_ok_def tasks_ok_def)

lemma call_kept:
  assumes "client_inv n A" "app_exec a A = Some B" "ap_calls A j = Some x"
  shows "ap_calls B j = Some x \<or> (\<exists>r res. x = CallWaiting r \<and> ap_calls B j = Some (CallDone res))"
proof -
  from calls_fresh [OF assms(1)] assms(3) have "j \<noteq> ap_n_calls A" by auto
  with assms(2,3) show ?thesis
    by (cases a) (auto simp: client_ops client_invoke_def client_send_def connection_inbound_def
        split: option.splits app_call.splits dispatch.splits run_wait.splits if_splits sum.splits)
qed

text \<open>Within a step an app stays, and steps by itself.\<close>

lemma app_forth:
  assumes "net_exec json debug a s = Some t" "nt_apps s c = Some A"
  shows "\<exists>B. nt_apps t c = Some B \<and> (B = A \<or> (\<exists>b. app_exec b A = Some B))"
  using assms by (cases a) (auto simp del: bus_exec.simps app_exec.simps split: option.splits list.splits if_splits sum.splits)

lemma bus_up_exec:
  assumes "progress_inv d n s" "n < 2 ^ 64 - 2" "net_exec json debug a s = Some t" "nt_apps s c = Some A" "bus_up (nt_bus t) c"
  shows "bus_up (nt_bus s) c"
proof -
  have "acked (nt_bus s) c" using progress_invD(3) [OF assms(1)] assms(4) by simp
  with net_bus_step [OF assms(3)] bus_up_back [OF _ progress_fresh(1) [OF assms(1,2)]] assms(5) show ?thesis by auto
qed

lemma ended_exec:
  assumes "progress_inv d n s" "n < 2 ^ 64 - 2" "net_exec json debug a s = Some t" "ended c j s"
  shows "ended c j t"
proof -
  from assms(4) obtain A where A: "nt_apps s c = Some A" "(\<exists>res. ap_calls A j = Some (CallDone res)) \<or> \<not> app_up A \<or> \<not> bus_up (nt_bus s) c"
    by (auto simp: ended_def)
  from app_forth [OF assms(3) A(1)] obtain B where B: "nt_apps t c = Some B" "B = A \<or> (\<exists>b. app_exec b A = Some B)" by blast
  have "ap_calls B j = Some (CallDone res)" if "ap_calls A j = Some (CallDone res)" for res
    using B(2) call_kept [OF progress_invD(5) [OF assms(1) A(1)] _ that] that by auto
  moreover have "app_up A" if "app_up B" using B(2) app_up_back that by auto
  moreover have "bus_up (nt_bus s) c" if "bus_up (nt_bus t) c" by (rule bus_up_exec [OF assms(1-3) A(1) that])
  ultimately show ?thesis using A(2) B(1) unfolding ended_def by blast
qed

lemma ready_exec:
  assumes "progress_inv d n s" "n < 2 ^ 64 - 2" "net_exec json debug a s = Some t" "ready d c j r s"
  shows "ready d c j r t \<or> ended c j t"
proof -
  from assms(4) obtain A where A: "nt_apps s c = Some A" "ap_calls A j = Some (CallWaiting r)"
    by (auto simp: ready_def pends_def)
  from app_forth [OF assms(3) A(1)] obtain B where B: "nt_apps t c = Some B" "B = A \<or> (\<exists>b. app_exec b A = Some B)" by blast
  have inv: "progress_inv d (Suc n) t" by (rule progress_inv_exec [OF assms(1-3)])
  from B(2) call_kept [OF progress_invD(5) [OF assms(1) A(1)] _ A(2)] A(2)
  have "ap_calls B j = Some (CallWaiting r) \<or> (\<exists>res. ap_calls B j = Some (CallDone res))" by auto
  moreover have "pends B j r" if "ap_calls B j = Some (CallWaiting r)"
    using client_call_in_table [OF progress_invD(5) [OF inv B(1)] that] that by (auto simp: pends_def)
  ultimately show ?thesis
    using B(1) progress_invD(2) [OF inv] by (auto simp: ended_def ready_def)
qed

lemma ready_down: "ready d c j r s \<Longrightarrow> \<not> ended c j s"
  by (auto simp: ready_def ended_def pends_def)

subsection \<open>The way up\<close>

lemma handle_inbound_prefix: "prefix (bk_queue (ap_client A)) (bk_queue (ap_client (handle_inbound f A)))"
  by (cases f) (auto simp: client_shutdown_def client_send_def client_response_def record_activity_def Let_def split: option.split)

lemma queue_forth:
  assumes "app_exec b A = Some B" "app_up B" "\<And>ok. b \<noteq> AppWriter ok"
  shows "prefix (bk_queue (ap_client A)) (bk_queue (ap_client B))"
  using assms
  by (cases b) (auto simp: app_up_def client_ops client_invoke_def client_send_def connection_inbound_def handle_inbound_prefix
      split: option.splits app_call.splits dispatch.splits run_wait.splits if_splits sum.splits)

lemma app_write_up:
  assumes "app_exec (AppWriter ok) A = Some B" "app_up B"
  shows "ok \<and> bk_queue (ap_client A) = hd (bk_queue (ap_client A)) # bk_queue (ap_client B)"
  using assms by (cases "bk_queue (ap_client A)") (auto simp: app_up_def split: if_splits)

lemma up_forth:
  assumes step: "net_exec json debug a s = Some t" and A: "nt_apps s c = Some A" and B: "nt_apps t c = Some B" "app_up B"
    and a: "a \<noteq> NetBusRead c"
  shows "prefix (nt_up s c @ bk_queue (ap_client A)) (nt_up t c @ bk_queue (ap_client B)) \<and> prefix (nt_up s c) (nt_up t c)"
proof -
  have moved: ?thesis if "nt_up t c = nt_up s c" "B = A \<or> (\<exists>b. app_exec b A = Some B \<and> (\<forall>ok. b \<noteq> AppWriter ok))"
    using that queue_forth [OF _ B(2)] by auto
  show ?thesis
  proof (cases a)
    case (NetBusRead e)
    with a step A B(1) show ?thesis by (intro moved) (auto simp del: bus_exec.simps split: list.splits)
  next
    case (NetAppWrite e ok)
    with step obtain A' B' where u: "nt_apps s e = Some A'" "app_exec (AppWriter ok) A' = Some B'"
      "t = s\<lparr>nt_apps := (nt_apps s)(e \<mapsto> B'), nt_up := push e ok (hd (bk_queue (ap_client A'))) (nt_up s)\<rparr>"
      by (auto simp del: app_exec.simps split: option.splits)
    show ?thesis
    proof (cases "e = c")
      case True
      with u A B(1) have "A' = A" "B' = B" by simp_all
      with u(2,3) app_write_up [of ok A B] B(2) True show ?thesis by (auto simp: push_def simp del: app_exec.simps)
    qed (use u A B(1) in \<open>auto simp: push_def\<close>)
  next
    case (NetApp e b)
    with step obtain A' B' where u: "nt_apps s e = Some A'" "app_exec b A' = Some B'" "\<not> app_on_wire b" "t = s\<lparr>nt_apps := (nt_apps s)(e \<mapsto> B')\<rparr>"
      by (auto simp del: app_exec.simps split: if_splits option.splits)
    from u(3) have "\<forall>ok. b \<noteq> AppWriter ok" by auto
    with u A B(1) show ?thesis by (intro moved) (auto split: if_splits)
  next
    case (NetAppRead e)
    with step obtain A' B' f fs where u: "nt_apps s e = Some A'" "app_exec (AppInbound (Inr (Some f))) A' = Some B'"
      "t = s\<lparr>nt_apps := (nt_apps s)(e \<mapsto> B'), nt_down := (nt_down s)(e := fs)\<rparr>"
      by (auto simp del: app_exec.simps split: option.splits list.splits)
    with A B(1) show ?thesis by (intro moved) (auto simp del: app_exec.simps split: if_splits)
  next
    case (NetAppLost e x)
    with step obtain A' B' where u: "nt_apps s e = Some A'" "app_exec (AppInbound (lost x)) A' = Some B'"
      "t = s\<lparr>nt_apps := (nt_apps s)(e \<mapsto> B')\<rparr>" by (auto simp del: app_exec.simps split: option.splits)
    with A B(1) show ?thesis by (intro moved) (auto simp del: app_exec.simps split: if_splits)
  qed (use step A B(1) in \<open>auto intro!: moved simp del: bus_exec.simps app_exec.simps split: option.splits list.splits if_splits sum.splits\<close>)
qed

lemma has_request_prefix: "prefix xs ys \<Longrightarrow> has_request r (take k xs) \<Longrightarrow> has_request r (take k ys)"
  by (auto simp: prefix_def)

lemma has_answer_prefix: "prefix xs ys \<Longrightarrow> has_answer r (take k xs) \<Longrightarrow> has_answer r (take k ys)"
  by (auto simp: prefix_def)

lemma going_up_exec:
  assumes step: "net_exec json debug a s = Some t" and "going_up d c j r p s" "ready d c j r t" "a \<noteq> NetBusRead c"
  shows "going_up d c j r p t \<and> prefix (nt_up s c) (nt_up t c)"
proof -
  from assms(2) obtain A where A: "nt_apps s c = Some A" "has_request r (take (Suc p) (nt_up s c @ bk_queue (ap_client A)))"
    by (auto simp: going_up_def)
  from assms(3) obtain B where B: "nt_apps t c = Some B" "app_up B" by (auto simp: ready_def)
  from up_forth [OF step A(1) B assms(4)] has_request_prefix [OF _ A(2)] B(1) assms(3) show ?thesis
    unfolding going_up_def by blast
qed

lemma going_up_read:
  assumes step: "net_exec json debug (NetBusRead c) s = Some t" and "going_up d c j r p s" "ready d c j r t"
  shows "in_broker (nt_bus t) c r \<or> 0 < p \<and> going_up d c j r (p - 1) t"
proof -
  from assms(2) obtain A where A: "nt_apps s c = Some A" "has_request r (take (Suc p) (nt_up s c @ bk_queue (ap_client A)))"
    by (auto simp: going_up_def)
  from step obtain f fs u where u: "nt_up s c = f # fs" "bus_exec json (Inbound c (Inr (Some f))) (nt_bus s) = Some u"
    "t = s\<lparr>nt_bus := u, nt_up := (nt_up s)(c := fs)\<rparr>" by (auto simp del: bus_exec.simps split: list.splits)
  show ?thesis
  proof (cases "\<exists>v. f = Invoke v \<and> inv_req_id v = r")
    case True
    with in_broker_invoke u(2,3) show ?thesis by auto
  next
    case False
    with A(2) u(1) have r: "has_request r (take p (fs @ bk_queue (ap_client A)))" by simp
    then have "0 < p" by (cases p) simp_all
    with r A(1) u(3) assms(3) show ?thesis by (simp add: going_up_def)
  qed
qed

lemma going_up_wants: "going_up d c j r p s \<Longrightarrow> wants (if nt_up s c = [] then ToAppWriter c else ToBusReader c) s"
  by (auto simp: going_up_def ready_def app_up_def bus_up_def)

subsection \<open>In the broker\<close>

lemma in_brokerE:
  assumes "in_broker b c r"
  obtains i tk where "bus_tasks b i = Some tk" "task_for c r tk" | "has_answer r (cl_queue (bus_cells b c))"
  using assms by (auto simp: in_broker_def)

lemma net_bus_action:
  "net_exec json debug a s = Some t \<Longrightarrow>
   nt_bus t = nt_bus s \<or> (\<exists>b. bus_exec json b (nt_bus s) = Some (nt_bus t) \<and> (b = StartTask i \<longrightarrow> a = NetBus (StartTask i)))"
  by (cases a) (auto simp del: bus_exec.simps split: option.splits list.splits if_splits sum.splits)

lemma in_task_exec:
  assumes inv: "progress_inv d n s" "n < 2 ^ 64 - 2" and step: "net_exec json debug a s = Some t"
    and "in_task d c j r i tk s" "ready d c j r t"
  shows "in_task d c j r i tk t \<or> a = NetBus (StartTask i) \<and> unstarted tk \<and> (\<exists>spec w. in_task d c j r i (Awaiting (FromApp c r) spec w) t) \<or>
    has_answer r (nt_down t c @ cl_queue (bus_cells (nt_bus t) c))"
proof -
  from assms(4) have s: "bus_tasks (nt_bus s) i = Some tk" "task_for c r tk" "cl_open (bus_cells (nt_bus s) c)"
    by (auto simp: in_task_def ready_def bus_up_def)
  from net_bus_action [OF step, of i] show ?thesis
  proof (elim disjE exE conjE)
    assume "nt_bus t = nt_bus s"
    with s assms(5) show ?thesis by (simp add: in_task_def)
  next
    fix b assume b: "bus_exec json b (nt_bus s) = Some (nt_bus t)" "b = StartTask i \<longrightarrow> a = NetBus (StartTask i)"
    from task_kept [OF b(1) progress_fresh(2) [OF inv] s] b(2) assms(5) s(2) show ?thesis
      by (auto simp: in_task_def task_for_def)
  qed
qed

subsection \<open>The way down\<close>

lemma bus_write_down:
  assumes "bus_exec json (WriterStep c ok) s = Some t" "bus_up t c"
  shows "ok \<and> cl_queue (bus_cells s c) = hd (cl_queue (bus_cells s c)) # cl_queue (bus_cells t c)"
  using assms by (cases "cl_queue (bus_cells s c)") (auto simp: bus_up_def close_channel_def split: option.splits if_splits)

lemma down_forth:
  assumes step: "net_exec json debug a s = Some t" and up: "nt_apps s c \<noteq> None" "bus_up (nt_bus s) c" "bus_up (nt_bus t) c"
    and a: "a \<noteq> NetAppRead c"
  shows "prefix (nt_down s c @ cl_queue (bus_cells (nt_bus s) c)) (nt_down t c @ cl_queue (bus_cells (nt_bus t) c)) \<and>
    prefix (nt_down s c) (nt_down t c)"
proof -
  have moved: ?thesis if "nt_down t c = nt_down s c"
    "nt_bus t = nt_bus s \<or> (\<exists>b. bus_exec json b (nt_bus s) = Some (nt_bus t) \<and> (\<forall>ok. b \<noteq> WriterStep c ok))"
    using that queue_kept up(3) by (auto simp: kept_at_def bus_up_def)
  show ?thesis
  proof (cases a)
    case (NetBus b)
    with step have b: "\<not> bus_on_wire b" "bus_exec json b (nt_bus s) = Some (nt_bus t)" "nt_down t = nt_down s"
      by (auto simp del: bus_exec.simps split: if_splits)
    from b(1) have "\<forall>ok. b \<noteq> WriterStep c ok" by auto
    with b show ?thesis by (intro moved) auto
  next
    case (NetAckWrite e ok)
    with step up(2) have "e \<noteq> c" by (auto simp: bus_up_def split: option.splits if_splits)
    with step NetAckWrite show ?thesis
      by (intro moved) (auto simp: push_def simp del: bus_exec.simps split: option.splits if_splits)
  next
    case (NetBusWrite e ok)
    with step have u: "bus_exec json (WriterStep e ok) (nt_bus s) = Some (nt_bus t)"
      "nt_down t = push e ok (hd (cl_queue (bus_cells (nt_bus s) e))) (nt_down s)"
      by (auto simp del: bus_exec.simps)
    show ?thesis
    proof (cases "e = c")
      case True
      from bus_write_down [OF u(1) [unfolded True] up(3)] obtain f where
        "ok" "cl_queue (bus_cells (nt_bus s) c) = f # cl_queue (bus_cells (nt_bus t) c)" by blast
      with True u(2) show ?thesis by (simp add: push_def)
    next
      case False
      with u show ?thesis by (intro moved) (auto simp: push_def simp del: bus_exec.simps)
    qed
  next
    case (NetBusRead e)
    with step obtain f where "bus_exec json (Inbound e (Inr (Some f))) (nt_bus s) = Some (nt_bus t)" "nt_down t = nt_down s"
      by (auto simp del: bus_exec.simps split: list.splits)
    then show ?thesis by (intro moved) (simp, blast)
  next
    case (NetBusLost e x)
    with step have "bus_exec json (Inbound e (lost x)) (nt_bus s) = Some (nt_bus t)" "nt_down t = nt_down s"
      by (auto simp del: bus_exec.simps)
    then show ?thesis by (intro moved) (simp, blast)
  qed (use step up(1) a in \<open>auto intro!: moved simp del: bus_exec.simps app_exec.simps split: option.splits list.splits if_splits sum.splits\<close>)
qed

lemma coming_down_exec:
  assumes step: "net_exec json debug a s = Some t" and "coming_down d c j r p s" "ready d c j r t" "a \<noteq> NetAppRead c"
  shows "coming_down d c j r p t \<and> prefix (nt_down s c) (nt_down t c)"
proof -
  have up: "nt_apps s c \<noteq> None" "bus_up (nt_bus s) c" "bus_up (nt_bus t) c"
    using assms(2,3) by (auto simp: coming_down_def ready_def)
  from down_forth [OF step up assms(4)] has_answer_prefix assms(2,3) show ?thesis
    unfolding coming_down_def by blast
qed

lemma coming_down_read:
  assumes step: "net_exec json debug (NetAppRead c) s = Some t" and "coming_down d c j r p s" "ready d c j r t"
  shows "responded d c j r t \<or> 0 < p \<and> coming_down d c j r (p - 1) t"
proof -
  from assms(2) obtain A where A: "nt_apps s c = Some A" "pends A j r"
    "has_answer r (take (Suc p) (nt_down s c @ cl_queue (bus_cells (nt_bus s) c)))"
    by (auto simp: coming_down_def ready_def)
  from step A(1) obtain f fs where u: "nt_down s c = f # fs"
    "t = s\<lparr>nt_apps := (nt_apps s)(c \<mapsto> handle_inbound f A), nt_down := (nt_down s)(c := fs)\<rparr>"
    by (auto simp: connection_inbound_def split: list.splits if_splits)
  show ?thesis
  proof (cases "\<exists>resp. f = Response resp \<and> rsp_req_id resp = r")
    case True
    with response_pends [OF A(2)] u(2) assms(3) show ?thesis by (auto simp: responded_def)
  next
    case False
    with A(3) u(1) have r: "has_answer r (take p (fs @ cl_queue (bus_cells (nt_bus s) c)))" by simp
    then have "0 < p" by (cases p) simp_all
    with r u(2) assms(3) show ?thesis by (simp add: coming_down_def)
  qed
qed

lemma coming_down_wants: "coming_down d c j r p s \<Longrightarrow> wants (if nt_down s c = [] then ToBusWriter c else ToAppReader c) s"
  by (auto simp: coming_down_def ready_def app_up_def bus_up_def)

text \<open>The response stays where the await finds it.\<close>

lemma oneshot_kept:
  assumes "app_exec b A = Some B" "ap_oneshots A j \<noteq> None"
  shows "ap_oneshots B j \<noteq> None"
  using assms handle_inbound_oneshot [of _ A j]
  by (cases b) (auto simp: client_ops client_invoke_def client_send_def connection_inbound_def
      split: option.splits app_call.splits dispatch.splits run_wait.splits if_splits sum.splits)

lemma responded_exec:
  assumes "net_exec json debug a s = Some t" "responded d c j r s" "ready d c j r t"
  shows "responded d c j r t"
proof -
  from assms(2) obtain A where A: "nt_apps s c = Some A" "ap_oneshots A j \<noteq> None" by (auto simp: responded_def)
  with app_forth [OF assms(1) A(1)] oneshot_kept assms(3) show ?thesis unfolding responded_def by blast
qed

lemma responded_await:
  assumes "net_exec json debug (NetApp c (AppCallReady j)) s = Some t" "responded d c j r s"
  shows "ended c j t"
  using assms by (auto simp: responded_def ready_def pends_def ended_def split: option.splits app_call.splits)

subsection \<open>How fast the way down fills\<close>

definition backlog :: "conn_id \<Rightarrow> net \<Rightarrow> nat" where
  "backlog c s = length (nt_down s c) + length (cl_queue (bus_cells (nt_bus s) c))"

named_theorems growth

lemma chan_send_growth [growth]: "length (cl_queue (fst (chan_send d f cs) c)) \<le> Suc (length (cl_queue (cs c)))"
  by (simp add: chan_send_def)

lemma finish_task_growth [growth]:
  "length (cl_queue (bus_cells (finish_task json i og res s) c)) \<le> Suc (length (cl_queue (bus_cells s c)))"
  by (auto simp: finish_task_def Let_def growth split: origin.split)

lemma call_begin_growth:
  "call_begin b i sv m p cl cs = (Inr w, cs') \<Longrightarrow> length (cl_queue (cs' c)) \<le> Suc (length (cl_queue (cs c)))"
  "call_begin b i sv m p cl cs = (Inl e, cs') \<Longrightarrow> cl_queue (cs' c) = cl_queue (cs c)"
  by (auto simp: call_begin_def call_remote_def chan_send_def Let_def split: option.splits prod.splits bool.splits if_splits)

lemma start_call_growth [growth]:
  "length (cl_queue (bus_cells (start_call json i og spec s) c)) \<le> Suc (length (cl_queue (bus_cells s c)))"
proof (cases "call_begin (bus_broker s) i (cs_service spec) (cs_method spec) (cs_payload spec) (cs_caller spec) (bus_cells s)")
  case (Pair res cs)
  show ?thesis
  proof (cases res)
    case (Inl e)
    with Pair call_begin_growth(2) [of _ _ _ _ _ _ _ e cs c] finish_task_growth [of json i og "Inl e" "s\<lparr>bus_cells := cs\<rparr>" c]
    show ?thesis by (simp add: start_call_def)
  next
    case (Inr w)
    with Pair call_begin_growth(1) [of _ _ _ _ _ _ _ w cs c] show ?thesis by (simp add: start_call_def)
  qed
qed

lemma resume_task_growth [growth]:
  "length (cl_queue (bus_cells (resume_task json i og spec w wk s) c)) \<le> Suc (length (cl_queue (bus_cells s c)))"
proof (cases "call_resume w (cs_timeout spec) wk (bus_cells s)")
  case (Pair res cs)
  with call_resume_queue [of w "cs_timeout spec" wk "bus_cells s" c] finish_task_growth [of json i og res "s\<lparr>bus_cells := cs\<rparr>" c]
  show ?thesis by (simp add: resume_task_def)
qed

lemma start_task_growth [growth]:
  "length (cl_queue (bus_cells (start_task json i t s) c)) \<le> Suc (length (cl_queue (bus_cells s c)))"
  by (cases t) (auto simp: growth split: option.split)

lemma shutdown_service_growth [growth]: "length (cl_queue (snd (shutdown_service b sv cs) c)) \<le> Suc (length (cl_queue (cs c)))"
  by (auto simp: shutdown_service_snd growth split: option.split)

lemma queue_growth:
  assumes "bus_inv n s" "bus_exec json a s = Some t"
  shows "length (cl_queue (bus_cells t c)) \<le> Suc (length (cl_queue (bus_cells s c)))"
proof (cases a)
  case (Inbound d inbound)
  with assms(2) obtain k where k: "t = session_inbound d k inbound s" by (auto split: option.splits if_splits)
  have "length (cl_queue (fanout (bus_broker s) sv ev (bus_cells s) c)) \<le> Suc (length (cl_queue (bus_cells s c)))" for sv ev
    using fanout_once [of "bus_broker s" "bus_conns s" sv ev "bus_cells s" c] assms(1)
    by (auto simp: bus_inv_def conn_inv_def)
  with k show ?thesis
    by (auto simp: session_inbound_def session_end_def spawn_task_def set_phase_def close_channel_def bus_views Let_def
        split: sum.splits option.splits bus_frame.splits)
qed (use assms(2) in \<open>auto simp: growth accept_def ack_failed_def ack_written_def spawn_task_def set_phase_def close_channel_def Let_def
    simp del: start_task.simps split: option.splits task.splits call_wait.splits if_splits prod.splits handshake.splits\<close>)

lemma backlog_exec:
  assumes "progress_inv d n s" "net_exec json debug a s = Some t"
  shows "backlog c t \<le> Suc (backlog c s)"
proof -
  have q: "length (cl_queue (bus_cells u c)) \<le> Suc (length (cl_queue (bus_cells (nt_bus s) c)))"
    if "bus_exec json b (nt_bus s) = Some u" for b u
    by (rule queue_growth [OF progress_invD(1) [OF assms(1)] that])
  show ?thesis
  proof (cases a)
    case (NetAckWrite e ok)
    with assms(2) show ?thesis
      by (auto simp: backlog_def push_def ack_written_def ack_failed_def spawn_task_def set_phase_def close_channel_def Let_def
          split: option.splits if_splits)
  next
    case (NetBusWrite e ok)
    with assms(2) show ?thesis
      by (auto simp: backlog_def push_def close_channel_def split: option.splits if_splits)
  qed (use assms(2) q in \<open>fastforce simp: backlog_def simp del: bus_exec.simps app_exec.simps
      split: option.splits list.splits if_splits sum.splits\<close>)+
qed

lemma backlog_run:
  "progress_inv d n s \<Longrightarrow> n + length as \<le> 2 ^ 64 - 2 \<Longrightarrow> run_actions (net_exec json debug) as s = Some t \<Longrightarrow>
   backlog c t \<le> backlog c s + length as"
proof (induction as arbitrary: n s)
  case (Cons a as)
  then obtain u where u: "net_exec json debug a s = Some u" "run_actions (net_exec json debug) as u = Some t"
    by (auto split: option.splits)
  have room: "n < 2 ^ 64 - 2" using Cons.prems(2) by simp
  from Cons.IH [OF progress_inv_exec [OF Cons.prems(1) room u(1)] _ u(2)] Cons.prems(2) backlog_exec [OF Cons.prems(1) u(1), of c]
  show ?case by simp
qed simp

subsection \<open>From stage to stage\<close>

abbreviation net_soon where
  "net_soon json debug D \<equiv> soon (net_exec json debug) wants serves D (2 ^ 64 - 2)"

definition answer_sent :: "duration \<Rightarrow> conn_id \<Rightarrow> nat \<Rightarrow> u64 \<Rightarrow> net \<Rightarrow> bool" where
  "answer_sent d c j r s \<longleftrightarrow> ready d c j r s \<and> has_answer r (nt_down s c @ cl_queue (bus_cells (nt_bus s) c))"

lemma inbound_lost_down: "bus_exec json (Inbound c (lost e)) s = Some t \<Longrightarrow> \<not> bus_up t c"
  by (auto simp: lost_def session_inbound_def session_end_def set_phase_def bus_up_def Let_def split: option.splits if_splits)

lemma inbound_lost_app: "app_exec (AppInbound (lost e)) A = Some B \<Longrightarrow> \<not> app_up B"
  by (auto simp: lost_def connection_inbound_def connection_end_def app_up_def Let_def split: option.splits if_splits)

lemma written_up:
  assumes "net_exec json debug (NetAppWrite c ok) s = Some t" "ready d c j r t"
  shows "nt_up t c \<noteq> []"
proof -
  from assms(1) obtain A B where u: "app_exec (AppWriter ok) A = Some B"
    "t = s\<lparr>nt_apps := (nt_apps s)(c \<mapsto> B), nt_up := push c ok (hd (bk_queue (ap_client A))) (nt_up s)\<rparr>"
    by (auto simp del: app_exec.simps split: option.splits)
  with assms(2) have "app_up B" by (simp add: ready_def)
  from app_write_up [OF u(1) this] u(2) show ?thesis by (simp add: push_def)
qed

lemma written_down:
  assumes "net_exec json debug (NetBusWrite c ok) s = Some t" "ready d c j r t"
  shows "nt_down t c \<noteq> []"
proof -
  from assms(1) have u: "bus_exec json (WriterStep c ok) (nt_bus s) = Some (nt_bus t)"
    "nt_down t = push c ok (hd (cl_queue (bus_cells (nt_bus s) c))) (nt_down s)" by (auto simp del: bus_exec.simps)
  have "bus_up (nt_bus t) c" using assms(2) by (auto simp: ready_def)
  from bus_write_down [OF u(1) this] u(2) show ?thesis by (simp add: push_def)
qed

lemma lost_not_ready:
  "net_exec json debug (NetBusLost c e) s = Some t \<Longrightarrow> \<not> ready d c j r t"
  "net_exec json debug (NetAppLost c e) s = Some t \<Longrightarrow> \<not> ready d c j r t"
  by (auto simp: ready_def dest: inbound_lost_down inbound_lost_app simp del: bus_exec.simps app_exec.simps split: option.splits)

text \<open>The request reaches the broker.\<close>

lemma soon_up:
  assumes "progress_inv d n s" "going_up d c j r p s"
  shows "net_soon json debug D (2 * D * Suc p) (\<lambda>u. ended c j u \<or> ready d c j r u \<and> in_broker (nt_bus u) c r) n s"
proof (rule fair.soon_walk [where Q = "going_up d c j r", OF _ assms])
  fix m t p assume t: "progress_inv d m t" "going_up d c j r p t"
  let ?G = "\<lambda>u. (ended c j u \<or> ready d c j r u \<and> in_broker (nt_bus u) c r) \<or> 0 < p \<and> going_up d c j r (p - 1) u"
  show "net_soon json debug D (2 * D) ?G m t"
  proof (rule fair.soon_round [where Q = "going_up d c j r p" and e = "\<lambda>u. nt_up u c = []" and ?w1.0 = "ToAppWriter c" and ?w2.0 = "ToBusReader c", OF t])
    fix k a u v
    assume u: "progress_inv d k u" "k < 2 ^ 64 - 2" "going_up d c j r p u" "net_exec json debug a u = Some v"
    have ready: "ready d c j r v \<or> ended c j v" using ready_exec [OF u(1,2,4), of c j r] u(3) by (simp add: going_up_def)
    have read: "?G v" if "a = NetBusRead c"
      using ready going_up_read [OF u(4) [unfolded that] u(3)] by blast
    show "going_up d c j r p v \<and> (\<not> nt_up u c = [] \<longrightarrow> \<not> nt_up v c = []) \<or> ?G v"
      using ready read going_up_exec [OF u(4,3)] by (cases "a = NetBusRead c") (auto simp: prefix_def)
    show "\<not> nt_up v c = [] \<or> ?G v" if "serves (ToAppWriter c) a"
      using ready that written_up u(4) by auto
    show "?G v" if "serves (ToBusReader c) a"
      using ready that read lost_not_ready(1) u(4) by auto
  qed (rule going_up_wants)
qed

text \<open>The broker answers.\<close>

lemma soon_timer:
  assumes "progress_inv d n s" "in_task d c j r i (Awaiting (FromApp c r) spec w) s" "\<not> duration_is_zero d"
  shows "net_soon json debug D D (\<lambda>u. ended c j u \<or> answer_sent d c j r u) n s"
proof (rule fair.soon_step [where Q = "in_task d c j r i (Awaiting (FromApp c r) spec w)" and w = "ToTimer i", OF assms(1,2)])
  fix u assume u: "in_task d c j r i (Awaiting (FromApp c r) spec w) u"
  then have "timed d (nt_bus u)" "bus_tasks (nt_bus u) i = Some (Awaiting (FromApp c r) spec w)"
    by (auto simp: in_task_def ready_def)
  then have "cs_timeout spec = d" unfolding timed_def by blast
  with u assms(3) show "wants (ToTimer i) u" by (simp add: in_task_def)
next
  fix k a u v
  assume u: "progress_inv d k u" "k < 2 ^ 64 - 2" "in_task d c j r i (Awaiting (FromApp c r) spec w) u" "net_exec json debug a u = Some v"
  have ready: "ready d c j r v \<or> ended c j v" using ready_exec [OF u(1,2,4), of c j r] u(3) by (simp add: in_task_def)
  show "in_task d c j r i (Awaiting (FromApp c r) spec w) v \<or> (ended c j v \<or> answer_sent d c j r v)"
    using ready in_task_exec [OF u(1,2,4,3)] by (auto simp: answer_sent_def)
  show "ended c j v \<or> answer_sent d c j r v" if "serves (ToTimer i) a"
  proof -
    from that u(4) have "bus_exec json (TimerFires i) (nt_bus u) = Some (nt_bus v)" by (auto simp del: bus_exec.simps)
    with u(3) have "nt_bus v = resume_task json i (FromApp c r) spec w Elapsed (nt_bus u)"
      by (auto simp: in_task_def split: if_splits)
    moreover have "cl_open (bus_cells (nt_bus u) c)" using u(3) by (auto simp: in_task_def ready_def bus_up_def)
    ultimately show ?thesis using ready resume_answers by (auto simp: answer_sent_def)
  qed
qed

lemma soon_answered:
  assumes "progress_inv d n s" "ready d c j r s" "in_broker (nt_bus s) c r" "\<not> duration_is_zero d"
  shows "net_soon json debug D (2 * D) (\<lambda>u. ended c j u \<or> answer_sent d c j r u) n s"
  using assms(3)
proof (rule in_brokerE)
  assume "has_answer r (cl_queue (bus_cells (nt_bus s) c))"
  with assms(2) show ?thesis by (intro fair.soon_now) (simp add: answer_sent_def)
next
  fix i tk assume "bus_tasks (nt_bus s) i = Some tk" "task_for c r tk"
  with assms(2) have s: "in_task d c j r i tk s" by (simp add: in_task_def)
  show ?thesis
  proof (cases "unstarted tk")
    case False
    with \<open>task_for c r tk\<close> obtain spec w where "tk = Awaiting (FromApp c r) spec w" by (auto simp: task_for_def)
    from soon_timer [OF assms(1) s [unfolded this] assms(4)] show ?thesis by (rule fair.soon_weaken) simp_all
  next
    case True
    let ?G = "\<lambda>u. (\<exists>spec w. in_task d c j r i (Awaiting (FromApp c r) spec w) u) \<or> (ended c j u \<or> answer_sent d c j r u)"
    have start: "net_soon json debug D D ?G n s"
    proof (rule fair.soon_step [where Q = "in_task d c j r i tk" and w = "ToStart i", OF assms(1) s])
      show "wants (ToStart i) u" if "in_task d c j r i tk u" for u using that True by (simp add: in_task_def)
    next
      fix k a u v
      assume u: "progress_inv d k u" "k < 2 ^ 64 - 2" "in_task d c j r i tk u" "net_exec json debug a u = Some v"
      have ready: "ready d c j r v \<or> ended c j v" using ready_exec [OF u(1,2,4), of c j r] u(3) by (simp add: in_task_def)
      show "in_task d c j r i tk v \<or> ?G v"
        using ready in_task_exec [OF u(1,2,4,3)] by (auto simp: answer_sent_def)
      show "?G v" if "serves (ToStart i) a"
      proof -
        from that u(4) have "bus_exec json (StartTask i) (nt_bus u) = Some (nt_bus v)" by (auto simp del: bus_exec.simps)
        then obtain x where "bus_tasks (nt_bus u) i = Some x" "nt_bus v = start_task json i x (nt_bus u)" by (rule start_exec)
        with u(3) have v: "nt_bus v = start_task json i tk (nt_bus u)" by (simp add: in_task_def)
        have "cl_open (bus_cells (nt_bus u) c)" "task_for c r tk" using u(3) by (auto simp: in_task_def ready_def bus_up_def)
        from start_task_progress [OF this True, of json i] ready v show ?thesis
          by (auto simp: answer_sent_def in_task_def task_for_def)
      qed
    qed
    have "net_soon json debug D (D + D) (\<lambda>u. ended c j u \<or> answer_sent d c j r u) n s"
    proof (rule fair.soon_trans [OF assms(1) start])
      fix xs t
      assume t: "progress_inv d (n + length xs) t" "?G t"
      from t(2) show "net_soon json debug D D (\<lambda>u. ended c j u \<or> answer_sent d c j r u) (n + length xs) t"
      proof (elim disjE exE)
        fix spec w assume "in_task d c j r i (Awaiting (FromApp c r) spec w) t"
        from soon_timer [OF t(1) this assms(4)] show ?thesis .
      qed (rule fair.soon_now, simp)+
    qed
    then show ?thesis by (simp add: mult_2)
  qed
qed

text \<open>The answer reaches the app, and its await.\<close>

lemma soon_responded:
  assumes "progress_inv d n s" "coming_down d c j r p s"
  shows "net_soon json debug D (2 * D * Suc p) (\<lambda>u. ended c j u \<or> responded d c j r u) n s"
proof (rule fair.soon_walk [where Q = "coming_down d c j r", OF _ assms])
  fix m t p assume t: "progress_inv d m t" "coming_down d c j r p t"
  let ?G = "\<lambda>u. (ended c j u \<or> responded d c j r u) \<or> 0 < p \<and> coming_down d c j r (p - 1) u"
  show "net_soon json debug D (2 * D) ?G m t"
  proof (rule fair.soon_round [where Q = "coming_down d c j r p" and e = "\<lambda>u. nt_down u c = []" and ?w1.0 = "ToBusWriter c" and ?w2.0 = "ToAppReader c", OF t])
    fix k a u v
    assume u: "progress_inv d k u" "k < 2 ^ 64 - 2" "coming_down d c j r p u" "net_exec json debug a u = Some v"
    have ready: "ready d c j r v \<or> ended c j v" using ready_exec [OF u(1,2,4), of c j r] u(3) by (simp add: coming_down_def)
    have read: "?G v" if "a = NetAppRead c"
      using ready coming_down_read [OF u(4) [unfolded that] u(3)] by blast
    show "coming_down d c j r p v \<and> (\<not> nt_down u c = [] \<longrightarrow> \<not> nt_down v c = []) \<or> ?G v"
      using ready read coming_down_exec [OF u(4,3)] by (cases "a = NetAppRead c") (auto simp: prefix_def)
    show "\<not> nt_down v c = [] \<or> ?G v" if "serves (ToBusWriter c) a"
      using ready that written_down u(4) by auto
    show "?G v" if "serves (ToAppReader c) a"
      using ready that read lost_not_ready(2) u(4) by auto
  qed (rule coming_down_wants)
qed

lemma soon_ended:
  assumes "progress_inv d n s" "responded d c j r s"
  shows "net_soon json debug D D (ended c j) n s"
proof (rule fair.soon_step [where Q = "responded d c j r" and w = "ToAwait c j", OF assms])
  show "wants (ToAwait c j) u" if "responded d c j r u" for u
    using that by (auto simp: responded_def ready_def pends_def)
next
  fix k a u v
  assume u: "progress_inv d k u" "k < 2 ^ 64 - 2" "responded d c j r u" "net_exec json debug a u = Some v"
  have "ready d c j r v \<or> ended c j v" using ready_exec [OF u(1,2,4), of c j r] u(3) by (simp add: responded_def)
  with responded_exec [OF u(4,3)] show "responded d c j r v \<or> ended c j v" by blast
  show "ended c j v" if "serves (ToAwait c j) a" using responded_await u(3,4) that by auto
qed

subsection \<open>The whole way\<close>

lemma soon_then:
  assumes "progress_inv d n s" "net_soon json debug D T (\<lambda>u. ended c j u \<or> G u) n s"
    and next_stage: "\<And>xs t. run_actions (net_exec json debug) xs s = Some t \<Longrightarrow> length xs \<le> T \<Longrightarrow> n + length xs \<le> 2 ^ 64 - 2 \<Longrightarrow>
      progress_inv d (n + length xs) t \<Longrightarrow> G t \<Longrightarrow> net_soon json debug D T' (ended c j) (n + length xs) t"
  shows "net_soon json debug D (T + T') (ended c j) n s"
proof (rule fair.soon_trans [OF assms(1,2)])
  fix xs t
  assume t: "run_actions (net_exec json debug) xs s = Some t" "length xs \<le> T" "n + length xs \<le> 2 ^ 64 - 2"
    "progress_inv d (n + length xs) t" "ended c j t \<or> G t"
  from t(5) show "net_soon json debug D T' (ended c j) (n + length xs) t"
  proof
    assume "ended c j t"
    then show ?thesis by (rule fair.soon_now)
  qed (rule next_stage [OF t(1-4)])
qed

lemma soon_from_answer:
  assumes "progress_inv d n s" "answer_sent d c j r s" "backlog c s \<le> L"
  shows "net_soon json debug D (2 * D * L + D) (ended c j) n s"
proof -
  let ?p = "backlog c s - 1"
  have pos: "Suc ?p = backlog c s" using assms(2) by (cases "backlog c s") (auto simp: answer_sent_def backlog_def)
  then have "take (Suc ?p) (nt_down s c @ cl_queue (bus_cells (nt_bus s) c)) = nt_down s c @ cl_queue (bus_cells (nt_bus s) c)"
    by (simp add: backlog_def del: take_append)
  with assms(2) have "coming_down d c j r ?p s" by (simp add: coming_down_def answer_sent_def del: take_append)
  from soon_then [OF assms(1) soon_responded [OF assms(1) this]] soon_ended
  have "net_soon json debug D (2 * D * Suc ?p + D) (ended c j) n s" by blast
  then show ?thesis by (rule fair.soon_weaken) (use assms(3) pos in \<open>simp_all del: Suc_pred\<close>)
qed

lemma soon_from_broker:
  assumes "progress_inv d n s" "ready d c j r s" "in_broker (nt_bus s) c r" "\<not> duration_is_zero d" "backlog c s \<le> L"
  shows "net_soon json debug D (2 * D + (2 * D * (L + 2 * D) + D)) (ended c j) n s"
proof (rule soon_then [OF assms(1) soon_answered [OF assms(1-4)]])
  fix xs t
  assume t: "run_actions (net_exec json debug) xs s = Some t" "length xs \<le> 2 * D" "n + length xs \<le> 2 ^ 64 - 2"
    "progress_inv d (n + length xs) t" "answer_sent d c j r t"
  have "backlog c t \<le> L + 2 * D" using backlog_run [OF assms(1) t(3,1), of c] t(2) assms(5) by simp
  from soon_from_answer [OF t(4,5) this] show "net_soon json debug D (2 * D * (L + 2 * D) + D) (ended c j) (n + length xs) t" .
qed

lemma soon_from_app:
  assumes "progress_inv d n s" "ready d c j r s" "nt_apps s c = Some A" "has_request r (nt_up s c @ bk_queue (ap_client A))"
    and "\<not> duration_is_zero d"
  shows "net_soon json debug D (patience D s c A) (ended c j) n s"
proof -
  let ?up = "nt_up s c @ bk_queue (ap_client A)"
  let ?p = "length ?up - 1"
  have pos: "Suc ?p = length ?up" using assms(4) by (cases ?up) auto
  then have "going_up d c j r ?p s" using assms(2-4) by (simp add: going_up_def del: take_append length_append)
  note up = soon_up [OF assms(1) this, of json debug D, unfolded pos]
  have "net_soon json debug D
      (2 * D * length ?up + (2 * D + (2 * D * (backlog c s + 2 * D * length ?up + 2 * D) + D))) (ended c j) n s"
  proof (rule soon_then [OF assms(1) up])
    fix xs t
    assume t: "run_actions (net_exec json debug) xs s = Some t" "length xs \<le> 2 * D * length ?up" "n + length xs \<le> 2 ^ 64 - 2"
      "progress_inv d (n + length xs) t" "ready d c j r t \<and> in_broker (nt_bus t) c r"
    have "backlog c t \<le> backlog c s + 2 * D * length ?up" using backlog_run [OF assms(1) t(3,1), of c] t(2) by simp
    from soon_from_broker [OF t(4) _ _ assms(5) this] t(5)
    show "net_soon json debug D (2 * D + (2 * D * (backlog c s + 2 * D * length ?up + 2 * D) + D)) (ended c j) (n + length xs) t"
      by blast
  qed
  then show ?thesis
    by (rule fair.soon_weaken) (simp_all add: patience_def backlog_def Let_def algebra_simps)
qed

lemma soon_call:
  assumes "progress_inv d n s" "nt_apps s c = Some A" "ap_calls A j = Some (CallWaiting r)" "\<not> duration_is_zero d"
  shows "net_soon json debug D (patience D s c A) (ended c j) n s"
proof (cases "app_up A \<and> bus_up (nt_bus s) c")
  case False
  with assms(2) show ?thesis by (intro fair.soon_now) (auto simp: ended_def)
next
  case True
  note inv' = progress_invD [OF assms(1)]
  have "pends A j r"
    using client_call_in_table [OF inv'(5) [OF assms(2)] assms(3)] assms(3) by (auto simp: pends_def)
  with True assms(2) inv'(2) have ready: "ready d c j r s" by (simp add: ready_def)
  consider "ap_oneshots A j \<noteq> None" | "has_request r (nt_up s c @ bk_queue (ap_client A))"
    | "in_broker (nt_bus s) c r" | "answer_sent d c j r s"
    using inv'(6) [OF assms(2), of j r] True assms(3) ready
    by (auto simp: waiting_def on_its_way_def answer_sent_def)
  then show ?thesis
  proof cases
    case 1
    with ready assms(2) have "responded d c j r s" by (simp add: responded_def)
    from soon_ended [OF assms(1) this] show ?thesis by (rule fair.soon_weaken) (simp_all add: patience_def Let_def)
  next
    case 2
    from soon_from_app [OF assms(1) ready assms(2) this assms(4)] show ?thesis .
  next
    case 3
    from soon_from_broker [OF assms(1) ready this assms(4) order_refl] show ?thesis
      by (rule fair.soon_weaken) (simp_all add: patience_def backlog_def Let_def algebra_simps)
  next
    case 4
    from soon_from_answer [OF assms(1) this order_refl] show ?thesis
      by (rule fair.soon_weaken) (simp_all add: patience_def backlog_def Let_def algebra_simps)
  qed
qed

lemma ended_run:
  "progress_inv d n s \<Longrightarrow> n + length as \<le> 2 ^ 64 - 2 \<Longrightarrow> run_actions (net_exec json debug) as s = Some t \<Longrightarrow> ended c j s \<Longrightarrow>
   ended c j t"
proof (induction as arbitrary: n s)
  case (Cons a as)
  then obtain u where u: "net_exec json debug a s = Some u" "run_actions (net_exec json debug) as u = Some t"
    by (auto split: option.splits)
  have room: "n < 2 ^ 64 - 2" using Cons.prems(2) by simp
  show ?case
    by (rule Cons.IH [OF progress_inv_exec [OF Cons.prems(1) room u(1)] _ u(2) ended_exec [OF Cons.prems(1) room u(1) Cons.prems(4)]])
       (use Cons.prems(2) in simp)
qed simp

subsection \<open>A fair run\<close>

definition quiet :: "net \<Rightarrow> bool" where
  "quiet s \<longleftrightarrow> (\<forall>w. \<not> wants w s)"

lemma all_demands:
  "(\<forall>w. P w) \<longleftrightarrow> (\<forall>c. P (ToAppWriter c)) \<and> (\<forall>c. P (ToBusReader c)) \<and> (\<forall>i. P (ToStart i)) \<and> (\<forall>i. P (ToTimer i)) \<and>
     (\<forall>c. P (ToBusWriter c)) \<and> (\<forall>c. P (ToAppReader c)) \<and> (\<forall>c j. P (ToAwait c j))"
  by (metis demand.exhaust)

text \<open>The app on connection 0 only lets time pass.\<close>

definition idle_run :: "nat \<Rightarrow> net_action list" where
  "idle_run k = replicate k (NetApp 0 (Tick 1))"

lemma wants_tick:
  "nt_apps s 0 = Some A \<Longrightarrow> wants w (s\<lparr>nt_apps := (nt_apps s)(0 \<mapsto> A\<lparr>ap_now := x\<rparr>)\<rparr>) = wants w s"
  by (cases w) (auto split: option.split app_call.split)

lemma tick_quiet:
  assumes "nt_apps s 0 = Some A" "quiet s"
  shows "\<exists>t B. net_exec json debug (NetApp 0 (Tick 1)) s = Some t \<and> nt_apps t 0 = Some B \<and> quiet t \<and>
    ap_calls B = ap_calls A \<and> app_up B = app_up A \<and> nt_bus t = nt_bus s"
  using assms wants_tick [OF assms(1)] by (simp add: quiet_def app_up_def)

lemma idle_quiet:
  "nt_apps s 0 = Some A \<Longrightarrow> quiet s \<Longrightarrow>
   \<exists>t B. run_actions (net_exec json debug) (idle_run k) s = Some t \<and> nt_apps t 0 = Some B \<and> quiet t \<and> ap_calls B = ap_calls A"
proof (induction k arbitrary: s A)
  case (Suc k)
  from tick_quiet [OF Suc.prems, of json debug] obtain t B where t: "net_exec json debug (NetApp 0 (Tick 1)) s = Some t"
    "nt_apps t 0 = Some B" "quiet t" "ap_calls B = ap_calls A" by blast
  from Suc.IH [OF t(2,3)] t(1,4) show ?case by (auto simp: idle_run_def)
qed (auto simp: idle_run_def)

lemma timely_quiet:
  assumes "run_actions (net_exec json debug) xs s = Some t" "length xs < D" "nt_apps t 0 = Some A" "quiet t"
  shows "timely_net json debug D (xs @ idle_run k) s"
  unfolding timely_net_def timely_def
proof (intro allI impI, elim conjE)
  fix w us ys zs u
  assume w: "xs @ idle_run k = us @ ys @ zs" "length ys = D" "run_actions (net_exec json debug) us s = Some u"
    "\<forall>us vs v. ys = us @ vs \<and> vs \<noteq> [] \<and> run_actions (net_exec json debug) us u = Some v \<longrightarrow> wants w v"
  have "\<exists>vs v. run_actions (net_exec json debug) vs u = Some v \<and> quiet v \<and> length vs < D \<and> take (length vs) ys = vs"
  proof (cases "length us \<le> length xs")
    case True
    with iffD1 [OF append_eq_append_conv2 w(1)] obtain vs where vs: "xs = us @ vs" "vs @ idle_run k = ys @ zs" by auto
    with assms(1,2) w(3) have "run_actions (net_exec json debug) vs u = Some t" "length vs < D" by (simp_all add: run_append)
    moreover from this(2) w(2) have "take (length vs) ys = vs"
      using arg_cong [OF vs(2), of "take (length vs)"] by simp
    ultimately show ?thesis using assms(4) by blast
  next
    case False
    with iffD1 [OF append_eq_append_conv2 w(1)] obtain vs where vs: "us = xs @ vs" "idle_run k = vs @ ys @ zs" by auto
    from vs(2) have "vs = take (length vs) (idle_run k)" by simp
    then have "vs = idle_run (min (length vs) k)" by (simp add: idle_run_def)
    with idle_quiet [OF assms(3,4), of json debug "min (length vs) k"] assms(1) w(3) vs(1) have "quiet u"
      by (auto simp: run_append)
    with assms(2) show ?thesis by (intro exI [of _ "[]"] exI [of _ u]) simp
  qed
  then obtain vs v where v: "run_actions (net_exec json debug) vs u = Some v" "quiet v" "length vs < D" "take (length vs) ys = vs" by blast
  have "ys = vs @ drop (length vs) ys" "drop (length vs) ys \<noteq> []"
    using v(3,4) w(2) append_take_drop_id [of "length vs" ys] by simp_all
  with w(4) v(1) have "wants w v" by blast
  with v(2) show "\<exists>a \<in> set ys. serves w a" by (simp add: quiet_def)
qed

definition demo_fair :: "net_action list" where
  "demo_fair =
     [NetAppWrite 0 True, NetBusRead 0, NetBus (StartTask 1), NetBus (TimerFires 1), NetBusWrite 0 True, NetBusWrite 0 True,
      NetAppRead 0, NetAppRead 0, NetApp 0 (AppCallReady 0), NetBus (StartTask 0)]"

lemma demo_fair_quiet:
  "\<exists>s A t B. run_actions (net_exec demo_json (\<lambda>_. [])) (take 5 demo_net) (net_init broker_config_default) = Some s \<and>
     nt_apps s 0 = Some A \<and> ap_calls A 0 = Some (CallWaiting 1) \<and> patience 11 s 0 A = 1023 \<and>
     run_actions (net_exec demo_json (\<lambda>_. [])) demo_fair s = Some t \<and> nt_apps t 0 = Some B \<and> quiet t"
  by (simp add: demo_fair_def demo_net_def net_init_def demo_eval push_def ack_frame_def establish_def hello_reply_def
      client_new_def app_start_def client_invoke_def client_send_def str_simps connection_inbound_def client_response_def
      record_activity_def resume_task_def finish_task_def stamp_caller_def patience_def quiet_def all_demands broker_config_default_def
      duration_is_zero_def duration_from_secs_def)

section \<open>Theorems\<close>

text \<open>
  C6. Every fair schedule ends every call. Let an app's call wait in a reachable state, and let the run
  that follows serve within \<open>D\<close> steps whatever demands to go on: a writer with a frame to write, a
  reader with a frame to read, a task that can start, a running timeout, an await whose response has
  come. If it goes on for at least \<open>patience D\<close> steps, a number that the frames before the call
  determine, then in its last state the call is done, or one side of the app's connection is down.
  Nothing is asked of the service that is called.
\<close>

theorem fair_schedules_end_calls:
  assumes "run_actions (net_exec json debug) as (net_init config) = Some s"
    and "nt_apps s c = Some A" "ap_calls A j = Some (CallWaiting r)"
    and "\<not> duration_is_zero (bc_default_call_timeout config)"
    and "run_actions (net_exec json debug) bs s = Some t" "timely_net json debug D bs s" "patience D s c A \<le> length bs"
    and "length as + length bs \<le> 2 ^ 64 - 2"
  shows "\<exists>B. nt_apps t c = Some B \<and> ((\<exists>res. ap_calls B j = Some (CallDone res)) \<or> \<not> app_up B \<or> \<not> bus_up (nt_bus t) c)"
proof -
  let ?d = "bc_default_call_timeout config"
  have inv: "progress_inv ?d (length as) s" using assms(1,8) by (intro progressing.inv_run) simp_all
  from soon_call [OF inv assms(2-4), of json debug D] assms(5-8)
  obtain xs ys u where u: "bs = xs @ ys" "run_actions (net_exec json debug) xs s = Some u" "ended c j u"
    unfolding soon_def timely_net_def by blast
  have "progress_inv ?d (length as + length xs) u"
    by (rule fair.inv_from [OF inv _ u(2)]) (use assms(8) u(1) in simp)
  from this _ _ u(3) have "ended c j t"
    by (rule ended_run [where as = ys]) (use assms(5,8) u(1,2) in \<open>simp_all add: run_append\<close>)
  then show ?thesis by (simp add: ended_def)
qed

theorem fair_schedules_end_calls_witness:
  "\<exists>s t B. run_actions (net_exec demo_json (\<lambda>_. [])) (take 5 demo_net) (net_init broker_config_default) = Some s \<and>
     run_actions (net_exec demo_json (\<lambda>_. [])) (demo_fair @ idle_run 1023) s = Some t \<and>
     timely_net demo_json (\<lambda>_. []) 11 (demo_fair @ idle_run 1023) s \<and>
     nt_apps t 0 = Some B \<and> ((\<exists>res. ap_calls B 0 = Some (CallDone res)) \<or> \<not> app_up B \<or> \<not> bus_up (nt_bus t) 0)"
proof -
  from demo_fair_quiet obtain s A u C where
    s: "run_actions (net_exec demo_json (\<lambda>_. [])) (take 5 demo_net) (net_init broker_config_default) = Some s"
    "nt_apps s 0 = Some A" "ap_calls A 0 = Some (CallWaiting 1)"
    and u: "patience 11 s 0 A = 1023" "run_actions (net_exec demo_json (\<lambda>_. [])) demo_fair s = Some u" "nt_apps u 0 = Some C" "quiet u"
    by blast
  from idle_quiet [OF u(3,4)] obtain t where "run_actions (net_exec demo_json (\<lambda>_. [])) (idle_run 1023) u = Some t" by blast
  with u(2) have t: "run_actions (net_exec demo_json (\<lambda>_. [])) (demo_fair @ idle_run 1023) s = Some t"
    by (simp add: run_append)
  have timely: "timely_net demo_json (\<lambda>_. []) 11 (demo_fair @ idle_run 1023) s"
    by (rule timely_quiet [OF u(2) _ u(3,4)]) (simp add: demo_fair_def)
  have len: "patience 11 s 0 A \<le> length (demo_fair @ idle_run 1023)"
    "length (take 5 demo_net) + length (demo_fair @ idle_run 1023) \<le> 2 ^ 64 - 2"
    by (simp_all add: u(1) idle_run_def demo_fair_def)
  have "\<not> duration_is_zero (bc_default_call_timeout broker_config_default)"
    by (simp add: broker_config_default_def duration_is_zero_def duration_from_secs_def)
  from fair_schedules_end_calls [OF s this t timely len] s(1) t timely show ?thesis by blast
qed

end
