(* ===== verification/Wire.thy ===== *)
theory Wire
  imports Progress Codec
begin

text \<open>
  The network down to the bytes. Here the streams between the broker and the apps hold bytes: a writer
  task appends what \<open>write_frame\<close> of \<open>crates/protocol/src/codec.rs\<close> writes, as far as the peer takes it,
  and a reader takes what \<open>read_frame_opt\<close> takes from the bytes that have arrived. So a frame may be
  refused for its size, a write may stop within a frame, and a reader may meet the end of the stream, or
  an error, at any byte.

  The theorems: the network of bytes refines the network of frames of \<open>Network\<close>, with the same broker
  and the same apps, so that what is shown there holds down to the bytes; and a frame over the size
  limit ends the sending side of its connection.
\<close>

section \<open>Definitions\<close>

subsection \<open>One frame on a stream\<close>

text \<open>
  How much of a frame the peer takes before the write fails, and with what error; all of it for \<open>None\<close>.
  The flush of a socket does nothing.
\<close>

type_synonym room = "(nat \<times> io_error) option"

definition stream_writer :: "room \<Rightarrow> bytes \<Rightarrow> writer" where
  "stream_writer room stream =
     (case room of
        None \<Rightarrow> fresh_writer\<lparr>wr_out := stream\<rparr>
      | Some (k, e) \<Rightarrow> fresh_writer\<lparr>wr_out := stream, wr_room := Some k, wr_err := e\<rparr>)"

definition put_frame :: "('a \<Rightarrow> string + bytes) \<Rightarrow> 'a \<Rightarrow> room \<Rightarrow> bytes \<Rightarrow> bool \<times> bytes" where
  "put_frame enc f room stream =
     (case write_frame enc f (stream_writer room stream) of (r, w) \<Rightarrow> (r = Inr (), wr_out w))"

text \<open>The reader sees the first \<open>n\<close> bytes of the stream, and then \<open>e\<close>.\<close>

definition take_frame :: "(bytes \<Rightarrow> string + 'a) \<Rightarrow> nat \<Rightarrow> io_error \<Rightarrow> bytes \<Rightarrow> 'a option bus_result \<times> bytes" where
  "take_frame dec n e stream =
     (case read_frame_opt dec \<lparr>rd_data = take n stream, rd_end = e\<rparr> of (r, rd) \<Rightarrow> (r, rd_data rd @ drop n stream))"

subsection \<open>The system\<close>

record wire =
  wi_bus :: bus
  wi_apps :: "conn_id \<Rightarrow> app option"
  wi_up :: "conn_id \<Rightarrow> bytes"
  wi_down :: "conn_id \<Rightarrow> bytes"

definition wire_init :: "broker_config \<Rightarrow> wire" where
  "wire_init config =
     \<lparr>wi_bus = bus_init config, wi_apps = (\<lambda>_. None), wi_up = (\<lambda>_. []), wi_down = (\<lambda>_. [])\<rparr>"

datatype wire_action =
    WireBus bus_action
  | WireAckWrite conn_id room
  | WireBusWrite conn_id room
  | WireBusRead conn_id nat io_error
  | WireEstablish conn_id client_config "(string, handler_id) dashmap" instant nat io_error
  | WireApp conn_id app_action
  | WireAppWrite conn_id room
  | WireAppRead conn_id nat io_error

fun wire_exec ::
  "(bus_frame \<Rightarrow> string + bytes) \<Rightarrow> (bytes \<Rightarrow> string + bus_frame) \<Rightarrow> (bytes \<Rightarrow> capability_response option) \<Rightarrow>
   (bus_frame \<Rightarrow> string) \<Rightarrow> wire_action \<Rightarrow> wire \<Rightarrow> wire option" where
  "wire_exec enc dec json debug (WireBus a) w =
     (if bus_on_wire a then None else map_option (\<lambda>b. w\<lparr>wi_bus := b\<rparr>) (bus_exec json a (wi_bus w)))"
| "wire_exec enc dec json debug (WireAckWrite c room) w =
     (case bus_conns (wi_bus w) c of
        None \<Rightarrow> None
      | Some k \<Rightarrow>
          (let (ok, stream) = put_frame enc (ack_frame (bus_broker (wi_bus w)) k) room (wi_down w c)
           in map_option (\<lambda>b. w\<lparr>wi_bus := b, wi_down := (wi_down w)(c := stream)\<rparr>)
                (bus_exec json (AckWrite c ok) (wi_bus w))))"
| "wire_exec enc dec json debug (WireBusWrite c room) w =
     (let (ok, stream) = put_frame enc (hd (cl_queue (bus_cells (wi_bus w) c))) room (wi_down w c)
      in map_option (\<lambda>b. w\<lparr>wi_bus := b, wi_down := (wi_down w)(c := stream)\<rparr>)
           (bus_exec json (WriterStep c ok) (wi_bus w)))"
| "wire_exec enc dec json debug (WireBusRead c n e) w =
     (let (r, stream) = take_frame dec n e (wi_up w c)
      in map_option (\<lambda>b. w\<lparr>wi_bus := b, wi_up := (wi_up w)(c := stream)\<rparr>)
           (bus_exec json (Inbound c r) (wi_bus w)))"
| "wire_exec enc dec json debug (WireEstablish c cfg handlers now n e) w =
     (case (wi_apps w c, bus_conns (wi_bus w) c) of
        (None, Some k) \<Rightarrow>
          (let (r, stream) = take_frame dec n e (wi_down w c)
           in case establish debug cfg (cn_hello k) handlers (Inr ()) r now of
                Inl e \<Rightarrow> None
              | Inr client \<Rightarrow>
                  Some (w\<lparr>wi_apps := (wi_apps w)(c \<mapsto> app_start client now), wi_down := (wi_down w)(c := stream)\<rparr>))
      | _ \<Rightarrow> None)"
| "wire_exec enc dec json debug (WireApp c a) w =
     (if app_on_wire a then None
      else case wi_apps w c of
             None \<Rightarrow> None
           | Some A \<Rightarrow> map_option (\<lambda>B. w\<lparr>wi_apps := (wi_apps w)(c \<mapsto> B)\<rparr>) (app_exec a A))"
| "wire_exec enc dec json debug (WireAppWrite c room) w =
     (case wi_apps w c of
        None \<Rightarrow> None
      | Some A \<Rightarrow>
          (let (ok, stream) = put_frame enc (hd (bk_queue (ap_client A))) room (wi_up w c)
           in map_option (\<lambda>B. w\<lparr>wi_apps := (wi_apps w)(c \<mapsto> B), wi_up := (wi_up w)(c := stream)\<rparr>)
                (app_exec (AppWriter ok) A)))"
| "wire_exec enc dec json debug (WireAppRead c n e) w =
     (case wi_apps w c of
        None \<Rightarrow> None
      | Some A \<Rightarrow>
          (let (r, stream) = take_frame dec n e (wi_down w c)
           in map_option (\<lambda>B. w\<lparr>wi_apps := (wi_apps w)(c \<mapsto> B), wi_down := (wi_down w)(c := stream)\<rparr>)
                (app_exec (AppInbound r) A)))"

subsection \<open>Frames in bytes\<close>

definition frames_bytes :: "('a \<Rightarrow> string + bytes) \<Rightarrow> 'a list \<Rightarrow> bytes" where
  "frames_bytes enc fs = concat (map (\<lambda>f. frame_bytes (projr (enc f))) fs)"

text \<open>The beginning of a frame whose write stopped, without its last byte at least.\<close>

definition cut_frame :: "bytes \<Rightarrow> bool" where
  "cut_frame rest \<longleftrightarrow> (\<exists>bs k. length bs \<le> unat MAX_FRAME_BYTES \<and> k < length (frame_bytes bs) \<and> rest = take k (frame_bytes bs))"

text \<open>
  A stream of bytes carries frames: it is their bytes, followed by nothing unless its writer is \<open>closed\<close>,
  and then by a cut frame at most. After its reader has \<open>left\<close> it carries nothing any more.
\<close>

definition stream_carries :: "('a \<Rightarrow> string + bytes) \<Rightarrow> bool \<Rightarrow> bool \<Rightarrow> bytes \<Rightarrow> 'a list \<Rightarrow> bool" where
  "stream_carries enc closed left stream fs \<longleftrightarrow>
     left \<or> (\<exists>rest. (\<forall>f \<in> set fs. fits_frame enc f) \<and> stream = frames_bytes enc fs @ rest \<and>
               (rest = [] \<or> closed \<and> cut_frame rest))"

definition up_closed :: "(conn_id \<Rightarrow> app option) \<Rightarrow> conn_id \<Rightarrow> bool" where
  "up_closed apps c \<longleftrightarrow> (\<exists>A. apps c = Some A \<and> \<not> bk_open (ap_client A))"

definition up_left :: "bus \<Rightarrow> conn_id \<Rightarrow> bool" where
  "up_left b c \<longleftrightarrow> (\<exists>k. bus_conns b c = Some k \<and> cn_phase k = Ended)"

definition down_closed :: "bus \<Rightarrow> conn_id \<Rightarrow> bool" where
  "down_closed b c \<longleftrightarrow> acked b c \<and> \<not> cl_open (bus_cells b c)"

definition down_left :: "(conn_id \<Rightarrow> app option) \<Rightarrow> conn_id \<Rightarrow> bool" where
  "down_left apps c \<longleftrightarrow> (\<exists>A. apps c = Some A \<and> \<not> ap_reading A)"

definition conns_fresh :: "bus \<Rightarrow> bool" where
  "conns_fresh b \<longleftrightarrow> (\<forall>c \<ge> bus_n_conns b. bus_conns b c = None)"

definition wire_rel :: "(bus_frame \<Rightarrow> string + bytes) \<Rightarrow> wire \<Rightarrow> net \<Rightarrow> bool" where
  "wire_rel enc w s \<longleftrightarrow>
     nt_bus s = wi_bus w \<and> nt_apps s = wi_apps w \<and> conns_fresh (wi_bus w) \<and>
     (\<forall>c. stream_carries enc (up_closed (wi_apps w) c) (up_left (wi_bus w) c) (wi_up w c) (nt_up s c)) \<and>
     (\<forall>c. stream_carries enc (down_closed (wi_bus w) c) (down_left (wi_apps w) c) (wi_down w c) (nt_down s c))"

text \<open>The same action on bytes and on frames: a read that gives no frame is the loss of the connection.\<close>

fun same_action :: "wire_action \<Rightarrow> net_action \<Rightarrow> bool" where
  "same_action (WireBus a) x \<longleftrightarrow> x = NetBus a"
| "same_action (WireAckWrite c room) x \<longleftrightarrow> (\<exists>ok. x = NetAckWrite c ok)"
| "same_action (WireBusWrite c room) x \<longleftrightarrow> (\<exists>ok. x = NetBusWrite c ok)"
| "same_action (WireBusRead c n e) x \<longleftrightarrow> x = NetBusRead c \<or> (\<exists>err. x = NetBusLost c err)"
| "same_action (WireEstablish c cfg handlers now n e) x \<longleftrightarrow> x = NetEstablish c cfg handlers now"
| "same_action (WireApp c a) x \<longleftrightarrow> x = NetApp c a"
| "same_action (WireAppWrite c room) x \<longleftrightarrow> (\<exists>ok. x = NetAppWrite c ok)"
| "same_action (WireAppRead c n e) x \<longleftrightarrow> x = NetAppRead c \<or> (\<exists>err. x = NetAppLost c err)"

section \<open>Lemmas\<close>

subsection \<open>One frame on a stream\<close>

lemma frames_bytes_simps [simp]:
  "frames_bytes enc [] = []" "frames_bytes enc (f # fs) = frame_bytes (projr (enc f)) @ frames_bytes enc fs"
  "frames_bytes enc (fs @ gs) = frames_bytes enc fs @ frames_bytes enc gs"
  by (simp_all add: frames_bytes_def)

lemma length_frame_bytes [simp]: "length (frame_bytes bs) = 4 + length bs"
  by (simp add: frame_bytes_def)

text \<open>A write appends the whole frame, or the beginning of it.\<close>

lemma put_frame_cases:
  assumes "put_frame enc f room stream = (ok, stream')"
  shows "ok \<and> fits_frame enc f \<and> stream' = stream @ frame_bytes (projr (enc f)) \<or>
    \<not> ok \<and> (stream' = stream \<or> (\<exists>rest. cut_frame rest \<and> stream' = stream @ rest))"
proof (cases "\<exists>bs. enc f = Inr bs \<and> length bs \<le> unat MAX_FRAME_BYTES")
  case False
  then have "\<not> ok \<and> stream' = stream"
    using assms by (auto simp: put_frame_def stream_writer_def write_frame_def fresh_writer_def split: sum.splits option.splits)
  then show ?thesis by simp
next
  case True
  then obtain bs where bs: "enc f = Inr bs" "length bs \<le> unat MAX_FRAME_BYTES" by blast
  have all: ?thesis if "put_frame enc f room stream = (True, stream @ frame_bytes bs)"
    using that assms bs by (simp add: fits_frame_def)
  show ?thesis
  proof (cases room)
    case None
    with bs show ?thesis
      by (intro all) (simp add: put_frame_def stream_writer_def write_frame_ok fresh_writer_def)
  next
    case (Some x)
    then obtain k e where room: "room = Some (k, e)" by (cases x) auto
    show ?thesis
    proof (cases "length (frame_bytes bs) \<le> k")
      case True
      with bs room show ?thesis
        by (intro all) (simp add: put_frame_def stream_writer_def write_frame_def write_all_def flush_def fresh_writer_def frame_bytes_def)
    next
      case False
      with bs room have "put_frame enc f room stream = (False, stream @ take k (frame_bytes bs))"
        by (auto simp: put_frame_def stream_writer_def write_frame_def write_all_def flush_def fresh_writer_def frame_bytes_def)
      moreover have "cut_frame (take k (frame_bytes bs))"
        unfolding cut_frame_def using bs(2) False by (intro exI [of _ bs] exI [of _ k]) simp
      ultimately show ?thesis using assms by auto
    qed
  qed
qed

lemma short_read:
  assumes "length bs \<le> unat MAX_FRAME_BYTES" "k < length (frame_bytes bs)"
  shows "\<exists>err. fst (read_frame_opt dec \<lparr>rd_data = take k (frame_bytes bs @ later), rd_end = e\<rparr>) = lost err"
proof (cases "4 \<le> k")
  case True
  with assms show ?thesis
    by (subst read_frame_opt_cut [of k bs _ later]) (auto simp: lost_def intro!: exI [of _ "Some _"])
next
  case False
  then show ?thesis
    by (auto simp: read_frame_opt_def read_exact_def lost_def
        intro: exI [of _ None] exI [of _ "Some _"])
qed

text \<open>A read takes the first frame that the stream carries, or finds the stream at its end.\<close>

lemma take_frame_cases:
  assumes "serde_roundtrip enc dec" "stream_carries enc closed False stream fs" "take_frame dec n e stream = (r, stream')"
  shows "(\<exists>f gs. fs = f # gs \<and> r = Inr (Some f) \<and> stream_carries enc closed left stream' gs) \<or> (\<exists>err. r = lost err)"
proof -
  from assms(2) obtain rest where s: "\<forall>f \<in> set fs. fits_frame enc f" "stream = frames_bytes enc fs @ rest"
    "rest = [] \<or> closed \<and> cut_frame rest" by (auto simp: stream_carries_def)
  have r: "r = fst (read_frame_opt dec \<lparr>rd_data = take n stream, rd_end = e\<rparr>)"
    using assms(3) by (auto simp: take_frame_def split: prod.splits)
  have short: ?thesis if "take n stream = take k (frame_bytes bs @ later)" "length bs \<le> unat MAX_FRAME_BYTES"
    "k < length (frame_bytes bs)" for k bs later
    using short_read [OF that(2,3), of dec later e] that(1) r by simp
  show ?thesis
  proof (cases fs)
    case Nil
    show ?thesis
    proof (cases "rest = []")
      case True
      with Nil s show ?thesis by (intro short [of 0 "[]" "[]"]) simp_all
    next
      case False
      with s(3) obtain bs k where "length bs \<le> unat MAX_FRAME_BYTES" "k < length (frame_bytes bs)" "rest = take k (frame_bytes bs)"
        by (auto simp: cut_frame_def)
      with Nil s(2) show ?thesis by (intro short [of "min n k" bs "[]"]) simp_all
    qed
  next
    case (Cons f gs)
    with s(1) obtain bs where bs: "enc f = Inr bs" "length bs \<le> unat MAX_FRAME_BYTES" by (auto simp: fits_frame_def)
    with assms(1) have dec: "dec bs = Inr f" by (auto simp: serde_roundtrip_def)
    show ?thesis
    proof (cases "length (frame_bytes bs) \<le> n")
      case True
      define tl where "tl = frames_bytes enc gs @ rest"
      have n: "take n stream = frame_bytes bs @ take (n - length (frame_bytes bs)) tl"
        "drop n stream = drop (n - length (frame_bytes bs)) tl"
        using Cons s(2) bs(1) True by (simp_all add: tl_def)
      have "read_frame_opt dec \<lparr>rd_data = take n stream, rd_end = e\<rparr> =
          (Inr (Some f), \<lparr>rd_data = take (n - length (frame_bytes bs)) tl, rd_end = e\<rparr>)"
        using read_frame_opt_ok [of dec bs f "\<lparr>rd_data = take n stream, rd_end = e\<rparr>", OF dec] bs(2) n(1) by simp
      then have "stream' = tl" "r = Inr (Some f)"
        using assms(3) n(2) by (simp_all add: take_frame_def)
      then have "stream' = frames_bytes enc gs @ rest" "r = Inr (Some f)" by (simp_all add: tl_def)
      with Cons s show ?thesis by (auto simp: stream_carries_def)
    next
      case False
      with Cons s(2) bs show ?thesis by (intro short [of n bs "frames_bytes enc gs @ rest"]) simp_all
    qed
  qed
qed

lemma carries_put:
  assumes "stream_carries enc closed left stream fs" "\<not> closed" "put_frame enc f room stream = (ok, stream')" "\<not> ok \<Longrightarrow> closed'"
  shows "stream_carries enc closed' left stream' (if ok then fs @ [f] else fs)"
  using put_frame_cases [OF assms(3)] assms(1,2,4) by (auto simp: stream_carries_def)

lemma carries_mono:
  "stream_carries enc closed left stream fs \<Longrightarrow> (closed \<Longrightarrow> closed') \<Longrightarrow> (left \<Longrightarrow> left') \<Longrightarrow> stream_carries enc closed' left' stream fs"
  by (auto simp: stream_carries_def)


subsection \<open>What has closed stays closed\<close>

lemma serve_handshake_phase: "serve_handshake c inbound b = (b', HsAccepted k) \<Longrightarrow> cn_phase k = AwaitAck"
  using serve_handshake_accepted by blast

text \<open>An action leaves the connections alone, adds one, or changes the phase of one that has not ended.\<close>

lemma bus_conns_cases:
  assumes "bus_exec json a s = Some t"
  shows "bus_conns t = bus_conns s \<and> bus_n_conns t = bus_n_conns s \<or>
    (\<exists>k. bus_conns t = (bus_conns s)(bus_n_conns s \<mapsto> k) \<and> bus_n_conns t = Suc (bus_n_conns s)) \<or>
    (\<exists>c k ph. bus_conns s c = Some k \<and> cn_phase k \<noteq> Ended \<and> bus_conns t = (bus_conns s)(c \<mapsto> k\<lparr>cn_phase := ph\<rparr>) \<and>
       bus_n_conns t = bus_n_conns s)"
proof (cases a)
  case (Inbound d inbound)
  with assms obtain k where k: "t = session_inbound d k inbound s" "bus_conns s d = Some k" "cn_phase k = Serving"
    by (auto split: option.splits if_splits)
  have end': "\<exists>c l ph. bus_conns s c = Some l \<and> cn_phase l \<noteq> Ended \<and>
      bus_conns (session_end d k s) = (bus_conns s)(c \<mapsto> l\<lparr>cn_phase := ph\<rparr>) \<and> bus_n_conns (session_end d k s) = bus_n_conns s"
    using k(2,3) by (intro exI [of _ d] exI [of _ k] exI [of _ Ended]) (simp add: session_end_def set_phase_def Let_def)
  with k(1) show ?thesis
    by (auto simp: session_inbound_def spawn_task_def bus_views split: sum.splits option.splits bus_frame.splits)
next
  case (AckWrite d ok)
  with assms obtain k where k: "t = (if ok then ack_written d k s else ack_failed d k s)" "bus_conns s d = Some k" "cn_phase k = AwaitAck"
    by (auto split: option.splits if_splits)
  then show ?thesis
    by (intro disjI2, intro exI [of _ d] exI [of _ k] exI [of _ "if ok then Serving else Ended"])
       (simp add: ack_written_def ack_failed_def spawn_task_def set_phase_def Let_def)
qed (use assms in \<open>auto simp: accept_def spawn_task_def bus_views Let_def simp del: start_task.simps
      split: option.splits task.splits call_wait.splits if_splits prod.splits handshake.splits\<close>)

lemma conns_fresh_exec: "bus_exec json a s = Some t \<Longrightarrow> conns_fresh s \<Longrightarrow> conns_fresh t"
  using bus_conns_cases [of json a s t] by (auto simp: conns_fresh_def split: if_splits)

lemma up_left_exec: "bus_exec json a s = Some t \<Longrightarrow> conns_fresh s \<Longrightarrow> up_left s c \<Longrightarrow> up_left t c"
  using bus_conns_cases [of json a s t] by (auto simp: conns_fresh_def up_left_def split: if_splits)

lemma down_closed_exec:
  assumes "bus_exec json a s = Some t" "conns_fresh s" "down_closed s c"
  shows "down_closed t c"
proof -
  have "acked t c" using conns_step [OF assms(1)] assms(2,3) by (simp add: conns_fresh_def down_closed_def)
  moreover have "a \<noteq> WriterStep c ok" for ok using assms(1,3) by (auto simp: down_closed_def split: option.splits if_splits)
  then have "cl_open (bus_cells t c) \<Longrightarrow> cl_open (bus_cells s c)"
    using queue_kept [OF assms(1)] by (auto simp: kept_at_def)
  ultimately show ?thesis using assms(3) by (auto simp: down_closed_def)
qed

lemma app_closed_exec:
  assumes "app_exec a A = Some B"
  shows "\<not> bk_open (ap_client A) \<Longrightarrow> \<not> bk_open (ap_client B)" "\<not> ap_reading A \<Longrightarrow> \<not> ap_reading B"
  using assms by (induction a A rule: app_exec.induct)
    (auto simp: client_invoke_def client_publish_def client_subscribe_def client_shutdown_def connection_inbound_def
      connection_end_def dispatch_start_def reply_to_def idle_poll_def Let_def case_prod_unfold
      split: if_splits option.splits sum.splits dispatch.splits app_call.splits run_wait.splits)

lemma wire_relD:
  assumes "wire_rel enc w s"
  shows "nt_bus s = wi_bus w" "nt_apps s = wi_apps w" "conns_fresh (wi_bus w)"
    "stream_carries enc (up_closed (wi_apps w) c) (up_left (wi_bus w) c) (wi_up w c) (nt_up s c)"
    "stream_carries enc (down_closed (wi_bus w) c) (down_left (wi_apps w) c) (wi_down w c) (nt_down s c)"
  using assms by (simp_all add: wire_rel_def)

text \<open>The broker and the apps before and after an action.\<close>

definition bus_moved :: "bus \<Rightarrow> bus \<Rightarrow> bool" where
  "bus_moved b b' \<longleftrightarrow> b' = b \<or> (\<exists>json a. bus_exec json a b = Some b')"

definition apps_moved :: "(conn_id \<Rightarrow> app option) \<Rightarrow> (conn_id \<Rightarrow> app option) \<Rightarrow> bool" where
  "apps_moved apps apps' \<longleftrightarrow> (\<forall>c A. apps c = Some A \<longrightarrow> apps' c = Some A \<or> (\<exists>a B. app_exec a A = Some B \<and> apps' c = Some B))"

lemma bus_moved_simps [simp]: "bus_moved b b" "bus_exec json a b = Some b' \<Longrightarrow> bus_moved b b'"
  unfolding bus_moved_def by blast+

lemma apps_moved_simps [simp]:
  "apps_moved apps apps" "apps c = None \<Longrightarrow> apps_moved apps (apps(c \<mapsto> B))"
  "apps c = Some A \<Longrightarrow> app_exec a A = Some B \<Longrightarrow> apps_moved apps (apps(c \<mapsto> B))"
  by (auto simp: apps_moved_def simp del: app_exec.simps)

lemma carries_keep:
  assumes "wire_rel enc w s"
    and "bus_moved (wi_bus w) (wi_bus v)" "apps_moved (wi_apps w) (wi_apps v)"
  shows "stream_carries enc (up_closed (wi_apps v) d) (up_left (wi_bus v) d) (wi_up w d) (nt_up s d)"
    "stream_carries enc (down_closed (wi_bus v) d) (down_left (wi_apps v) d) (wi_down w d) (nt_down s d)"
proof -
  note fresh = wire_relD(3) [OF assms(1)]
  have app: "\<exists>B. wi_apps v d = Some B \<and> (\<not> bk_open (ap_client A) \<longrightarrow> \<not> bk_open (ap_client B)) \<and> (\<not> ap_reading A \<longrightarrow> \<not> ap_reading B)"
    if "wi_apps w d = Some A" for A
    using assms(3) that app_closed_exec unfolding apps_moved_def by blast
  have "up_closed (wi_apps w) d \<Longrightarrow> up_closed (wi_apps v) d" "down_left (wi_apps w) d \<Longrightarrow> down_left (wi_apps v) d"
    using app by (fastforce simp: up_closed_def down_left_def)+
  moreover have "up_left (wi_bus w) d \<Longrightarrow> up_left (wi_bus v) d" "down_closed (wi_bus w) d \<Longrightarrow> down_closed (wi_bus v) d"
    using assms(2) up_left_exec [OF _ fresh] down_closed_exec [OF _ fresh] unfolding bus_moved_def by auto
  ultimately show "stream_carries enc (up_closed (wi_apps v) d) (up_left (wi_bus v) d) (wi_up w d) (nt_up s d)"
    "stream_carries enc (down_closed (wi_bus v) d) (down_left (wi_apps v) d) (wi_down w d) (nt_down s d)"
    using carries_mono [OF wire_relD(4) [OF assms(1)]] carries_mono [OF wire_relD(5) [OF assms(1)]] by blast+
qed

text \<open>To show that the relation is kept, only the streams that an action touches need a look.\<close>

lemma wire_relI:
  assumes "wire_rel enc w s" "nt_bus t = wi_bus v" "nt_apps t = wi_apps v"
    and bus: "bus_moved (wi_bus w) (wi_bus v)" and apps: "apps_moved (wi_apps w) (wi_apps v)"
    and up: "\<And>d. wi_up v d = wi_up w d \<and> nt_up t d = nt_up s d \<or>
      stream_carries enc (up_closed (wi_apps v) d) (up_left (wi_bus v) d) (wi_up v d) (nt_up t d)"
    and down: "\<And>d. wi_down v d = wi_down w d \<and> nt_down t d = nt_down s d \<or>
      stream_carries enc (down_closed (wi_bus v) d) (down_left (wi_apps v) d) (wi_down v d) (nt_down t d)"
  shows "wire_rel enc v t"
proof -
  note keep = carries_keep [OF assms(1) bus apps]
  have "conns_fresh (wi_bus v)" using wire_relD(3) [OF assms(1)] bus conns_fresh_exec unfolding bus_moved_def by auto
  moreover have "stream_carries enc (up_closed (wi_apps v) d) (up_left (wi_bus v) d) (wi_up v d) (nt_up t d)" for d
    using up [of d] keep(1) [of d] by auto
  moreover have "stream_carries enc (down_closed (wi_bus v) d) (down_left (wi_apps v) d) (wi_down v d) (nt_down t d)" for d
    using down [of d] keep(2) [of d] by auto
  ultimately show ?thesis using assms(2,3) by (simp add: wire_rel_def)
qed

subsection \<open>Writes and reads\<close>

lemma down_put:
  assumes "wire_rel enc w s" "put_frame enc f room (wi_down w c) = (ok, stream)"
    and "bus_exec json a (wi_bus w) = Some b" "\<not> down_closed (wi_bus w) c" "\<not> ok \<Longrightarrow> down_closed b c"
  shows "wire_rel enc (w\<lparr>wi_bus := b, wi_down := (wi_down w)(c := stream)\<rparr>) (s\<lparr>nt_bus := b, nt_down := push c ok f (nt_down s)\<rparr>)"
proof (rule wire_relI [OF assms(1)])
  have "stream_carries enc (down_closed b c) (down_left (wi_apps w) c) stream (if ok then nt_down s c @ [f] else nt_down s c)"
    using wire_relD(5) [OF assms(1)] assms(4,2,5) by (rule carries_put)
  then show "wi_down (w\<lparr>wi_bus := b, wi_down := (wi_down w)(c := stream)\<rparr>) d = wi_down w d \<and>
      nt_down (s\<lparr>nt_bus := b, nt_down := push c ok f (nt_down s)\<rparr>) d = nt_down s d \<or>
      stream_carries enc (down_closed (wi_bus (w\<lparr>wi_bus := b, wi_down := (wi_down w)(c := stream)\<rparr>)) d)
        (down_left (wi_apps (w\<lparr>wi_bus := b, wi_down := (wi_down w)(c := stream)\<rparr>)) d)
        (wi_down (w\<lparr>wi_bus := b, wi_down := (wi_down w)(c := stream)\<rparr>) d)
        (nt_down (s\<lparr>nt_bus := b, nt_down := push c ok f (nt_down s)\<rparr>) d)" for d
    by (cases "d = c") (simp_all add: push_def split: if_splits)
qed (use assms(3) wire_relD(2) [OF assms(1)] in \<open>auto simp del: bus_exec.simps app_exec.simps\<close>)

lemma up_put:
  assumes "wire_rel enc w s" "put_frame enc f room (wi_up w c) = (ok, stream)"
    and "wi_apps w c = Some A" "app_exec a A = Some B" "bk_open (ap_client A)" "\<not> ok \<Longrightarrow> \<not> bk_open (ap_client B)"
  shows "wire_rel enc (w\<lparr>wi_apps := (wi_apps w)(c \<mapsto> B), wi_up := (wi_up w)(c := stream)\<rparr>)
    (s\<lparr>nt_apps := (wi_apps w)(c \<mapsto> B), nt_up := push c ok f (nt_up s)\<rparr>)"
proof (rule wire_relI [OF assms(1)])
  have "stream_carries enc (up_closed ((wi_apps w)(c \<mapsto> B)) c) (up_left (wi_bus w) c) stream (if ok then nt_up s c @ [f] else nt_up s c)"
    using wire_relD(4) [OF assms(1)] _ assms(2) by (rule carries_put) (use assms(3,5,6) in \<open>simp_all add: up_closed_def\<close>)
  then show "wi_up (w\<lparr>wi_apps := (wi_apps w)(c \<mapsto> B), wi_up := (wi_up w)(c := stream)\<rparr>) d = wi_up w d \<and>
      nt_up (s\<lparr>nt_apps := (wi_apps w)(c \<mapsto> B), nt_up := push c ok f (nt_up s)\<rparr>) d = nt_up s d \<or>
      stream_carries enc (up_closed (wi_apps (w\<lparr>wi_apps := (wi_apps w)(c \<mapsto> B), wi_up := (wi_up w)(c := stream)\<rparr>)) d)
        (up_left (wi_bus (w\<lparr>wi_apps := (wi_apps w)(c \<mapsto> B), wi_up := (wi_up w)(c := stream)\<rparr>)) d)
        (wi_up (w\<lparr>wi_apps := (wi_apps w)(c \<mapsto> B), wi_up := (wi_up w)(c := stream)\<rparr>) d)
        (nt_up (s\<lparr>nt_apps := (wi_apps w)(c \<mapsto> B), nt_up := push c ok f (nt_up s)\<rparr>) d)" for d
    by (cases "d = c") (simp_all add: push_def split: if_splits)
qed (use assms(3,4) wire_relD(1) [OF assms(1)] in \<open>auto simp del: bus_exec.simps app_exec.simps\<close>)

lemma inbound_lost: "bus_exec json (Inbound c (lost e)) s = Some t \<Longrightarrow> up_left t c"
  by (auto simp: lost_def session_inbound_def session_end_def set_phase_def up_left_def Let_def split: option.splits if_splits)

lemma app_inbound_lost: "app_exec (AppInbound (lost e)) A = Some B \<Longrightarrow> \<not> ap_reading B"
  by (auto simp: lost_def connection_inbound_def connection_end_def Let_def split: option.splits if_splits)

lemma up_take:
  assumes "serde_roundtrip enc dec" "wire_rel enc w s" "take_frame dec n e (wi_up w c) = (r, stream)"
    and exec: "bus_exec json (Inbound c r) (wi_bus w) = Some b"
  shows "\<exists>x t. net_exec json debug x s = Some t \<and> same_action (WireBusRead c n e) x \<and>
    wire_rel enc (w\<lparr>wi_bus := b, wi_up := (wi_up w)(c := stream)\<rparr>) t"
proof -
  let ?v = "w\<lparr>wi_bus := b, wi_up := (wi_up w)(c := stream)\<rparr>"
  have "\<not> up_left (wi_bus w) c" using exec by (auto simp: up_left_def split: option.splits if_splits)
  then have car: "stream_carries enc (up_closed (wi_apps w) c) False (wi_up w c) (nt_up s c)"
    using wire_relD(4) [OF assms(2), of c] by simp
  from take_frame_cases [OF assms(1) car assms(3), of "up_left b c"] show ?thesis
  proof (elim disjE exE conjE)
    fix f gs assume f: "nt_up s c = f # gs" "r = Inr (Some f)" "stream_carries enc (up_closed (wi_apps w) c) (up_left b c) stream gs"
    have "wire_rel enc ?v (s\<lparr>nt_bus := b, nt_up := (nt_up s)(c := gs)\<rparr>)"
      by (rule wire_relI [OF assms(2)]) (use f(3) exec wire_relD(2) [OF assms(2)] in \<open>auto simp del: bus_exec.simps app_exec.simps\<close>)
    moreover have "net_exec json debug (NetBusRead c) s = Some (s\<lparr>nt_bus := b, nt_up := (nt_up s)(c := gs)\<rparr>)"
      using f(1,2) exec wire_relD(1) [OF assms(2)] by (simp del: bus_exec.simps)
    ultimately show ?thesis by (intro exI conjI) (assumption, simp_all)
  next
    fix err assume r: "r = lost err"
    with inbound_lost exec have "up_left b c" by blast
    then have "wire_rel enc ?v (s\<lparr>nt_bus := b\<rparr>)"
      by (intro wire_relI [OF assms(2)]) (use exec wire_relD(2) [OF assms(2)] in \<open>auto simp: stream_carries_def simp del: bus_exec.simps app_exec.simps\<close>)
    moreover have "net_exec json debug (NetBusLost c err) s = Some (s\<lparr>nt_bus := b\<rparr>)"
      using r exec wire_relD(1) [OF assms(2)] by (simp del: bus_exec.simps)
    ultimately show ?thesis by (intro exI conjI) (assumption, simp_all)
  qed
qed

lemma down_take:
  assumes "serde_roundtrip enc dec" "wire_rel enc w s" "take_frame dec n e (wi_down w c) = (r, stream)"
    and app: "wi_apps w c = Some A" and exec: "app_exec (AppInbound r) A = Some B"
  shows "\<exists>x t. net_exec json debug x s = Some t \<and> same_action (WireAppRead c n e) x \<and>
    wire_rel enc (w\<lparr>wi_apps := (wi_apps w)(c \<mapsto> B), wi_down := (wi_down w)(c := stream)\<rparr>) t"
proof -
  let ?apps = "(wi_apps w)(c \<mapsto> B)"
  let ?v = "w\<lparr>wi_apps := ?apps, wi_down := (wi_down w)(c := stream)\<rparr>"
  have "\<not> down_left (wi_apps w) c" using app exec by (auto simp: down_left_def split: if_splits)
  then have car: "stream_carries enc (down_closed (wi_bus w) c) False (wi_down w c) (nt_down s c)"
    using wire_relD(5) [OF assms(2), of c] by simp
  from take_frame_cases [OF assms(1) car assms(3), of "down_left ?apps c"] show ?thesis
  proof (elim disjE exE conjE)
    fix f gs assume f: "nt_down s c = f # gs" "r = Inr (Some f)"
      "stream_carries enc (down_closed (wi_bus w) c) (down_left ?apps c) stream gs"
    have "wire_rel enc ?v (s\<lparr>nt_apps := ?apps, nt_down := (nt_down s)(c := gs)\<rparr>)"
      by (rule wire_relI [OF assms(2)]) (use f(3) app exec wire_relD(1) [OF assms(2)] in \<open>auto simp del: bus_exec.simps app_exec.simps\<close>)
    moreover have "net_exec json debug (NetAppRead c) s = Some (s\<lparr>nt_apps := ?apps, nt_down := (nt_down s)(c := gs)\<rparr>)"
      using f(1,2) app exec wire_relD(2) [OF assms(2)] by (simp del: app_exec.simps)
    ultimately show ?thesis by (intro exI conjI) (assumption, simp_all)
  next
    fix err assume r: "r = lost err"
    have "\<not> ap_reading B" using app_inbound_lost exec unfolding r by blast
    then have "down_left ?apps c" by (simp add: down_left_def)
    then have "wire_rel enc ?v (s\<lparr>nt_apps := ?apps\<rparr>)"
      by (intro wire_relI [OF assms(2)]) (use app exec wire_relD(1) [OF assms(2)] in \<open>auto simp: stream_carries_def simp del: bus_exec.simps app_exec.simps\<close>)
    moreover have "net_exec json debug (NetAppLost c err) s = Some (s\<lparr>nt_apps := ?apps\<rparr>)"
      using r app exec wire_relD(2) [OF assms(2)] by (simp del: app_exec.simps)
    ultimately show ?thesis by (intro exI conjI) (assumption, simp_all)
  qed
qed

lemma establish_reply: "establish debug cfg hello handlers (Inr ()) r now = Inr client \<Longrightarrow> r \<noteq> lost err"
  by (auto simp: establish_def hello_reply_def lost_def split: option.splits sum.splits)

lemma establish_take:
  assumes "serde_roundtrip enc dec" "wire_rel enc w s" "take_frame dec n e (wi_down w c) = (r, stream)"
    and no: "wi_apps w c = None" "bus_conns (wi_bus w) c = Some k"
    and client: "establish debug cfg (cn_hello k) handlers (Inr ()) r now = Inr client"
  shows "\<exists>t. net_exec json debug (NetEstablish c cfg handlers now) s = Some t \<and>
    wire_rel enc (w\<lparr>wi_apps := (wi_apps w)(c \<mapsto> app_start client now), wi_down := (wi_down w)(c := stream)\<rparr>) t"
proof -
  let ?apps = "(wi_apps w)(c \<mapsto> app_start client now)"
  have car: "stream_carries enc (down_closed (wi_bus w) c) False (wi_down w c) (nt_down s c)"
    using wire_relD(5) [OF assms(2), of c] no(1) by (simp add: down_left_def)
  from take_frame_cases [OF assms(1) car assms(3), of "down_left ?apps c"] establish_reply [OF client]
  obtain f gs where f: "nt_down s c = f # gs" "r = Inr (Some f)"
    "stream_carries enc (down_closed (wi_bus w) c) (down_left ?apps c) stream gs" by blast
  have "wire_rel enc (w\<lparr>wi_apps := ?apps, wi_down := (wi_down w)(c := stream)\<rparr>) (s\<lparr>nt_apps := ?apps, nt_down := (nt_down s)(c := gs)\<rparr>)"
    by (rule wire_relI [OF assms(2)]) (use f(3) no(1) wire_relD(1) [OF assms(2)] in \<open>auto simp del: bus_exec.simps app_exec.simps\<close>)
  moreover have "net_exec json debug (NetEstablish c cfg handlers now) s = Some (s\<lparr>nt_apps := ?apps, nt_down := (nt_down s)(c := gs)\<rparr>)"
    using f(1,2) no client wire_relD(1,2) [OF assms(2)] by simp
  ultimately show ?thesis by blast
qed

text \<open>Every action on bytes is one on frames, and keeps the relation.\<close>

lemma wire_step:
  assumes "serde_roundtrip enc dec" "wire_rel enc w s" "wire_exec enc dec json debug a w = Some v"
  shows "\<exists>x t. net_exec json debug x s = Some t \<and> same_action a x \<and> wire_rel enc v t"
proof (cases a)
  case (WireBus b)
  with assms(3) obtain u where u: "\<not> bus_on_wire b" "bus_exec json b (wi_bus w) = Some u" "v = w\<lparr>wi_bus := u\<rparr>"
    by (auto split: if_splits)
  have "wire_rel enc v (s\<lparr>nt_bus := u\<rparr>)"
    by (rule wire_relI [OF assms(2)]) (use u wire_relD(2) [OF assms(2)] in \<open>auto simp del: bus_exec.simps app_exec.simps\<close>)
  with u WireBus wire_relD(1) [OF assms(2)] show ?thesis by (intro exI [of _ "NetBus b"]) simp
next
  case (WireApp c b)
  with assms(3) obtain A B where u: "\<not> app_on_wire b" "wi_apps w c = Some A" "app_exec b A = Some B"
    "v = w\<lparr>wi_apps := (wi_apps w)(c \<mapsto> B)\<rparr>" by (auto split: if_splits option.splits)
  have "wire_rel enc v (s\<lparr>nt_apps := (wi_apps w)(c \<mapsto> B)\<rparr>)"
    by (rule wire_relI [OF assms(2)]) (use u wire_relD(1) [OF assms(2)] in \<open>auto simp del: bus_exec.simps app_exec.simps\<close>)
  with u WireApp wire_relD(2) [OF assms(2)] show ?thesis by (intro exI [of _ "NetApp c b"]) simp
next
  case (WireAckWrite c room)
  with assms(3) obtain k ok stream b where u: "bus_conns (wi_bus w) c = Some k"
    "put_frame enc (ack_frame (bus_broker (wi_bus w)) k) room (wi_down w c) = (ok, stream)"
    "bus_exec json (AckWrite c ok) (wi_bus w) = Some b" "v = w\<lparr>wi_bus := b, wi_down := (wi_down w)(c := stream)\<rparr>"
    by (auto simp: Let_def simp del: bus_exec.simps split: option.splits prod.splits)
  then have "cn_phase k = AwaitAck" by (auto split: if_splits)
  with u(1) have "\<not> down_closed (wi_bus w) c" by (simp add: down_closed_def acked_def)
  moreover have "down_closed b c" if "\<not> ok"
    using u(1,3) that by (auto simp: down_closed_def acked_def ack_failed_def set_phase_def close_channel_def split: if_splits)
  ultimately have "wire_rel enc v (s\<lparr>nt_bus := b, nt_down := push c ok (ack_frame (bus_broker (wi_bus w)) k) (nt_down s)\<rparr>)"
    unfolding u(4) by (intro down_put [OF assms(2) u(2,3)])
  with u(1,3) WireAckWrite wire_relD(1) [OF assms(2)] show ?thesis
    by (intro exI [of _ "NetAckWrite c ok"]) (simp del: bus_exec.simps)
next
  case (WireBusWrite c room)
  with assms(3) obtain ok stream b where u:
    "put_frame enc (hd (cl_queue (bus_cells (wi_bus w) c))) room (wi_down w c) = (ok, stream)"
    "bus_exec json (WriterStep c ok) (wi_bus w) = Some b" "v = w\<lparr>wi_bus := b, wi_down := (wi_down w)(c := stream)\<rparr>"
    by (auto simp: Let_def simp del: bus_exec.simps split: option.splits prod.splits)
  then have "\<not> down_closed (wi_bus w) c" by (auto simp: down_closed_def split: option.splits if_splits)
  moreover have "down_closed b c" if "\<not> ok"
    using u(2) that by (auto simp: down_closed_def acked_def close_channel_def split: option.splits if_splits)
  ultimately have "wire_rel enc v (s\<lparr>nt_bus := b, nt_down := push c ok (hd (cl_queue (bus_cells (wi_bus w) c))) (nt_down s)\<rparr>)"
    unfolding u(3) by (intro down_put [OF assms(2) u(1,2)])
  with u(2) WireBusWrite wire_relD(1) [OF assms(2)] show ?thesis
    by (intro exI [of _ "NetBusWrite c ok"]) (simp del: bus_exec.simps)
next
  case (WireBusRead c n e)
  with assms(3) obtain r stream b where "take_frame dec n e (wi_up w c) = (r, stream)"
    "bus_exec json (Inbound c r) (wi_bus w) = Some b" "v = w\<lparr>wi_bus := b, wi_up := (wi_up w)(c := stream)\<rparr>"
    by (auto simp: Let_def simp del: bus_exec.simps split: prod.splits)
  with up_take [OF assms(1,2)] WireBusRead show ?thesis by blast
next
  case (WireEstablish c cfg handlers now n e)
  with assms(3) obtain k r stream client where "take_frame dec n e (wi_down w c) = (r, stream)" "wi_apps w c = None"
    "bus_conns (wi_bus w) c = Some k" "establish debug cfg (cn_hello k) handlers (Inr ()) r now = Inr client"
    "v = w\<lparr>wi_apps := (wi_apps w)(c \<mapsto> app_start client now), wi_down := (wi_down w)(c := stream)\<rparr>"
    by (auto simp: Let_def split: option.splits prod.splits sum.splits)
  with establish_take [OF assms(1,2)] WireEstablish show ?thesis by (metis same_action.simps(5))
next
  case (WireAppWrite c room)
  with assms(3) obtain A ok stream B where u: "wi_apps w c = Some A"
    "put_frame enc (hd (bk_queue (ap_client A))) room (wi_up w c) = (ok, stream)" "app_exec (AppWriter ok) A = Some B"
    "v = w\<lparr>wi_apps := (wi_apps w)(c \<mapsto> B), wi_up := (wi_up w)(c := stream)\<rparr>"
    by (auto simp: Let_def simp del: app_exec.simps split: option.splits prod.splits)
  have "wire_rel enc v (s\<lparr>nt_apps := (wi_apps w)(c \<mapsto> B), nt_up := push c ok (hd (bk_queue (ap_client A))) (nt_up s)\<rparr>)"
    unfolding u(4) by (rule up_put [OF assms(2) u(2,1,3)]) (use u(3) in \<open>auto split: if_splits\<close>)
  with u(1,3) WireAppWrite wire_relD(2) [OF assms(2)] show ?thesis
    by (intro exI [of _ "NetAppWrite c ok"]) (simp del: app_exec.simps)
next
  case (WireAppRead c n e)
  with assms(3) obtain A r stream B where "wi_apps w c = Some A" "take_frame dec n e (wi_down w c) = (r, stream)"
    "app_exec (AppInbound r) A = Some B" "v = w\<lparr>wi_apps := (wi_apps w)(c \<mapsto> B), wi_down := (wi_down w)(c := stream)\<rparr>"
    by (auto simp: Let_def simp del: app_exec.simps split: option.splits prod.splits)
  with down_take [OF assms(1,2)] WireAppRead show ?thesis by blast
qed

lemma wire_rel_init: "wire_rel enc (wire_init config) (net_init config)"
  by (simp add: wire_rel_def wire_init_def net_init_def bus_init_def conns_fresh_def stream_carries_def)

lemma wire_run:
  "serde_roundtrip enc dec \<Longrightarrow> run_actions (wire_exec enc dec json debug) as w = Some v \<Longrightarrow> wire_rel enc w s \<Longrightarrow>
   \<exists>bs t. run_actions (net_exec json debug) bs s = Some t \<and> list_all2 same_action as bs \<and> wire_rel enc v t"
proof (induction as arbitrary: w s)
  case Nil
  then show ?case by (intro exI [of _ "[]"]) simp
next
  case (Cons a as)
  from Cons.prems(2) obtain u where u: "wire_exec enc dec json debug a w = Some u"
    "run_actions (wire_exec enc dec json debug) as u = Some v" by (auto split: option.splits)
  from wire_step [OF Cons.prems(1,3) u(1)] obtain x t where x: "net_exec json debug x s = Some t" "same_action a x" "wire_rel enc u t"
    by blast
  from Cons.IH [OF Cons.prems(1) u(2) x(3)] obtain bs v' where "run_actions (net_exec json debug) bs t = Some v'"
    "list_all2 same_action as bs" "wire_rel enc v v'" by blast
  with x show ?case by (intro exI [of _ "x # bs"]) auto
qed

subsection \<open>A closed channel\<close>

lemma bus_moved_keeps:
  "bus_moved b b' \<Longrightarrow> conns_fresh b \<Longrightarrow> conns_fresh b'"
  "bus_moved b b' \<Longrightarrow> conns_fresh b \<Longrightarrow> down_closed b c \<Longrightarrow> down_closed b' c"
  unfolding bus_moved_def using conns_fresh_exec down_closed_exec by blast+

lemma wire_bus_moved: "wire_exec enc dec json debug a w = Some v \<Longrightarrow> bus_moved (wi_bus w) (wi_bus v)"
  by (cases a) (auto simp: Let_def simp del: bus_exec.simps app_exec.simps
      split: option.splits prod.splits sum.splits if_splits)

lemma read_frame_opt_suffix: "suffix (rd_data (snd (read_frame_opt dec r))) (rd_data r)"
  by (auto simp: read_frame_opt_def read_exact_def Let_def suffix_drop
      intro: suffix_order.trans [OF suffix_drop suffix_drop] split: sum.splits if_splits)

lemma take_frame_suffix:
  assumes "take_frame dec n e stream = (r, stream')"
  shows "suffix stream' stream"
proof -
  obtain used where "take n stream = used @ rd_data (snd (read_frame_opt dec \<lparr>rd_data = take n stream, rd_end = e\<rparr>))"
    using read_frame_opt_suffix [of dec "\<lparr>rd_data = take n stream, rd_end = e\<rparr>"] by (auto simp: suffix_def)
  then have "stream = used @ rd_data (snd (read_frame_opt dec \<lparr>rd_data = take n stream, rd_end = e\<rparr>)) @ drop n stream"
    by (metis append_assoc append_take_drop_id)
  then have "stream = used @ stream'" using assms by (simp add: take_frame_def split: prod.splits)
  then show ?thesis by (simp add: suffix_def)
qed

text \<open>Once the channel of a connection is closed, its stream is only consumed.\<close>

lemma closed_stream_step:
  assumes "wire_exec enc dec json debug a w = Some v" "down_closed (wi_bus w) c"
  shows "suffix (wi_down v c) (wi_down w c)"
proof (cases a)
  case (WireAckWrite d room)
  with assms have "d \<noteq> c" by (auto simp: down_closed_def acked_def Let_def split: option.splits prod.splits if_splits)
  with assms(1) WireAckWrite show ?thesis by (auto simp: Let_def simp del: bus_exec.simps split: option.splits prod.splits)
next
  case (WireBusWrite d room)
  with assms have "d \<noteq> c" by (auto simp: down_closed_def Let_def split: option.splits prod.splits if_splits)
  with assms(1) WireBusWrite show ?thesis by (auto simp: Let_def simp del: bus_exec.simps split: option.splits prod.splits)
qed (use assms(1) in \<open>auto simp: Let_def simp del: bus_exec.simps app_exec.simps
      dest: take_frame_suffix split: option.splits prod.splits sum.splits if_splits\<close>)

lemma wire_fresh_run:
  "run_actions (wire_exec enc dec json debug) as w = Some v \<Longrightarrow> conns_fresh (wi_bus w) \<Longrightarrow> conns_fresh (wi_bus v)"
  by (induction as arbitrary: w) (auto split: option.splits dest: wire_bus_moved bus_moved_keeps(1))

lemma closed_stream_run:
  "run_actions (wire_exec enc dec json debug) as w = Some v \<Longrightarrow> conns_fresh (wi_bus w) \<Longrightarrow> down_closed (wi_bus w) c \<Longrightarrow>
   down_closed (wi_bus v) c \<and> suffix (wi_down v c) (wi_down w c)"
proof (induction as arbitrary: w)
  case (Cons a as)
  then obtain u where u: "wire_exec enc dec json debug a w = Some u" "run_actions (wire_exec enc dec json debug) as u = Some v"
    by (auto split: option.splits)
  from bus_moved_keeps [OF wire_bus_moved [OF u(1)]] Cons.prems
  have "conns_fresh (wi_bus u)" "down_closed (wi_bus u) c" by blast+
  from Cons.IH [OF u(2) this] closed_stream_step [OF u(1) Cons.prems(3)] show ?case
    by (blast intro: suffix_order.trans)
qed simp

lemma closed_call_fails:
  assumes "registry_get (br_registry b) service = Some entry" "\<not> cl_open (cs (se_tx entry))"
  shows "\<exists>e. fst (call_remote b i service m payload caller cs) = Inl e"
  using assms by (auto simp: call_remote_def chan_send_def Let_def split: option.split)

lemma conns_fresh_init: "conns_fresh (wi_bus (wire_init config))"
  by (simp add: conns_fresh_def wire_init_def bus_init_def)

lemma put_frame_oversized:
  "enc f = Inr bs \<Longrightarrow> unat MAX_FRAME_BYTES < length bs \<Longrightarrow> put_frame enc f room stream = (False, stream)"
  by (auto simp: put_frame_def write_frame_def stream_writer_def fresh_writer_def split: option.splits)

subsection \<open>Sample runs\<close>

text \<open>An app on connection 0 asks; its request arrives cut after five bytes.\<close>

definition demo_ack :: bus_frame where
  "demo_ack = HelloAck \<lparr>ha_client_id = 1, ha_heartbeat_interval = bc_heartbeat_interval broker_config_default\<rparr>"

definition demo_ask :: bus_frame where
  "demo_ask = Invoke \<lparr>inv_req_id = 1, inv_method = ''echo.save'', inv_payload = [1], inv_caller = demo_caller\<rparr>"

definition ask_enc :: "bus_frame \<Rightarrow> string + bytes" where
  "ask_enc f = (if f = demo_ack then Inr [1] else if f = demo_ask then Inr [2, 2] else Inl ''unknown frame'')"

definition ask_dec :: "bytes \<Rightarrow> string + bus_frame" where
  "ask_dec bs = (if bs = [1] then Inr demo_ack else if bs = [2, 2] then Inr demo_ask else Inl ''unknown bytes'')"

lemma ask_roundtrip: "serde_roundtrip ask_enc ask_dec"
  by (auto simp: serde_roundtrip_def ask_enc_def ask_dec_def split: if_splits)

definition demo_eof :: io_error where
  "demo_eof = \<lparr>io_kind_of = UnexpectedEof, io_text = ''early eof''\<rparr>"

definition demo_cfg :: client_config where
  "demo_cfg = \<lparr>cfg_endpoint = EpUnixSocket ''/run/bus'', cfg_auth_token = [], cfg_reconnect_max_backoff = None, cfg_idle_exit = None\<rparr>"

definition demo_wire :: "wire_action list" where
  "demo_wire =
     [WireBus (IssueToken ''echo'' 5 7), WireBus (Accept (Inr (Some (Hello (demo_hello ''echo'' 0))))), WireAckWrite 0 None,
      WireEstablish 0 demo_cfg [(''save'', 0)] 0 9 demo_eof, WireApp 0 (AppInvoke ''echo'' ''save'' [1] demo_caller),
      WireAppWrite 0 None, WireBusRead 0 5 demo_eof]"

lemmas wire_eval = wire_init_def put_frame_def take_frame_def stream_writer_def fresh_writer_def write_frame_def
  write_all_def flush_def read_frame_opt_def read_exact_def u32_to_be_bytes_def u32_from_be_bytes_def MAX_FRAME_BYTES_def

lemma demo_wire_state:
  "map_option (\<lambda>w. (wi_up w 0, map_option cn_phase (bus_conns (wi_bus w) 0), map_option (\<lambda>A. ap_calls A 0) (wi_apps w 0)))
     (run_actions (wire_exec ask_enc ask_dec demo_json (\<lambda>_. [])) demo_wire (wire_init broker_config_default)) =
   Some ([2], Some Ended, Some (Some (CallWaiting 1)))"
  by (simp add: demo_wire_def wire_eval demo_eval ask_enc_def ask_dec_def demo_ack_def demo_ask_def demo_eof_def
      demo_cfg_def broker_config_default_def ack_frame_def establish_def hello_reply_def client_new_def app_start_def client_invoke_def
      client_send_def session_end_def)

text \<open>A request over the limit, to the app on connection 0.\<close>

definition big_enc :: "bus_frame \<Rightarrow> string + bytes" where
  "big_enc f = (case f of Invoke v \<Rightarrow> Inr (replicate 33554433 0) | _ \<Rightarrow> Inr [1])"

definition demo_big :: "wire_action list" where
  "demo_big =
     [WireBus (IssueToken ''echo'' 5 7), WireBus (Accept (Inr (Some (Hello (demo_hello ''echo'' 0))))), WireAckWrite 0 None,
      WireBus (HttpCall (demo_spec 5)), WireBus (StartTask 1)]"

lemma demo_big_state:
  "map_option (\<lambda>w. (map_option cn_phase (bus_conns (wi_bus w) 0), cl_open (bus_cells (wi_bus w) 0), cl_queue (bus_cells (wi_bus w) 0)))
     (run_actions (wire_exec big_enc ask_dec demo_json (\<lambda>_. [])) demo_big (wire_init broker_config_default)) =
   Some (Some Serving, True, [Invoke \<lparr>inv_req_id = 1, inv_method = ''save'', inv_payload = [1], inv_caller = demo_caller\<rparr>])"
  by (simp add: demo_big_def wire_eval demo_eval big_enc_def ack_frame_def)

lemma demo_wire_ends:
  "\<exists>w A k. run_actions (wire_exec ask_enc ask_dec demo_json (\<lambda>_. [])) demo_wire (wire_init broker_config_default) = Some w \<and>
     bus_conns (wi_bus w) 0 = Some k \<and> cn_phase k = Ended \<and> wi_apps w 0 = Some A \<and> ap_calls A 0 = Some (CallWaiting 1)"
  using demo_wire_state by (auto simp: map_option_eq_Some)

lemma demo_big_queued:
  "\<exists>w k v. run_actions (wire_exec big_enc ask_dec demo_json (\<lambda>_. [])) demo_big (wire_init broker_config_default) = Some w \<and>
     bus_conns (wi_bus w) 0 = Some k \<and> cn_phase k = Serving \<and> cl_open (bus_cells (wi_bus w) 0) \<and>
     cl_queue (bus_cells (wi_bus w) 0) = [Invoke v]"
  using demo_big_state by (auto simp: map_option_eq_Some)

section \<open>Theorems\<close>



text \<open>
  C18. One frame over the size limit silences its connection. When the frame at the head of the queue of
  a serving connection encodes to more than 32 MiB, the writer task refuses it and ends: nothing is
  written, the queue is dropped and the channel closed, but the connection goes on serving and the
  broker keeps it registered. From then on no byte is ever written to that connection again, and every
  call that the registry still resolves to it fails at once.
\<close>

theorem oversized_frame_silences:
  assumes "run_actions (wire_exec enc dec json debug) as (wire_init config) = Some w"
    and "bus_conns (wi_bus w) c = Some k" "cn_phase k = Serving"
    and "cl_open (bus_cells (wi_bus w) c)" "cl_queue (bus_cells (wi_bus w) c) = f # fs"
    and "enc f = Inr bytes" "unat MAX_FRAME_BYTES < length bytes"
  shows "\<exists>v. wire_exec enc dec json debug (WireBusWrite c room) w = Some v \<and>
    wi_down v = wi_down w \<and> cl_queue (bus_cells (wi_bus v) c) = [] \<and>
    bus_conns (wi_bus v) = bus_conns (wi_bus w) \<and> bus_broker (wi_bus v) = bus_broker (wi_bus w) \<and>
    (\<forall>bs u. run_actions (wire_exec enc dec json debug) bs v = Some u \<longrightarrow>
       suffix (wi_down u c) (wi_down w c) \<and>
       (\<forall>service entry i m payload caller.
          registry_get (br_registry (bus_broker (wi_bus u))) service = Some entry \<and> se_tx entry = c \<longrightarrow>
          (\<exists>e. fst (call_remote (bus_broker (wi_bus u)) i service m payload caller (bus_cells (wi_bus u))) = Inl e)))"
proof -
  let ?b = "(wi_bus w)\<lparr>bus_cells := close_channel c (bus_cells (wi_bus w))\<rparr>"
  let ?v = "w\<lparr>wi_bus := ?b, wi_down := (wi_down w)(c := wi_down w c)\<rparr>"
  have v: "wire_exec enc dec json debug (WireBusWrite c room) w = Some ?v"
    using assms(2-7) by (simp add: put_frame_oversized)
  have "conns_fresh (wi_bus w)" by (rule wire_fresh_run [OF assms(1) conns_fresh_init])
  then have "conns_fresh (wi_bus ?v)" by (rule bus_moved_keeps(1) [OF wire_bus_moved [OF v]])
  moreover have "down_closed (wi_bus ?v) c"
    using assms(2,3) by (simp add: down_closed_def acked_def close_channel_def)
  ultimately have closed: "down_closed (wi_bus u) c \<and> suffix (wi_down u c) (wi_down ?v c)"
    if "run_actions (wire_exec enc dec json debug) bs ?v = Some u" for bs u
    using closed_stream_run [OF that] by blast
  show ?thesis
  proof (intro exI [of _ ?v] conjI allI impI)
    show "wire_exec enc dec json debug (WireBusWrite c room) w = Some ?v" by (rule v)
  next
    fix bs u assume "run_actions (wire_exec enc dec json debug) bs ?v = Some u"
    from closed [OF this] show "suffix (wi_down u c) (wi_down w c)" by simp
  next
    fix bs u service entry i m payload caller
    assume u: "run_actions (wire_exec enc dec json debug) bs ?v = Some u"
      and "registry_get (br_registry (bus_broker (wi_bus u))) service = Some entry \<and> se_tx entry = c"
    then show "\<exists>e. fst (call_remote (bus_broker (wi_bus u)) i service m payload caller (bus_cells (wi_bus u))) = Inl e"
      using closed [OF u] by (intro closed_call_fails) (auto simp: down_closed_def)
  qed (simp_all add: close_channel_def)
qed

theorem oversized_frame_silences_witness:
  "\<exists>w v. run_actions (wire_exec big_enc ask_dec demo_json (\<lambda>_. [])) demo_big (wire_init broker_config_default) = Some w \<and>
     cl_queue (bus_cells (wi_bus w) 0) \<noteq> [] \<and>
     wire_exec big_enc ask_dec demo_json (\<lambda>_. []) (WireBusWrite 0 None) w = Some v \<and>
     wi_down v = wi_down w \<and> cl_queue (bus_cells (wi_bus v) 0) = [] \<and> bus_conns (wi_bus v) = bus_conns (wi_bus w)"
proof -
  from demo_big_queued obtain w k x where
    w: "run_actions (wire_exec big_enc ask_dec demo_json (\<lambda>_. [])) demo_big (wire_init broker_config_default) = Some w"
    "bus_conns (wi_bus w) 0 = Some k" "cn_phase k = Serving" "cl_open (bus_cells (wi_bus w) 0)"
    "cl_queue (bus_cells (wi_bus w) 0) = [Invoke x]" by blast
  have big: "big_enc (Invoke x) = Inr (replicate 33554433 0)" "unat MAX_FRAME_BYTES < length (replicate 33554433 (0 :: u8))"
    by (simp_all add: big_enc_def)
  from oversized_frame_silences [OF w big, of None] w(1,5) show ?thesis by auto
qed

end
