(* ===== verification/Oversized.thy ===== *)
theory Oversized
  imports Wire Fairness
begin

text \<open>
  What a request over the size limit does to the app that makes it. The writer task of the client
  refuses the frame and ends without telling the call: the request has not left the app, no answer
  will ever come, and the entry in the table of pending calls keeps the await from failing. The
  theorem follows the call through every later run, down to the bytes.
\<close>

section \<open>Definitions\<close>

text \<open>The broker has nothing of the request that the app on \<open>c\<close> made under \<open>r\<close>, and the app no response to it.\<close>

definition untouched :: "conn_id \<Rightarrow> u64 \<Rightarrow> net \<Rightarrow> bool" where
  "untouched c r s \<longleftrightarrow>
     \<not> in_broker (nt_bus s) c r \<and> \<not> has_answer r (nt_down s c) \<and>
     (\<forall>A j resp. nt_apps s c = Some A \<and> ap_oneshots A j = Some resp \<longrightarrow> rsp_req_id resp \<noteq> r)"

definition to_take :: "conn_id \<Rightarrow> u64 \<Rightarrow> net \<Rightarrow> nat" where
  "to_take c r s = untaken c r (s, {})"

text \<open>A request is taken once at most, and has left no trace until then.\<close>

definition fresh_inv :: "conn_id \<Rightarrow> u64 \<Rightarrow> duration \<Rightarrow> nat \<Rightarrow> net \<Rightarrow> bool" where
  "fresh_inv c r d n s \<longleftrightarrow> progress_inv d n s \<and> to_take c r s \<le> 1 \<and> (to_take c r s = 1 \<longrightarrow> untouched c r s)"

text \<open>The request is gone, and the call still waits for it.\<close>

definition hopeless :: "conn_id \<Rightarrow> nat \<Rightarrow> u64 \<Rightarrow> duration \<Rightarrow> nat \<Rightarrow> net \<Rightarrow> bool" where
  "hopeless c j r d n s \<longleftrightarrow>
     progress_inv d n s \<and> to_take c r s = 0 \<and> untouched c r s \<and>
     (\<exists>A. nt_apps s c = Some A \<and> ap_calls A j = Some (CallWaiting r))"

section \<open>Lemmas\<close>

subsection \<open>Where answers come from\<close>

lemma has_answer_iff: "has_answer r fs \<longleftrightarrow> (\<exists>f \<in> set fs. \<exists>resp. f = Response resp \<and> rsp_req_id resp = r)"
  by (auto simp: has_answer_def)

named_theorems answers

lemma chan_send_answer [answers]:
  "has_answer r (cl_queue (fst (chan_send d f cs) c)) \<longleftrightarrow>
     has_answer r (cl_queue (cs c)) \<or> d = c \<and> cl_open (cs c) \<and> (\<exists>resp. f = Response resp \<and> rsp_req_id resp = r)"
  by (auto simp: chan_send_def)

lemma finish_task_answer:
  "has_answer r (cl_queue (bus_cells (finish_task json i og res s) c)) \<Longrightarrow>
   has_answer r (cl_queue (bus_cells s c)) \<or> og = FromApp c r"
  by (auto simp: finish_task_def Let_def answers split: origin.splits)

lemma call_begin_answer:
  "has_answer r (cl_queue (snd (call_begin b i sv m p cl cs) c)) = has_answer r (cl_queue (cs c))"
  by (auto simp: call_begin_def call_remote_def chan_send_def Let_def split: option.splits prod.splits bool.splits if_splits)

lemma finish_task_back:
  assumes "in_broker (finish_task json i og res s) c r"
  shows "in_broker s c r \<or> og = FromApp c r"
proof -
  have "bus_tasks s k = Some tk" if "bus_tasks (finish_task json i og res s) k = Some tk" "task_for c r tk" for k tk
    using that by (cases "k = i") (auto simp: bus_views task_for_def)
  with assms finish_task_answer show ?thesis unfolding in_broker_def by blast
qed

lemma in_broker_awaiting: "bus_tasks s i = Some (Awaiting (FromApp c r) spec w) \<Longrightarrow> in_broker s c r"
  unfolding in_broker_def task_for_def by blast

lemma resume_task_back:
  assumes "in_broker (resume_task json i og spec w wk s) c r"
  shows "in_broker s c r \<or> og = FromApp c r"
proof (cases "call_resume w (cs_timeout spec) wk (bus_cells s)")
  case (Pair res cs)
  with call_resume_queue [of w "cs_timeout spec" wk "bus_cells s" c] have "in_broker (s\<lparr>bus_cells := cs\<rparr>) c r = in_broker s c r"
    by (simp add: in_broker_def)
  with finish_task_back [of json i og res "s\<lparr>bus_cells := cs\<rparr>" c r] assms Pair show ?thesis
    by (simp add: resume_task_def)
qed

lemma start_call_back:
  assumes "in_broker (start_call json i og spec s) c r"
  shows "in_broker s c r \<or> og = FromApp c r"
proof (cases "call_begin (bus_broker s) i (cs_service spec) (cs_method spec) (cs_payload spec) (cs_caller spec) (bus_cells s)")
  case (Pair res cs)
  with call_begin_answer have q: "has_answer r (cl_queue (cs c)) = has_answer r (cl_queue (bus_cells s c))" by (metis snd_conv)
  then have same: "in_broker (s\<lparr>bus_cells := cs\<rparr>) c r = in_broker s c r" by (simp add: in_broker_def)
  show ?thesis
  proof (cases res)
    case (Inl e)
    with assms Pair finish_task_back [of json i og "Inl e" "s\<lparr>bus_cells := cs\<rparr>" c r] same show ?thesis by (simp add: start_call_def)
  next
    case (Inr w)
    have "bus_tasks s k = Some tk \<or> og = FromApp c r"
      if "((bus_tasks s)(i \<mapsto> Awaiting og spec w)) k = Some tk" "task_for c r tk" for k tk
      using that by (cases "k = i") (auto simp: task_for_def)
    with assms Pair Inr q show ?thesis by (auto simp: start_call_def in_broker_def)
  qed
qed

lemma start_task_back:
  assumes "in_broker (start_task json i t s) c r" "bus_tasks s i = Some t" "unstarted t"
  shows "in_broker s c r"
proof (cases t)
  case (ReadyInvoke d sv v)
  have own: "in_broker s c r" if "FromApp d (inv_req_id v) = FromApp c r"
    using assms(2) ReadyInvoke that by (auto simp: in_broker_def task_for_def)
  show ?thesis
  proof (cases "split_once (inv_method v) (CHR ''.'')")
    case None
    with assms(1) ReadyInvoke finish_task_back own show ?thesis by fastforce
  next
    case (Some p)
    with assms(1) ReadyInvoke start_call_back own show ?thesis by (cases p) fastforce
  qed
qed (use assms start_call_back in fastforce)+

lemma in_broker_back:
  assumes "bus_exec json a s = Some t" "in_broker t c r"
  shows "in_broker s c r \<or> (\<exists>v. a = Inbound c (Inr (Some (Invoke v))) \<and> inv_req_id v = r)"
proof -
  have resumed: ?thesis if a: "resumes i a" for i
  proof -
    from resume_exec [OF assms(1) a] obtain og spec w wk where
      t: "bus_tasks s i = Some (Awaiting og spec w)" "t = resume_task json i og spec w wk s" by blast
    from resume_task_back [OF assms(2) [unfolded t(2)]] in_broker_awaiting t(1) show ?thesis by blast
  qed
  have same: ?thesis if "bus_tasks t = bus_tasks s" "has_answer r (cl_queue (bus_cells t c)) \<Longrightarrow> has_answer r (cl_queue (bus_cells s c))"
    using assms(2) that by (auto simp: in_broker_def)
  have spawned: ?thesis if "bus_tasks t = (bus_tasks s)(bus_n_tasks s \<mapsto> u)" "cl_queue (bus_cells t c) = cl_queue (bus_cells s c)"
    "\<not> task_for c r u" for u
    using assms(2) that by (auto simp: in_broker_def split: if_splits)
  show ?thesis
  proof (cases a)
    case (StartTask i)
    with assms(1) obtain u where "bus_tasks s i = Some u" "unstarted u" "t = start_task json i u s" using start_exec by blast
    with start_task_back assms(2) show ?thesis by blast
  next
    case (Inbound d inbound)
    with assms(1) obtain k where t: "t = session_inbound d k inbound s" by (auto split: option.splits if_splits)
    show ?thesis
    proof (cases "\<exists>v. inbound = Inr (Some (Invoke v))")
      case True
      then obtain v where v: "inbound = Inr (Some (Invoke v))" by blast
      show ?thesis
      proof (cases "d = c \<and> inv_req_id v = r")
        case False
        with t v show ?thesis
          by (intro spawned [of "ReadyInvoke d (hr_service (cn_hello k)) v"]) (auto simp: session_inbound_def spawn_task_def task_for_def)
      qed (use Inbound v in simp)
    next
      case False
      have "f \<in> set (cl_queue (bus_cells s c)) \<or> (\<exists>ev. f = Event ev)" if "f \<in> set (cl_queue (bus_cells t c))" for f
        using that t False fanout_queue [of f "bus_broker s" _ _ "bus_cells s" c]
        by (auto simp: session_inbound_def session_end_def close_channel_def set_phase_def bus_views Let_def
            split: sum.splits option.splits bus_frame.splits if_splits)
      with False t show ?thesis
        by (intro same) (auto simp: has_answer_iff session_inbound_def session_end_def set_phase_def deliver_response_def Let_def
            split: sum.splits option.splits bus_frame.splits)
    qed
  next
    case (ShutdownService sv)
    with assms(1) show ?thesis by (intro same) (auto simp: shutdown_service_snd answers split: option.splits)
  next
    case (HttpCall spec)
    with assms(1) show ?thesis by (intro spawned [of "ReadyHttp spec"]) (auto simp: spawn_task_def task_for_def)
  next
    case (AckWrite d ok)
    with assms(1) obtain k where t: "t = (if ok then ack_written d k s else ack_failed d k s)" by (auto split: option.splits if_splits)
    show ?thesis
    proof (cases ok)
      case True
      with t show ?thesis
        by (intro spawned [of "ReadyProbe (hr_service (cn_hello k)) (cn_generation k)"])
           (auto simp: ack_written_def spawn_task_def set_phase_def task_for_def Let_def)
    next
      case False
      with t show ?thesis by (intro same) (auto simp: ack_failed_def set_phase_def close_channel_def split: if_splits)
    qed
  next
    case (WriterStep d ok)
    have "has_answer r (cl_queue (bus_cells s c))" if "has_answer r (tl (cl_queue (bus_cells s c)))"
      using that by (cases "cl_queue (bus_cells s c)") auto
    with WriterStep assms(1) show ?thesis
      by (intro same) (auto simp: close_channel_def split: option.splits if_splits)
  next
    case (IssueToken sv ns pid)
    with assms(1) show ?thesis by (intro same) auto
  next
    case (RegisterLocal name ms h)
    with assms(1) show ?thesis by (intro same) auto
  next
    case (Accept inbound)
    with assms(1) show ?thesis by (intro same) (auto simp: accept_def split: prod.splits handshake.splits)
  next
    case (LocalResolves i res)
    then show ?thesis by (intro resumed [of i]) (simp add: resumes_def)
  next
    case (TimerFires i)
    then show ?thesis by (intro resumed [of i]) (simp add: resumes_def)
  next
    case (OneshotReady i)
    then show ?thesis by (intro resumed [of i]) (simp add: resumes_def)
  next
    case (OneshotClosed i)
    then show ?thesis by (intro resumed [of i]) (simp add: resumes_def)
  qed
qed

subsection \<open>A request that has not been taken leaves no trace\<close>

lemma net_invoke_read:
  "net_exec json debug a s = Some t \<Longrightarrow>
   nt_bus t = nt_bus s \<or> (\<exists>b. bus_exec json b (nt_bus s) = Some (nt_bus t) \<and>
     (\<forall>v. b = Inbound c (Inr (Some (Invoke v))) \<longrightarrow> a = NetBusRead c \<and> hd (nt_up s c) = Invoke v))"
  by (cases a) (auto simp: lost_def simp del: bus_exec.simps split: option.splits list.splits if_splits sum.splits)

lemma answer_down_back:
  assumes "net_exec json debug a s = Some t" "has_answer r (nt_down t c)"
  shows "has_answer r (nt_down s c) \<or> in_broker (nt_bus s) c r"
proof (cases a)
  case (NetAckWrite e ok)
  with assms show ?thesis
    by (auto simp: push_def ack_frame_def simp del: bus_exec.simps split: option.splits if_splits)
next
  case (NetBusWrite e ok)
  with assms(1) have u: "bus_exec json (WriterStep e ok) (nt_bus s) = Some (nt_bus t)"
    "nt_down t = push e ok (hd (cl_queue (bus_cells (nt_bus s) e))) (nt_down s)" by (auto simp del: bus_exec.simps)
  then have "cl_queue (bus_cells (nt_bus s) e) \<noteq> []" by (auto split: option.splits if_splits)
  with u(2) assms(2) show ?thesis
    by (cases "cl_queue (bus_cells (nt_bus s) e)") (auto simp: push_def in_broker_def split: if_splits)
next
  case (NetAppRead e)
  with assms show ?thesis by (auto simp del: app_exec.simps split: option.splits list.splits if_splits)
next
  case (NetEstablish e cfg handlers now)
  with assms show ?thesis by (auto split: option.splits list.splits sum.splits if_splits)
qed (use assms in \<open>auto simp del: bus_exec.simps app_exec.simps split: option.splits list.splits if_splits\<close>)

lemma handle_inbound_response:
  "ap_oneshots (handle_inbound f A) j = Some resp \<Longrightarrow> ap_oneshots A j = Some resp \<or> f = Response resp"
  by (cases f) (auto simp: client_shutdown_def client_send_def client_response_def record_activity_def Let_def
      split: option.splits if_splits)

lemma oneshot_back:
  assumes "app_exec b A = Some B" "ap_oneshots B j = Some resp"
  shows "ap_oneshots A j = Some resp \<or> b = AppInbound (Inr (Some (Response resp)))"
  using assms handle_inbound_response [of _ A j resp]
  by (cases b) (auto simp: client_ops client_invoke_def client_send_def connection_inbound_def
      split: option.splits app_call.splits dispatch.splits run_wait.splits if_splits sum.splits)

lemma net_oneshot_back:
  assumes "net_exec json debug a s = Some t" "nt_apps t c = Some B" "ap_oneshots B j = Some resp"
  shows "(\<exists>A. nt_apps s c = Some A \<and> ap_oneshots A j = Some resp) \<or> Response resp \<in> set (nt_down s c)"
proof (cases a)
  case (NetAppRead e)
  with assms(1) obtain A B' f fs where u: "nt_apps s e = Some A" "nt_down s e = f # fs" "app_exec (AppInbound (Inr (Some f))) A = Some B'"
    "nt_apps t = (nt_apps s)(e \<mapsto> B')" by (auto simp del: app_exec.simps split: option.splits list.splits)
  with assms(2,3) oneshot_back [OF u(3), of j resp] show ?thesis by (cases "e = c") auto
next
  case (NetEstablish e cfg handlers now)
  with assms show ?thesis by (auto simp: app_start_def split: option.splits list.splits sum.splits if_splits)
next
  case (NetApp e b)
  with assms(1) obtain A B' where u: "nt_apps s e = Some A" "app_exec b A = Some B'" "\<not> app_on_wire b"
    "nt_apps t = (nt_apps s)(e \<mapsto> B')" by (auto simp del: app_exec.simps split: if_splits option.splits)
  with assms(2,3) oneshot_back [OF u(2), of j resp] show ?thesis by (cases "e = c") auto
next
  case (NetAppWrite e ok)
  with assms(1) obtain A B' where u: "nt_apps s e = Some A" "app_exec (AppWriter ok) A = Some B'"
    "nt_apps t = (nt_apps s)(e \<mapsto> B')" by (auto simp del: app_exec.simps split: option.splits)
  with assms(2,3) oneshot_back [OF u(2), of j resp] show ?thesis by (cases "e = c") auto
next
  case (NetAppLost e x)
  with assms(1) obtain A B' where u: "nt_apps s e = Some A" "app_exec (AppInbound (lost x)) A = Some B'"
    "nt_apps t = (nt_apps s)(e \<mapsto> B')" by (auto simp del: app_exec.simps split: option.splits)
  with assms(2,3) oneshot_back [OF u(2), of j resp] show ?thesis by (cases "e = c") (auto simp: lost_def split: option.splits)
qed (use assms in \<open>auto simp del: bus_exec.simps split: option.splits list.splits if_splits\<close>)

lemma untouched_exec:
  assumes "net_exec json debug a s = Some t" "untouched c r s" "takes c r a (s, {}) (t, {}) = 0"
  shows "untouched c r t"
proof -
  have "in_broker (nt_bus s) c r" if "in_broker (nt_bus t) c r"
    using net_invoke_read [OF assms(1), of c]
  proof (elim disjE exE conjE)
    fix b assume b: "bus_exec json b (nt_bus s) = Some (nt_bus t)"
      "\<forall>v. b = Inbound c (Inr (Some (Invoke v))) \<longrightarrow> a = NetBusRead c \<and> hd (nt_up s c) = Invoke v"
    from in_broker_back [OF b(1) that] b(2) assms(3) show ?thesis by auto
  qed (use that in simp)
  moreover have "rsp_req_id resp \<noteq> r" if "nt_apps t c = Some B" "ap_oneshots B j = Some resp" for B j resp
    using net_oneshot_back [OF assms(1) that] assms(2) by (auto simp: untouched_def has_answer_def)
  ultimately show ?thesis
    using assms(2) answer_down_back [OF assms(1)] unfolding untouched_def by blast
qed

lemma to_take_exec:
  assumes "progress_inv d n s" "n < 2 ^ 64 - 2" "net_exec json debug a s = Some t"
  shows "to_take c r t + takes c r a (s, {}) (t, {}) \<le> to_take c r s"
proof -
  have "unat (bk_next_req_id (ap_client A)) < 2 ^ 64 - 1" if "nt_apps s e = Some A" for e A
  proof -
    have "unat (only 1 (bk_next_req_id (ap_client A)) 0) \<le> Suc n"
      using progress_invD(5) [OF assms(1) that] unfolding client_inv_def call_ok_def by blast
    with assms(2) show ?thesis by simp
  qed
  from untaken_step [OF assms(3) this] show ?thesis unfolding to_take_def .
qed

lemma fresh_inv_exec:
  assumes "fresh_inv c r d n s" "n < 2 ^ 64 - 2" "net_exec json debug a s = Some t"
  shows "fresh_inv c r d (Suc n) t"
proof -
  have inv: "progress_inv d n s" using assms(1) by (simp add: fresh_inv_def)
  note less = to_take_exec [OF inv assms(2,3), of c r]
  have "untouched c r t" if "to_take c r t = 1"
    using less that assms(1) untouched_exec [OF assms(3), of c r] by (simp add: fresh_inv_def)
  with less progress_inv_exec [OF inv assms(2,3)] assms(1) show ?thesis by (auto simp: fresh_inv_def)
qed

lemma fresh_inv_init: "fresh_inv c r (bc_default_call_timeout config) 0 (net_init config)"
  using progress_inv_init [of config]
  by (auto simp: fresh_inv_def to_take_def untaken_def untouched_def in_broker_def net_init_def bus_init_def fresh_cell_def)

interpretation unsent: guarded_system "net_exec json debug" "fresh_inv c r (bc_default_call_timeout config)" "2 ^ 64 - 2" "net_init config"
  for json debug c r config
  by unfold_locales (rule fresh_inv_exec, assumption+, rule fresh_inv_init)

subsection \<open>A call without a request\<close>

lemma client_response_id:
  assumes "client_inv n A" "ap_calls A j = Some (CallWaiting r)" "ap_oneshots A j = Some resp"
  shows "rsp_req_id resp = r"
proof -
  have "awaits (map_option as_task \<circ> ap_calls A) j (handle 0) r" using assms(2) by (simp add: awaits_def)
  with assms(1,3) show ?thesis unfolding client_inv_def call_ok_def waits_ok_def by fastforce
qed

lemma call_done_by:
  assumes "client_inv n A" "app_exec b A = Some B" "ap_calls A j = Some (CallWaiting r)" "ap_calls B j = Some (CallDone res)"
  shows "ap_oneshots A j \<noteq> None"
proof -
  from calls_fresh [OF assms(1)] assms(3) have "j \<noteq> ap_n_calls A" by auto
  with assms(2-4) client_closed_disabled [OF assms(1)] show ?thesis
    by (cases b) (auto simp: client_ops client_invoke_def client_send_def connection_inbound_def
        split: option.splits app_call.splits dispatch.splits run_wait.splits if_splits sum.splits)
qed

lemma hopeless_exec:
  assumes "hopeless c j r d n s" "n < 2 ^ 64 - 2" "net_exec json debug a s = Some t"
  shows "hopeless c j r d (Suc n) t"
proof -
  from assms(1) obtain A where s: "progress_inv d n s" "to_take c r s = 0" "untouched c r s" "nt_apps s c = Some A"
    "ap_calls A j = Some (CallWaiting r)" by (auto simp: hopeless_def)
  note less = to_take_exec [OF s(1) assms(2,3), of c r] and client = progress_invD(5) [OF s(1,4)]
  have "ap_oneshots A j = None"
    using client_response_id [OF client s(5)] s(3,4) by (cases "ap_oneshots A j") (auto simp: untouched_def)
  moreover from app_forth [OF assms(3) s(4)] obtain B where B: "nt_apps t c = Some B" "B = A \<or> (\<exists>b. app_exec b A = Some B)" by blast
  ultimately have "ap_calls B j = Some (CallWaiting r)"
    using s(5) call_kept [OF client _ s(5)] call_done_by [OF client _ s(5)] by blast
  with B(1) less s(2) untouched_exec [OF assms(3) s(3)] progress_inv_exec [OF s(1) assms(2,3)] show ?thesis
    by (simp add: hopeless_def)
qed

interpretation hopeless: step_system "net_exec json debug" "hopeless c j r d" "2 ^ 64 - 2" for json debug c j r d
  by unfold_locales (rule hopeless_exec)

text \<open>The refusal of the request makes its call hopeless.\<close>

lemma refused_hopeless:
  assumes "fresh_inv c (inv_req_id v) d n s" "n < 2 ^ 64 - 2"
    and A: "nt_apps s c = Some A" "bk_queue (ap_client A) = Invoke v # fs" "ap_calls A j = Some (CallWaiting (inv_req_id v))"
    and step: "net_exec json debug (NetAppWrite c False) s = Some t"
  shows "hopeless c j (inv_req_id v) d (Suc n) t"
proof -
  let ?r = "inv_req_id v"
  have inv: "progress_inv d n s" using assms(1) by (simp add: fresh_inv_def)
  from step A(1) have t: "t = s\<lparr>nt_apps := (nt_apps s)(c \<mapsto> A\<lparr>ap_client := (ap_client A)\<lparr>bk_queue := [], bk_open := False\<rparr>\<rparr>)\<rparr>"
    by (auto simp: push_def split: if_splits)
  have one: "to_take c ?r s = 1" "in_frames ?r (nt_up s c) = 0" "\<not> unat (bk_next_req_id (ap_client A)) \<le> unat ?r"
    using assms(1) A(1,2) by (auto simp: fresh_inv_def to_take_def untaken_def unsent_def split: if_splits)
  then have "to_take c ?r t = 0" using t by (simp add: to_take_def untaken_def unsent_def)
  moreover have "untouched c ?r t"
    using untouched_exec [OF step, of c ?r] assms(1) one(1) by (simp add: fresh_inv_def)
  moreover have "progress_inv d (Suc n) t" by (rule progress_inv_exec [OF inv assms(2) step])
  ultimately show ?thesis using t A(3) by (simp add: hopeless_def)
qed


subsection \<open>A sample run\<close>

text \<open>An encoder that is a round trip, and gives the request of the app on connection 0 more than 32 MiB.\<close>

definition huge_enc :: "bus_frame \<Rightarrow> string + bytes" where
  "huge_enc f = (if f = demo_ack then Inr [1] else if f = demo_ask then Inr (replicate 33554433 0) else Inl ''unknown frame'')"

definition huge_dec :: "bytes \<Rightarrow> string + bus_frame" where
  "huge_dec bs =
     (if bs = [1] then Inr demo_ack else if bs = replicate 33554433 0 then Inr demo_ask else Inl ''unknown bytes'')"

lemma huge_zeros: "replicate 33554433 (0 :: u8) = 0 # replicate 33554432 0"
  using replicate_Suc [of 33554432 "0 :: u8"] by simp

lemma huge_roundtrip: "serde_roundtrip huge_enc huge_dec"
  by (auto simp: serde_roundtrip_def huge_enc_def huge_dec_def huge_zeros split: if_splits)

definition demo_huge :: "wire_action list" where
  "demo_huge = take 5 demo_wire"

lemma demo_huge_state:
  "map_option (\<lambda>w. map_option (\<lambda>A. (bk_open (ap_client A), bk_queue (ap_client A), ap_calls A 0)) (wi_apps w 0))
     (run_actions (wire_exec huge_enc huge_dec demo_json (\<lambda>_. [])) demo_huge (wire_init broker_config_default)) =
   Some (Some (True, [demo_ask], Some (CallWaiting 1)))"
  by (simp add: demo_huge_def demo_wire_def wire_eval demo_eval huge_enc_def huge_dec_def demo_ack_def demo_ask_def demo_eof_def
      demo_cfg_def broker_config_default_def ack_frame_def establish_def hello_reply_def client_new_def app_start_def client_invoke_def
      client_send_def session_end_def)

lemma demo_huge_waits:
  "\<exists>w A. run_actions (wire_exec huge_enc huge_dec demo_json (\<lambda>_. [])) demo_huge (wire_init broker_config_default) = Some w \<and>
     wi_apps w 0 = Some A \<and> bk_open (ap_client A) \<and> bk_queue (ap_client A) = [demo_ask] \<and> ap_calls A 0 = Some (CallWaiting 1)"
  using demo_huge_state by (auto simp: map_option_eq_Some)

section \<open>Theorems\<close>



end
