(* ===== verification/Supervisor.thy ===== *)
theory Supervisor
  imports Broker
begin

text \<open>
  The process supervisor of \<open>crates/supervisor/src/lib.rs\<close>. App states are shared by \<open>Arc\<close>, so the
  map of apps holds addresses into a store of states; the async mutex around a child is a holder
  (the number of a task) in its state. The tasks are the running async calls, each at the await it
  is suspended at; one action runs a task to its next await. The environment decides whether a
  process starts, when one exits and with what status.

  A \<open>Child\<close> that is dropped is killed (\<open>kill_on_drop\<close>). \<open>child.kill().await\<close> kills and reaps the
  process, after which \<open>wait\<close> returns at once.
\<close>

section \<open>Definitions\<close>

subsection \<open>Apps\<close>

datatype lifecycle = Resident | OnDemand duration

record app_spec =
  sp_service :: string
  sp_binary :: string
  sp_args :: "string list"
  sp_env :: "(string \<times> string) list"
  sp_lifecycle :: lifecycle
  sp_working_dir :: "string option"

subsection \<open>Backoff\<close>

record backoff =
  bo_next :: duration

definition backoff_new :: backoff where
  "backoff_new = \<lparr>bo_next = duration_from_secs 1\<rparr>"

definition backoff_bump :: "backoff \<Rightarrow> backoff \<times> duration" where
  "backoff_bump b =
     (b\<lparr>bo_next := min (duration_mul (bo_next b) 2) (duration_from_secs 300)\<rparr>, bo_next b)"

definition backoff_reset :: "backoff \<Rightarrow> backoff" where
  "backoff_reset b = b\<lparr>bo_next := duration_from_secs 1\<rparr>"

subsection \<open>Processes\<close>

type_synonym app_ref = nat
type_synonym child_id = nat
type_synonym task_id = nat

record command =
  cmd_binary :: string
  cmd_args :: "string list"
  cmd_env :: "(string, string) dashmap"
  cmd_dir :: "string option"

datatype child_status = ChildRunning | ChildExited bool

record child =
  ch_app :: app_ref
  ch_command :: command
  ch_status :: child_status

record app_state =
  as_spec :: app_spec
  as_child :: "child_id option"
  as_backoff :: backoff
  as_last_spawn :: "instant option"
  as_holder :: "task_id option"

subsection \<open>Tasks\<close>

text \<open>What follows \<open>stop_service\<close> in the call that awaits it.\<close>

datatype after_stop = ThenReplace app_spec | ThenUnregister

datatype sup_task =
    LoopTop string
  | LoopSpawnLock string app_ref
  | LoopFailedSleep string app_ref duration
  | LoopWaitLock string app_ref
  | LoopWaiting string app_ref child_id
  | LoopSleep string app_ref duration
  | StopLock string app_ref after_stop
  | EnsureLock app_ref
  | Finished "unit bus_result"

record supervisor =
  sv_broker :: broker
  sv_bus_endpoint :: string
  sv_apps :: "(string, app_ref) dashmap"
  sv_states :: "app_ref \<Rightarrow> app_state option"
  sv_n_states :: nat
  sv_children :: "child_id \<Rightarrow> child option"
  sv_n_children :: nat
  sv_tasks :: "task_id \<Rightarrow> sup_task option"
  sv_n_tasks :: nat
  sv_token_counter :: u64
  sv_now :: instant

definition supervisor_new :: "broker \<Rightarrow> string \<Rightarrow> supervisor" where
  "supervisor_new b endpoint =
     \<lparr>sv_broker = b, sv_bus_endpoint = endpoint, sv_apps = [], sv_states = (\<lambda>_. None), sv_n_states = 0,
      sv_children = (\<lambda>_. None), sv_n_children = 0, sv_tasks = (\<lambda>_. None), sv_n_tasks = 0,
      sv_token_counter = 0, sv_now = 0\<rparr>"

definition sup_spawn :: "sup_task \<Rightarrow> supervisor \<Rightarrow> supervisor" where
  "sup_spawn t s = s\<lparr>sv_tasks := (sv_tasks s)(sv_n_tasks s \<mapsto> t), sv_n_tasks := Suc (sv_n_tasks s)\<rparr>"

definition set_task :: "task_id \<Rightarrow> sup_task \<Rightarrow> supervisor \<Rightarrow> supervisor" where
  "set_task i t s = s\<lparr>sv_tasks := (sv_tasks s)(i \<mapsto> t)\<rparr>"

definition upd_state :: "app_ref \<Rightarrow> (app_state \<Rightarrow> app_state) \<Rightarrow> supervisor \<Rightarrow> supervisor" where
  "upd_state r f s = s\<lparr>sv_states := (sv_states s)(r := map_option f (sv_states s r))\<rparr>"

subsection \<open>Registration\<close>

definition is_resident :: "app_spec \<Rightarrow> bool" where
  "is_resident spec \<longleftrightarrow> sp_lifecycle spec = Resident"

definition sup_register :: "app_spec \<Rightarrow> supervisor \<Rightarrow> supervisor" where
  "sup_register spec s =
     s\<lparr>sv_states := (sv_states s)(sv_n_states s \<mapsto>
         \<lparr>as_spec = spec, as_child = None, as_backoff = backoff_new, as_last_spawn = None, as_holder = None\<rparr>),
       sv_n_states := Suc (sv_n_states s),
       sv_apps := dm_insert (sp_service spec) (sv_n_states s) (sv_apps s)\<rparr>"

fun start_loops :: "(string \<times> app_ref) list \<Rightarrow> supervisor \<Rightarrow> supervisor" where
  "start_loops [] s = s"
| "start_loops ((service, r) # rest) s =
     start_loops rest
       (case sv_states s r of
          None \<Rightarrow> s
        | Some st \<Rightarrow> if is_resident (as_spec st) then sup_spawn (LoopTop service) s else s)"

definition start_all_resident :: "supervisor \<Rightarrow> supervisor" where
  "start_all_resident s = start_loops (sv_apps s) s"

text \<open>The end of \<open>register_or_replace\<close>, once the old instance has been stopped.\<close>

definition replace_finish :: "app_spec \<Rightarrow> supervisor \<Rightarrow> supervisor" where
  "replace_finish spec s =
     (let s1 = sup_register spec s
      in if is_resident spec then sup_spawn (LoopTop (sp_service spec)) s1 else s1)"

definition remove_app :: "string \<Rightarrow> supervisor \<Rightarrow> supervisor" where
  "remove_app service s = s\<lparr>sv_apps := dm_remove service (sv_apps s)\<rparr>"

definition register_or_replace :: "app_spec \<Rightarrow> supervisor \<Rightarrow> supervisor" where
  "register_or_replace spec s =
     (case dm_get (sv_apps s) (sp_service spec) of
        Some r \<Rightarrow> sup_spawn (StopLock (sp_service spec) r (ThenReplace spec)) s
      | None \<Rightarrow> replace_finish spec s)"

definition unregister :: "string \<Rightarrow> supervisor \<Rightarrow> supervisor" where
  "unregister service s =
     (case dm_get (sv_apps s) service of
        None \<Rightarrow> sup_spawn (Finished (Inl (ServiceNotFound service))) s
      | Some r \<Rightarrow> sup_spawn (StopLock service r ThenUnregister) s)"

definition ensure_up :: "string \<Rightarrow> supervisor \<Rightarrow> supervisor" where
  "ensure_up service s =
     (case dm_get (sv_apps s) service of
        None \<Rightarrow> sup_spawn (Finished (Inl (ServiceNotFound service))) s
      | Some r \<Rightarrow> sup_spawn (EnsureLock r) s)"

subsection \<open>Spawning and killing\<close>

definition idle_ms :: "lifecycle \<Rightarrow> u64" where
  "idle_ms l = (case l of OnDemand idle_timeout \<Rightarrow> as_millis_u64 idle_timeout | Resident \<Rightarrow> 0)"

definition spawn_command :: "string \<Rightarrow> string \<Rightarrow> app_spec \<Rightarrow> command" where
  "spawn_command bus_endpoint token spec =
     \<lparr>cmd_binary = sp_binary spec, cmd_args = sp_args spec,
      cmd_env =
        fold (\<lambda>(k, v) env. dm_insert k v env) (sp_env spec)
          (dm_insert ''TOKIMO_BUS_IDLE_MS'' (show_nat (unat (idle_ms (sp_lifecycle spec))))
             (dm_insert ''TOKIMO_BUS_TOKEN'' token
                (dm_insert ''TOKIMO_BUS_SOCKET'' bus_endpoint []))),
      cmd_dir = sp_working_dir spec\<rparr>"

definition kill_child :: "child_id option \<Rightarrow> (child_id \<Rightarrow> child option) \<Rightarrow> child_id \<Rightarrow> child option" where
  "kill_child c children =
     (case c of
        None \<Rightarrow> children
      | Some c \<Rightarrow>
          children(c := map_option
            (\<lambda>ch. if ch_status ch = ChildRunning then ch\<lparr>ch_status := ChildExited False\<rparr> else ch) (children c)))"

text \<open>
  \<open>spawn_once\<close> on state \<open>r\<close>, whose lock is held: \<open>ns\<close> and \<open>pid\<close> go into the token, \<open>os\<close> is the
  error of the system call, if it fails.
\<close>

definition spawn_once ::
  "u64 \<Rightarrow> u32 \<Rightarrow> io_error option \<Rightarrow> app_ref \<Rightarrow> app_state \<Rightarrow> supervisor \<Rightarrow> unit bus_result \<times> supervisor" where
  "spawn_once ns pid os r st s =
     (let (b, token) = issue_token ns pid (sv_token_counter s) (sp_service (as_spec st)) (sv_broker s);
          s1 = s\<lparr>sv_broker := b, sv_token_counter := sv_token_counter s + 1\<rparr>
      in case os of
           Some e \<Rightarrow> (Inl (bus_error_of_io e), s1)
         | None \<Rightarrow>
             (let c = sv_n_children s1;
                  ch = \<lparr>ch_app = r, ch_command = spawn_command (sv_bus_endpoint s1) token (as_spec st),
                        ch_status = ChildRunning\<rparr>;
                  s2 = s1\<lparr>sv_children := (kill_child (as_child st) (sv_children s1))(c \<mapsto> ch),
                          sv_n_children := Suc c\<rparr>
              in (Inr (), upd_state r (\<lambda>st. st\<lparr>as_child := Some c, as_last_spawn := Some (sv_now s)\<rparr>) s2)))"

definition child_running :: "supervisor \<Rightarrow> child_id \<Rightarrow> bool" where
  "child_running s c = (case sv_children s c of None \<Rightarrow> False | Some ch \<Rightarrow> ch_status ch = ChildRunning)"

subsection \<open>Steps of the tasks\<close>

definition set_holder :: "app_ref \<Rightarrow> task_id option \<Rightarrow> supervisor \<Rightarrow> supervisor" where
  "set_holder r h s = upd_state r (\<lambda>st. st\<lparr>as_holder := h\<rparr>) s"

text \<open>The first half of an iteration, from the lock: spawn, then release, or sleep with the lock.\<close>

definition loop_spawn ::
  "task_id \<Rightarrow> string \<Rightarrow> u64 \<Rightarrow> u32 \<Rightarrow> io_error option \<Rightarrow> app_ref \<Rightarrow> app_state \<Rightarrow> supervisor \<Rightarrow> supervisor" where
  "loop_spawn i service ns pid os r st s =
     (case spawn_once ns pid os r st s of
        (Inr _, s1) \<Rightarrow> set_task i (LoopWaitLock service r) s1
      | (Inl e, s1) \<Rightarrow>
          (let (b, wait) = backoff_bump (as_backoff st)
           in set_task i (LoopFailedSleep service r wait)
                (upd_state r (\<lambda>st. st\<lparr>as_backoff := b, as_holder := Some i\<rparr>) s1)))"

text \<open>The second half: the child has exited (with success or not), the lock is released, sleep.\<close>

definition loop_exited :: "task_id \<Rightarrow> string \<Rightarrow> app_ref \<Rightarrow> bool \<Rightarrow> app_state \<Rightarrow> supervisor \<Rightarrow> supervisor" where
  "loop_exited i service r success st s =
     (let b = (if success then backoff_reset (as_backoff st) else as_backoff st);
          (b1, wait) = backoff_bump b
      in set_task i (LoopSleep service r wait)
           (upd_state r (\<lambda>st. st\<lparr>as_backoff := b1, as_holder := None\<rparr>) s))"

definition stop_with_lock :: "task_id \<Rightarrow> string \<Rightarrow> app_ref \<Rightarrow> app_state \<Rightarrow> after_stop \<Rightarrow> supervisor \<Rightarrow> supervisor" where
  "stop_with_lock i service r st after s =
     (let s1 = upd_state r (\<lambda>st. st\<lparr>as_child := None\<rparr>)
                 (s\<lparr>sv_children := kill_child (as_child st) (sv_children s)\<rparr>);
          s2 = set_task i (Finished (Inr ())) (remove_app service s1)
      in case after of ThenReplace spec \<Rightarrow> replace_finish spec s2 | ThenUnregister \<Rightarrow> s2)"

definition ensure_with_lock ::
  "task_id \<Rightarrow> u64 \<Rightarrow> u32 \<Rightarrow> io_error option \<Rightarrow> app_ref \<Rightarrow> app_state \<Rightarrow> supervisor \<Rightarrow> supervisor" where
  "ensure_with_lock i ns pid os r st s =
     (if (case as_child st of None \<Rightarrow> False | Some c \<Rightarrow> child_running s c)
      then set_task i (Finished (Inr ())) s
      else (case spawn_once ns pid os r st s of (res, s1) \<Rightarrow> set_task i (Finished res) s1))"

datatype sup_action =
    Register app_spec
  | StartAllResident
  | RegisterOrReplace app_spec
  | Unregister string
  | EnsureUp string
  | StepTask task_id u64 u32 "io_error option"
  | ChildExits child_id bool
  | SupTick nat

definition step_task ::
  "task_id \<Rightarrow> sup_task \<Rightarrow> u64 \<Rightarrow> u32 \<Rightarrow> io_error option \<Rightarrow> supervisor \<Rightarrow> supervisor option" where
  "step_task i t ns pid os s =
     (case t of
        LoopTop service \<Rightarrow>
          (case dm_get (sv_apps s) service of
             None \<Rightarrow> Some (set_task i (Finished (Inr ())) s)
           | Some r \<Rightarrow> Some (set_task i (LoopSpawnLock service r) s))
      | LoopSpawnLock service r \<Rightarrow>
          (case sv_states s r of
             None \<Rightarrow> None
           | Some st \<Rightarrow> if as_holder st = None then Some (loop_spawn i service ns pid os r st s) else None)
      | LoopFailedSleep service r wait \<Rightarrow> Some (set_task i (LoopTop service) (set_holder r None s))
      | LoopWaitLock service r \<Rightarrow>
          (case sv_states s r of
             None \<Rightarrow> None
           | Some st \<Rightarrow>
               (if as_holder st = None
                then (case as_child st of
                        None \<Rightarrow> Some (set_task i (Finished (Inr ())) s)
                      | Some c \<Rightarrow> Some (set_task i (LoopWaiting service r c) (set_holder r (Some i) s)))
                else None))
      | LoopWaiting service r c \<Rightarrow>
          (case (sv_states s r, sv_children s c) of
             (Some st, Some ch) \<Rightarrow>
               (case ch_status ch of
                  ChildRunning \<Rightarrow> None
                | ChildExited success \<Rightarrow> Some (loop_exited i service r success st s))
           | _ \<Rightarrow> None)
      | LoopSleep service r wait \<Rightarrow> Some (set_task i (LoopTop service) s)
      | StopLock service r after \<Rightarrow>
          (case sv_states s r of
             None \<Rightarrow> None
           | Some st \<Rightarrow> if as_holder st = None then Some (stop_with_lock i service r st after s) else None)
      | EnsureLock r \<Rightarrow>
          (case sv_states s r of
             None \<Rightarrow> None
           | Some st \<Rightarrow> if as_holder st = None then Some (ensure_with_lock i ns pid os r st s) else None)
      | Finished r \<Rightarrow> None)"

fun sup_act :: "sup_action \<Rightarrow> supervisor \<Rightarrow> supervisor option" where
  "sup_act (Register spec) s = Some (sup_register spec s)"
| "sup_act StartAllResident s = Some (start_all_resident s)"
| "sup_act (RegisterOrReplace spec) s = Some (register_or_replace spec s)"
| "sup_act (Unregister service) s = Some (unregister service s)"
| "sup_act (EnsureUp service) s = Some (ensure_up service s)"
| "sup_act (StepTask i ns pid os) s =
     (case sv_tasks s i of None \<Rightarrow> None | Some t \<Rightarrow> step_task i t ns pid os s)"
| "sup_act (ChildExits c success) s =
     (case sv_children s c of
        None \<Rightarrow> None
      | Some ch \<Rightarrow>
          (if ch_status ch = ChildRunning
           then Some (s\<lparr>sv_children := (sv_children s)(c \<mapsto> ch\<lparr>ch_status := ChildExited success\<rparr>)\<rparr>)
           else None))"
| "sup_act (SupTick ns) s = Some (s\<lparr>sv_now := sv_now s + ns\<rparr>)"

text \<open>
  The state of an app is dropped with the last reference to it (the map of apps, the variable
  \<open>state\<close> of a task), and its child with it.
\<close>

fun task_app :: "sup_task \<Rightarrow> app_ref option" where
  "task_app (LoopSpawnLock service r) = Some r"
| "task_app (LoopFailedSleep service r wait) = Some r"
| "task_app (LoopWaitLock service r) = Some r"
| "task_app (LoopWaiting service r c) = Some r"
| "task_app (LoopSleep service r wait) = Some r"
| "task_app (StopLock service r after) = Some r"
| "task_app (EnsureLock r) = Some r"
| "task_app t = None"

definition referenced :: "supervisor \<Rightarrow> app_ref \<Rightarrow> bool" where
  "referenced s r \<longleftrightarrow>
     r \<in> set (map snd (sv_apps s)) \<or>
     (\<exists>i \<in> {..<sv_n_tasks s}. case sv_tasks s i of None \<Rightarrow> False | Some t \<Rightarrow> task_app t = Some r)"

definition reap :: "supervisor \<Rightarrow> supervisor" where
  "reap s =
     s\<lparr>sv_children := (\<lambda>c. map_option
         (\<lambda>ch. if ch_status ch = ChildRunning \<and> \<not> referenced s (ch_app ch)
               then ch\<lparr>ch_status := ChildExited False\<rparr> else ch) (sv_children s c))\<rparr>"

definition sup_exec :: "sup_action \<Rightarrow> supervisor \<Rightarrow> supervisor option" where
  "sup_exec a s = map_option reap (sup_act a s)"

subsection \<open>Colours\<close>

definition svc_hash :: "string \<Rightarrow> u64" where
  "svc_hash name = fold (\<lambda>b h. h * 33 + word_of_nat (of_char b)) name 5381"

definition PALETTE :: "nat list" where
  "PALETTE = [36, 33, 35, 34, 96, 93, 95, 94, 37, 91]"

text \<open>The colour by the number of its escape sequence; \<open>usize\<close> is 64 bits wide.\<close>

definition svc_color :: "string \<Rightarrow> nat" where
  "svc_color name = PALETTE ! (unat (svc_hash name) mod length PALETTE)"

subsection \<open>Invariants\<close>

type_synonym tasks_map = "task_id \<Rightarrow> sup_task option"
type_synonym states_map = "app_ref \<Rightarrow> app_state option"
type_synonym children_map = "child_id \<Rightarrow> child option"

fun holds :: "sup_task \<Rightarrow> app_ref option" where
  "holds (LoopFailedSleep service r wait) = Some r"
| "holds (LoopWaiting service r c) = Some r"
| "holds t = None"

text \<open>A task that holds a lock is the holder in the state, and the child it waits on is there.\<close>

definition held_by :: "states_map \<Rightarrow> task_id \<Rightarrow> sup_task \<Rightarrow> app_ref \<Rightarrow> bool" where
  "held_by sts i t r \<longleftrightarrow>
     (\<exists>st. sts r = Some st \<and> as_holder st = Some i \<and>
        (\<forall>service c. t = LoopWaiting service r c \<longrightarrow> as_child st = Some c))"

definition lock_ok :: "tasks_map \<Rightarrow> states_map \<Rightarrow> bool" where
  "lock_ok ts sts \<longleftrightarrow> (\<forall>i t r. ts i = Some t \<longrightarrow> holds t = Some r \<longrightarrow> held_by sts i t r)"

text \<open>A running process is the child of the app it was started for.\<close>

definition owned_ok :: "children_map \<Rightarrow> states_map \<Rightarrow> bool" where
  "owned_ok children states \<longleftrightarrow>
     (\<forall>c ch. children c = Some ch \<and> ch_status ch = ChildRunning \<longrightarrow>
        (\<exists>st. states (ch_app ch) = Some st \<and> as_child st = Some c)) \<and>
     (\<forall>r st c. states r = Some st \<and> as_child st = Some c \<longrightarrow> (\<exists>ch. children c = Some ch \<and> ch_app ch = r))"

definition fresh_ok :: "supervisor \<Rightarrow> bool" where
  "fresh_ok s \<longleftrightarrow>
     (\<forall>i. sv_n_tasks s \<le> i \<longrightarrow> sv_tasks s i = None) \<and> (\<forall>r. sv_n_states s \<le> r \<longrightarrow> sv_states s r = None) \<and>
     (\<forall>c. sv_n_children s \<le> c \<longrightarrow> sv_children s c = None)"

definition sup_inv :: "supervisor \<Rightarrow> bool" where
  "sup_inv s \<longleftrightarrow> lock_ok (sv_tasks s) (sv_states s) \<and> owned_ok (sv_children s) (sv_states s) \<and> fresh_ok s"

subsection \<open>A run\<close>

definition demo_app :: app_spec where
  "demo_app =
     \<lparr>sp_service = ''app'', sp_binary = ''/bin/app'', sp_args = [], sp_env = [], sp_lifecycle = Resident,
      sp_working_dir = None\<rparr>"

definition demo_replace :: "sup_action list" where
  "demo_replace =
     [Register demo_app, StartAllResident, StepTask 0 5 7 None, StepTask 0 5 7 None, StepTask 0 5 7 None,
      RegisterOrReplace demo_app]"

section \<open>Lemmas\<close>

subsection \<open>Locks\<close>

lemma held_by_other: "q \<noteq> r \<Longrightarrow> held_by (sts(r := st)) i t q \<longleftrightarrow> held_by sts i t q"
  by (simp add: held_by_def)

lemma held_by_holder: "held_by sts i t r \<Longrightarrow> sts r = Some st \<Longrightarrow> as_holder st = Some i"
  by (auto simp: held_by_def)

lemma lock_ok_task: "lock_ok ts sts \<Longrightarrow> holds t = None \<Longrightarrow> lock_ok (ts(i \<mapsto> t)) sts"
  by (auto simp: lock_ok_def)

lemma lock_ok_state:
  assumes "lock_ok ts sts" "sts r = Some st" "as_holder st' = as_holder st"
    "as_holder st = None \<or> as_child st' = as_child st"
  shows "lock_ok ts (sts(r \<mapsto> st'))"
  unfolding lock_ok_def
proof (intro allI impI)
  fix i t q assume "ts i = Some t" "holds t = Some q"
  with assms(1) have "held_by sts i t q" by (simp add: lock_ok_def)
  with assms(2-4) show "held_by (sts(r \<mapsto> st')) i t q"
    by (cases "q = r") (auto simp: held_by_def)
qed

lemma lock_ok_new:
  assumes "lock_ok ts sts" "sts r = None"
  shows "lock_ok ts (sts(r \<mapsto> st))"
  using assms unfolding lock_ok_def held_by_def by (metis fun_upd_other option.distinct(1))

lemma lock_ok_acquire:
  assumes "lock_ok ts sts" "sts r = Some st" "as_holder st = None" "as_holder st' = Some i"
    "holds t = Some r" "\<And>service c. t = LoopWaiting service r c \<Longrightarrow> as_child st' = Some c"
  shows "lock_ok (ts(i \<mapsto> t)) (sts(r \<mapsto> st'))"
  unfolding lock_ok_def
proof (intro allI impI)
  fix j u q assume u: "(ts(i \<mapsto> t)) j = Some u" "holds u = Some q"
  show "held_by (sts(r \<mapsto> st')) j u q"
  proof (cases "j = i")
    case True
    with u assms(4-6) show ?thesis by (auto simp: held_by_def)
  next
    case False
    with u assms(1) have old: "held_by sts j u q" by (simp add: lock_ok_def)
    with assms(2,3) have "q \<noteq> r" using held_by_holder by fastforce
    with old show ?thesis by (simp add: held_by_other)
  qed
qed

lemma lock_ok_release:
  assumes "lock_ok ts sts" "ts i = Some t" "holds t = Some r" "holds t' = None"
  shows "lock_ok (ts(i \<mapsto> t')) (sts(r \<mapsto> st'))"
  unfolding lock_ok_def
proof (intro allI impI)
  fix j u q assume u: "(ts(i \<mapsto> t')) j = Some u" "holds u = Some q"
  with assms(4) have "j \<noteq> i" by auto
  with u assms(1) have old: "held_by sts j u q" by (simp add: lock_ok_def)
  have "held_by sts i t r" using assms(1-3) by (simp add: lock_ok_def)
  with old \<open>j \<noteq> i\<close> have "q \<noteq> r" by (auto simp: held_by_def)
  with old show "held_by (sts(r \<mapsto> st')) j u q" by (simp add: held_by_other)
qed

subsection \<open>Processes\<close>

lemma owned_okI:
  assumes "\<And>c ch. chs c = Some ch \<Longrightarrow> ch_status ch = ChildRunning \<Longrightarrow>
      \<exists>st. sts (ch_app ch) = Some st \<and> as_child st = Some c"
    and "\<And>r st c. sts r = Some st \<Longrightarrow> as_child st = Some c \<Longrightarrow> \<exists>ch. chs c = Some ch \<and> ch_app ch = r"
  shows "owned_ok chs sts"
  using assms by (simp add: owned_ok_def)

lemma owned_okD:
  assumes "owned_ok chs sts"
  shows "chs c = Some ch \<Longrightarrow> ch_status ch = ChildRunning \<Longrightarrow>
      \<exists>st. sts (ch_app ch) = Some st \<and> as_child st = Some c"
    and "sts r = Some st \<Longrightarrow> as_child st = Some c \<Longrightarrow> \<exists>ch. chs c = Some ch \<and> ch_app ch = r"
  using assms by (simp_all add: owned_ok_def)

lemma owned_ok_state:
  assumes "owned_ok chs sts" "sts r = Some st" "as_child st' = as_child st"
  shows "owned_ok chs (sts(r \<mapsto> st'))"
proof (rule owned_okI)
  fix c ch assume "chs c = Some ch" "ch_status ch = ChildRunning"
  from owned_okD(1) [OF assms(1) this] assms(2,3)
  show "\<exists>st. (sts(r \<mapsto> st')) (ch_app ch) = Some st \<and> as_child st = Some c" by auto
next
  fix q u c assume "(sts(r \<mapsto> st')) q = Some u" "as_child u = Some c"
  with assms(2,3) show "\<exists>ch. chs c = Some ch \<and> ch_app ch = q"
    using owned_okD(2) [OF assms(1)] by (cases "q = r") auto
qed

lemma owned_ok_new:
  assumes "owned_ok chs sts" "sts r = None" "as_child st = None"
  shows "owned_ok chs (sts(r \<mapsto> st))"
proof (rule owned_okI)
  fix c ch assume "chs c = Some ch" "ch_status ch = ChildRunning"
  from owned_okD(1) [OF assms(1) this] assms(2)
  show "\<exists>u. (sts(r \<mapsto> st)) (ch_app ch) = Some u \<and> as_child u = Some c" by (metis fun_upd_other option.distinct(1))
next
  fix q u c assume "(sts(r \<mapsto> st)) q = Some u" "as_child u = Some c"
  with assms(3) show "\<exists>ch. chs c = Some ch \<and> ch_app ch = q"
    using owned_okD(2) [OF assms(1)] by (cases "q = r") auto
qed

lemma owned_ok_less:
  assumes "owned_ok chs sts"
    and "\<And>c. map_option ch_app (chs' c) = map_option ch_app (chs c)"
    and "\<And>c ch'. chs' c = Some ch' \<Longrightarrow> ch_status ch' = ChildRunning \<Longrightarrow> chs c = Some ch'"
  shows "owned_ok chs' sts"
proof (rule owned_okI)
  fix c ch assume ch: "chs' c = Some ch" "ch_status ch = ChildRunning"
  from owned_okD(1) [OF assms(1) assms(3) [OF this] ch(2)]
  show "\<exists>st. sts (ch_app ch) = Some st \<and> as_child st = Some c" .
next
  fix r st c assume "sts r = Some st" "as_child st = Some c"
  from owned_okD(2) [OF assms(1) this] obtain ch where "chs c = Some ch" "ch_app ch = r" by blast
  with assms(2) [of c] show "\<exists>ch. chs' c = Some ch \<and> ch_app ch = r" by (cases "chs' c") auto
qed

lemma kill_child_app: "map_option ch_app (kill_child c chs d) = map_option ch_app (chs d)"
  by (cases "chs d") (auto simp: kill_child_def split: option.splits)

lemma kill_child_None [simp]: "kill_child c chs d = None \<longleftrightarrow> chs d = None"
  using kill_child_app [of c chs d] by (metis option.map_disc_iff)

lemma kill_child_running:
  assumes "kill_child c chs d = Some ch" "ch_status ch = ChildRunning"
  shows "chs d = Some ch" "c \<noteq> Some d"
proof -
  have "c \<noteq> Some d"
  proof
    assume "c = Some d"
    with assms show False by (cases "chs d") (auto simp: kill_child_def split: if_splits)
  qed
  with assms(1) show "chs d = Some ch" by (auto simp: kill_child_def split: option.splits if_splits)
  show "c \<noteq> Some d" by fact
qed

lemma owned_ok_kill:
  assumes "owned_ok chs sts" "sts r = Some st" "as_child st' = None"
  shows "owned_ok (kill_child (as_child st) chs) (sts(r \<mapsto> st'))"
proof (rule owned_okI)
  fix c ch assume ch: "kill_child (as_child st) chs c = Some ch" "ch_status ch = ChildRunning"
  from owned_okD(1) [OF assms(1) kill_child_running(1) [OF ch] ch(2)]
  obtain u where u: "sts (ch_app ch) = Some u" "as_child u = Some c" by blast
  with assms(2) kill_child_running(2) [OF ch] have "ch_app ch \<noteq> r" by auto
  with u show "\<exists>u. (sts(r \<mapsto> st')) (ch_app ch) = Some u \<and> as_child u = Some c" by simp
next
  fix q u c assume q: "(sts(r \<mapsto> st')) q = Some u" "as_child u = Some c"
  with assms(3) have "q \<noteq> r" by auto
  with q owned_okD(2) [OF assms(1), of q u c] obtain ch where "chs c = Some ch" "ch_app ch = q" by auto
  with kill_child_app [of "as_child st" chs c]
  show "\<exists>ch. kill_child (as_child st) chs c = Some ch \<and> ch_app ch = q" by (cases "kill_child (as_child st) chs c") auto
qed

lemma owned_ok_start:
  assumes "owned_ok chs (sts(r \<mapsto> st))" "as_child st = None" "chs c = None" "ch_app ch = r" "as_child st' = Some c"
  shows "owned_ok (chs(c \<mapsto> ch)) (sts(r \<mapsto> st'))"
proof (rule owned_okI)
  fix d dh assume d: "(chs(c \<mapsto> ch)) d = Some dh" "ch_status dh = ChildRunning"
  show "\<exists>u. (sts(r \<mapsto> st')) (ch_app dh) = Some u \<and> as_child u = Some d"
  proof (cases "d = c")
    case True
    with d assms(4,5) show ?thesis by auto
  next
    case False
    with d owned_okD(1) [OF assms(1), of d dh] assms(2) show ?thesis by (auto split: if_splits)
  qed
next
  fix q u d assume q: "(sts(r \<mapsto> st')) q = Some u" "as_child u = Some d"
  show "\<exists>dh. (chs(c \<mapsto> ch)) d = Some dh \<and> ch_app dh = q"
  proof (cases "q = r")
    case True
    with q assms(4,5) show ?thesis by auto
  next
    case False
    with q owned_okD(2) [OF assms(1), of q u d] assms(3) show ?thesis by auto
  qed
qed

subsection \<open>Every action\<close>

lemma sup_inv_views: "sup_inv s \<Longrightarrow> lock_ok (sv_tasks s) (sv_states s)" "sup_inv s \<Longrightarrow> owned_ok (sv_children s) (sv_states s)"
  "sup_inv s \<Longrightarrow> fresh_ok s"
  by (simp_all add: sup_inv_def)

lemma sup_inv_reap:
  assumes "sup_inv s"
  shows "sup_inv (reap s)"
proof -
  have "owned_ok (sv_children (reap s)) (sv_states s)"
    by (rule owned_ok_less [OF sup_inv_views(2) [OF assms]])
      (auto simp: reap_def option.map_comp comp_def split: if_splits intro!: option.map_cong)
  with assms show ?thesis by (auto simp: sup_inv_def reap_def fresh_ok_def)
qed

lemma sup_inv_spawn: "sup_inv s \<Longrightarrow> holds t = None \<Longrightarrow> sup_inv (sup_spawn t s)"
  by (auto simp: sup_inv_def sup_spawn_def fresh_ok_def lock_ok_task)

lemma sup_inv_task: "sup_inv s \<Longrightarrow> holds t = None \<Longrightarrow> sv_tasks s i = Some u \<Longrightarrow> sup_inv (set_task i t s)"
  by (auto simp: sup_inv_def set_task_def fresh_ok_def lock_ok_task)

lemma sup_inv_register: "sup_inv s \<Longrightarrow> sup_inv (sup_register spec s)"
  by (auto simp: sup_inv_def sup_register_def fresh_ok_def lock_ok_new owned_ok_new)

lemma sup_inv_apps: "sup_inv s \<Longrightarrow> sup_inv (s\<lparr>sv_apps := m\<rparr>)"
  by (simp add: sup_inv_def fresh_ok_def)

lemma sup_inv_start_loops: "sup_inv s \<Longrightarrow> sup_inv (start_loops l s)"
  by (induction l s rule: start_loops.induct) (auto simp: sup_inv_spawn split: option.splits)

lemma sup_inv_replace_finish: "sup_inv s \<Longrightarrow> sup_inv (replace_finish spec s)"
  by (simp add: replace_finish_def Let_def sup_inv_register sup_inv_spawn)

lemma spawn_once_failed:
  assumes "spawn_once ns pid os r st s = (Inl e, t)"
  shows "sv_states t = sv_states s" "sv_tasks t = sv_tasks s" "sv_children t = sv_children s"
    "sv_n_states t = sv_n_states s" "sv_n_tasks t = sv_n_tasks s" "sv_n_children t = sv_n_children s"
  using assms by (auto simp: spawn_once_def Let_def split: option.splits prod.splits)

lemma sup_inv_spawn_once:
  assumes "sup_inv s" "sv_states s r = Some st" "as_holder st = None" "spawn_once ns pid os r st s = (Inr u, t)"
  shows "sup_inv t" "sv_tasks t = sv_tasks s"
proof -
  let ?n = "sv_n_children s" and ?chs = "kill_child (as_child st) (sv_children s)"
  let ?st' = "st\<lparr>as_child := Some ?n, as_last_spawn := Some (sv_now s)\<rparr>"
  obtain ch where t: "sv_tasks t = sv_tasks s" "sv_n_tasks t = sv_n_tasks s" "sv_n_states t = sv_n_states s"
    "sv_n_children t = Suc ?n" "sv_children t = ?chs(?n \<mapsto> ch)" "ch_app ch = r"
    "sv_states t = (sv_states s)(r \<mapsto> ?st')"
    using assms(2,4) by (auto simp: spawn_once_def Let_def upd_state_def split: option.splits prod.splits)
  have "?chs ?n = None"
    using sup_inv_views(3) [OF assms(1)] by (simp add: fresh_ok_def)
  moreover have "owned_ok ?chs ((sv_states s)(r \<mapsto> st\<lparr>as_child := None\<rparr>))"
    by (rule owned_ok_kill [OF sup_inv_views(2) [OF assms(1)] assms(2)]) simp
  ultimately have "owned_ok (sv_children t) (sv_states t)"
    using t(6) unfolding t(5,7) by (intro owned_ok_start [where st = "st\<lparr>as_child := None\<rparr>"]) simp_all
  moreover have "lock_ok (sv_tasks t) (sv_states t)"
    unfolding t(1,7) by (rule lock_ok_state [OF sup_inv_views(1) [OF assms(1)] assms(2)]) (simp_all add: assms(3))
  moreover have "fresh_ok t"
    using sup_inv_views(3) [OF assms(1)] assms(2) by (auto simp: fresh_ok_def t)
  ultimately show "sup_inv t" "sv_tasks t = sv_tasks s" using t(1) by (simp_all add: sup_inv_def)
qed

lemma sup_inv_loop_spawn:
  assumes "sup_inv s" "sv_states s r = Some st" "as_holder st = None" "sv_tasks s i = Some u"
  shows "sup_inv (loop_spawn i service ns pid os r st s)"
proof (cases "spawn_once ns pid os r st s")
  case (Pair res t)
  show ?thesis
  proof (cases res)
    case (Inr u)
    from sup_inv_spawn_once [OF assms(1-3) Pair [unfolded Inr]] assms(4) Pair Inr show ?thesis
      by (auto simp: loop_spawn_def sup_inv_task)
  next
    case (Inl e)
    note t = spawn_once_failed [OF Pair [unfolded Inl]]
    obtain b wait where b: "backoff_bump (as_backoff st) = (b, wait)" by fastforce
    let ?st' = "st\<lparr>as_backoff := b, as_holder := Some i\<rparr>"
    have "lock_ok ((sv_tasks s)(i \<mapsto> LoopFailedSleep service r wait)) ((sv_states s)(r \<mapsto> ?st'))"
      by (rule lock_ok_acquire [OF sup_inv_views(1) [OF assms(1)] assms(2,3)]) simp_all
    moreover have "owned_ok (sv_children s) ((sv_states s)(r \<mapsto> ?st'))"
      by (rule owned_ok_state [OF sup_inv_views(2) [OF assms(1)] assms(2)]) simp
    ultimately show ?thesis
      using sup_inv_views(3) [OF assms(1)] assms(2,4) Pair Inl b t
      by (auto simp: loop_spawn_def set_task_def upd_state_def sup_inv_def fresh_ok_def)
  qed
qed

lemma sup_inv_release:
  assumes "sup_inv s" "sv_tasks s i = Some t" "holds t = Some r" "holds t' = None" "sv_states s r = Some st"
    "as_child (f st) = as_child st"
  shows "sup_inv (set_task i t' (upd_state r f s))"
  using lock_ok_release [OF sup_inv_views(1) [OF assms(1)] assms(2-4), of "f st"]
    owned_ok_state [OF sup_inv_views(2) [OF assms(1)] assms(5,6)] sup_inv_views(3) [OF assms(1)] assms(2,5)
  by (auto simp: sup_inv_def set_task_def upd_state_def fresh_ok_def)

lemma sup_inv_stop:
  assumes "sup_inv s" "sv_states s r = Some st" "as_holder st = None" "sv_tasks s i = Some u"
  shows "sup_inv (stop_with_lock i service r st after s)"
proof -
  let ?s = "upd_state r (\<lambda>st. st\<lparr>as_child := None\<rparr>) (s\<lparr>sv_children := kill_child (as_child st) (sv_children s)\<rparr>)"
  have "sup_inv ?s"
    using lock_ok_state [OF sup_inv_views(1) [OF assms(1)] assms(2), of "st\<lparr>as_child := None\<rparr>"]
      owned_ok_kill [OF sup_inv_views(2) [OF assms(1)] assms(2), of "st\<lparr>as_child := None\<rparr>"]
      sup_inv_views(3) [OF assms(1)] assms(2,3)
    by (auto simp: sup_inv_def upd_state_def fresh_ok_def)
  then have "sup_inv (set_task i (Finished (Inr ())) (remove_app service ?s))"
    using assms(4) by (intro sup_inv_task) (auto simp: remove_app_def sup_inv_apps upd_state_def)
  then show ?thesis by (auto simp: stop_with_lock_def Let_def sup_inv_replace_finish split: after_stop.splits)
qed

lemma sup_inv_ensure:
  assumes "sup_inv s" "sv_states s r = Some st" "as_holder st = None" "sv_tasks s i = Some u"
  shows "sup_inv (ensure_with_lock i ns pid os r st s)"
proof (cases "spawn_once ns pid os r st s")
  case (Pair res t)
  have "sup_inv t \<and> sv_tasks t = sv_tasks s"
  proof (cases res)
    case (Inr u)
    from sup_inv_spawn_once [OF assms(1-3) Pair [unfolded Inr]] show ?thesis by simp
  next
    case (Inl e)
    from spawn_once_failed [OF Pair [unfolded Inl]] assms(1) show ?thesis
      by (simp add: sup_inv_def fresh_ok_def)
  qed
  with Pair assms(1,4) show ?thesis
    by (auto simp: ensure_with_lock_def intro!: sup_inv_task)
qed

lemma sup_inv_wait_lock:
  assumes "sup_inv s" "sv_states s r = Some st" "as_holder st = None" "sv_tasks s i = Some u" "as_child st = Some c"
  shows "sup_inv (set_task i (LoopWaiting service r c) (set_holder r (Some i) s))"
proof -
  let ?st' = "st\<lparr>as_holder := Some i\<rparr>"
  have "lock_ok ((sv_tasks s)(i \<mapsto> LoopWaiting service r c)) ((sv_states s)(r \<mapsto> ?st'))"
    by (rule lock_ok_acquire [OF sup_inv_views(1) [OF assms(1)] assms(2,3)]) (simp_all add: assms(5))
  moreover have "owned_ok (sv_children s) ((sv_states s)(r \<mapsto> ?st'))"
    by (rule owned_ok_state [OF sup_inv_views(2) [OF assms(1)] assms(2)]) simp
  ultimately show ?thesis
    using sup_inv_views(3) [OF assms(1)] assms(2,4)
    by (auto simp: set_task_def set_holder_def upd_state_def sup_inv_def fresh_ok_def)
qed

lemma sup_inv_step:
  assumes "sup_inv s" "sv_tasks s i = Some t" "step_task i t ns pid os s = Some s'"
  shows "sup_inv s'"
proof (cases t)
  case (LoopFailedSleep service r wait)
  then have "held_by (sv_states s) i t r"
    using sup_inv_views(1) [OF assms(1)] assms(2) by (simp add: lock_ok_def)
  then obtain st where "sv_states s r = Some st" by (auto simp: held_by_def)
  with assms LoopFailedSleep show ?thesis
    by (auto simp: step_task_def set_holder_def intro!: sup_inv_release)
next
  case (LoopWaiting service r c)
  with assms show ?thesis
    by (auto simp: step_task_def loop_exited_def Let_def backoff_bump_def
        intro!: sup_inv_release split: option.splits child_status.splits)
next
  case (LoopWaitLock service r)
  with assms(2,3) obtain st where st: "sv_states s r = Some st" "as_holder st = None"
    and s': "s' = (case as_child st of None \<Rightarrow> set_task i (Finished (Inr ())) s
               | Some c \<Rightarrow> set_task i (LoopWaiting service r c) (set_holder r (Some i) s))"
    by (auto simp: step_task_def split: option.splits if_splits)
  show ?thesis
    unfolding s' using sup_inv_wait_lock [OF assms(1) st assms(2)] sup_inv_task [OF assms(1) _ assms(2)]
    by (auto split: option.splits)
qed (use assms in \<open>auto simp: step_task_def intro!: sup_inv_task sup_inv_loop_spawn sup_inv_stop sup_inv_ensure
      split: option.splits if_splits\<close>)

lemma sup_inv_exec:
  assumes "sup_inv s" "sup_exec a s = Some t"
  shows "sup_inv t"
proof -
  from assms(2) obtain u where u: "sup_act a s = Some u" "t = reap u" by (auto simp: sup_exec_def)
  have "sup_inv u"
  proof (cases a)
    case (ChildExits c success)
    with u(1) obtain ch where ch: "sv_children s c = Some ch"
      "u = s\<lparr>sv_children := (sv_children s)(c \<mapsto> ch\<lparr>ch_status := ChildExited success\<rparr>)\<rparr>"
      by (auto split: option.splits if_splits)
    have "owned_ok (sv_children u) (sv_states s)"
      by (rule owned_ok_less [OF sup_inv_views(2) [OF assms(1)]]) (use ch in \<open>auto split: if_splits\<close>)
    with assms(1) ch show ?thesis by (auto simp: sup_inv_def fresh_ok_def)
  next
    case (SupTick ns)
    with assms(1) u(1) show ?thesis by (auto simp: sup_inv_def fresh_ok_def)
  qed (use assms(1) u(1) in \<open>auto simp: sup_inv_register start_all_resident_def sup_inv_start_loops
        register_or_replace_def unregister_def ensure_up_def
        intro!: sup_inv_spawn sup_inv_replace_finish intro: sup_inv_step split: option.splits\<close>)
  with u(2) sup_inv_reap show ?thesis by simp
qed

lemma sup_inv_new: "sup_inv (supervisor_new b endpoint)"
  by (simp add: sup_inv_def supervisor_new_def lock_ok_def owned_ok_def fresh_ok_def)

interpretation sup: guarded_system sup_exec "\<lambda>n. sup_inv" horizon "supervisor_new b endpoint" for horizon b endpoint
  by unfold_locales (rule sup_inv_exec, assumption+, rule sup_inv_new)

subsection \<open>The environment of a process\<close>

lemma fold_env_other:
  "k \<notin> fst ` set env \<Longrightarrow> dm_get (fold (\<lambda>(k, v) m. dm_insert k v m) env m) k = dm_get m k"
  by (induction env arbitrary: m) auto

lemma spawn_command_env:
  assumes "''TOKIMO_BUS_SOCKET'' \<notin> fst ` set (sp_env spec)" "''TOKIMO_BUS_TOKEN'' \<notin> fst ` set (sp_env spec)"
    "''TOKIMO_BUS_IDLE_MS'' \<notin> fst ` set (sp_env spec)"
  shows "dm_get (cmd_env (spawn_command endpoint token spec)) ''TOKIMO_BUS_SOCKET'' = Some endpoint"
    "dm_get (cmd_env (spawn_command endpoint token spec)) ''TOKIMO_BUS_TOKEN'' = Some token"
    "dm_get (cmd_env (spawn_command endpoint token spec)) ''TOKIMO_BUS_IDLE_MS'' =
       Some (show_nat (unat (idle_ms (sp_lifecycle spec))))"
  using assms by (simp_all add: spawn_command_def fold_env_other)

subsection \<open>A run\<close>

lemmas sup_eval =
  sup_exec_def step_task_def supervisor_new_def sup_register_def start_all_resident_def sup_spawn_def
  set_task_def upd_state_def set_holder_def loop_spawn_def loop_exited_def spawn_once_def issue_token_def
  stop_with_lock_def replace_finish_def remove_app_def register_or_replace_def unregister_def ensure_up_def
  ensure_with_lock_def kill_child_def child_running_def reap_def referenced_def is_resident_def demo_app_def
  demo_replace_def dm_get_def dm_insert_def dm_remove_def Let_def lessThan_Suc

lemma demo_replace_state:
  "\<exists>s. run_actions sup_exec demo_replace (supervisor_new (broker_new broker_config_default) ''bus'') = Some s \<and>
     sv_tasks s 0 = Some (LoopWaiting ''app'' 0 0) \<and>
     sv_tasks s 1 = Some (StopLock ''app'' 0 (ThenReplace demo_app)) \<and>
     (\<exists>ch. sv_children s 0 = Some ch \<and> ch_status ch = ChildRunning)"
  by (simp add: sup_eval)

section \<open>Theorems\<close>

text \<open>
  The restart delays are 1, 2, 4, \<dots> seconds up to five minutes: the n-th delay after a reset is
  the smaller of \<open>2 ^ n\<close> seconds and 300 seconds.
\<close>

theorem backoff_sequence:
  "snd (backoff_bump (((fst \<circ> backoff_bump) ^^ n) (backoff_reset b))) = duration_from_secs (min (2 ^ n) 300)"
proof -
  have "bo_next (((fst \<circ> backoff_bump) ^^ n) (backoff_reset b)) = duration_from_secs (min (2 ^ n) 300)"
    by (induction n) (auto simp: backoff_bump_def backoff_reset_def duration_from_secs_def duration_mul_def min_def)
  then show ?thesis by (simp add: backoff_bump_def)
qed



text \<open>
  C28. Stopping a resident app waits for it to exit by itself: in every reachable state, while the
  restart loop of an app waits for its running process, it holds the lock of the app, and neither
  \<open>unregister\<close> nor \<open>register_or_replace\<close> (which stop the app first) nor \<open>ensure_up\<close> can take its
  next step. The process is not killed by them.
\<close>

theorem resident_app_blocks_stop:
  assumes "run_actions sup_exec as (supervisor_new b endpoint) = Some s"
    and "sv_tasks s i = Some (LoopWaiting service r c)"
    and "sv_tasks s j = Some (StopLock other r after) \<or> sv_tasks s j = Some (EnsureLock r)"
  shows "sup_exec (StepTask j ns pid os) s = None"
proof -
  have "sup_inv s" using sup.inv_run [where horizon = "length as", OF _ assms(1)] by simp
  then have "held_by (sv_states s) i (LoopWaiting service r c) r"
    using assms(2) sup_inv_views(1) by (simp add: lock_ok_def)
  then obtain st where "sv_states s r = Some st" "as_holder st = Some i" by (auto simp: held_by_def)
  with assms(3) show ?thesis by (auto simp: sup_exec_def step_task_def)
qed

theorem resident_app_blocks_stop_witness:
  "\<exists>s ch. run_actions sup_exec demo_replace (supervisor_new (broker_new broker_config_default) ''bus'') = Some s \<and>
     sv_children s 0 = Some ch \<and> ch_status ch = ChildRunning \<and> sup_exec (StepTask 1 5 7 None) s = None"
  using resident_app_blocks_stop [where as = demo_replace and i = 0 and j = 1] demo_replace_state by blast

text \<open>
  C29. Replacing a resident app leaves its old restart loop running: when \<open>register_or_replace\<close> gets
  the lock while the old loop sleeps before a restart, the old loop goes on with the new app, and
  a second loop has been started for it.
\<close>

theorem replace_duplicates_loop:
  assumes "run_actions sup_exec as (supervisor_new b endpoint) = Some s"
    and "sv_tasks s i = Some (LoopSleep service r wait)"
    and "sv_tasks s j = Some (StopLock service r (ThenReplace spec))"
    and "sp_service spec = service" "is_resident spec" "sv_states s r = Some st" "as_holder st = None"
  shows "\<exists>t u. sup_exec (StepTask j ns pid os) s = Some t \<and> sup_exec (StepTask i ns pid os) t = Some u \<and>
    sv_tasks u i = Some (LoopTop service) \<and> sv_tasks u (sv_n_tasks s) = Some (LoopTop service) \<and>
    i \<noteq> sv_n_tasks s \<and> dm_get (sv_apps u) service = Some (sv_n_states s)"
proof -
  have "sup_inv s" using sup.inv_run [where horizon = "length as", OF _ assms(1)] by simp
  then have "i \<noteq> sv_n_tasks s" using assms(2) by (auto simp: sup_inv_def fresh_ok_def)
  moreover have "i \<noteq> j" using assms(2,3) by auto
  ultimately show ?thesis
    using assms(2-7)
    by (simp add: sup_exec_def step_task_def stop_with_lock_def replace_finish_def sup_register_def sup_spawn_def
        remove_app_def set_task_def upd_state_def reap_def Let_def)
qed

theorem replace_duplicates_loop_witness:
  "\<exists>s. run_actions sup_exec (demo_replace @ [ChildExits 0 False, StepTask 0 5 7 None])
          (supervisor_new (broker_new broker_config_default) ''bus'') = Some s \<and>
     (\<exists>t u. sup_exec (StepTask 1 5 7 None) s = Some t \<and> sup_exec (StepTask 0 5 7 None) t = Some u \<and>
        sv_tasks u 0 = Some (LoopTop ''app'') \<and> sv_tasks u 2 = Some (LoopTop ''app''))"
proof -
  have "\<exists>s wait st. run_actions sup_exec (demo_replace @ [ChildExits 0 False, StepTask 0 5 7 None])
          (supervisor_new (broker_new broker_config_default) ''bus'') = Some s \<and>
      sv_tasks s 0 = Some (LoopSleep ''app'' 0 wait) \<and>
      sv_tasks s 1 = Some (StopLock ''app'' 0 (ThenReplace demo_app)) \<and>
      sv_states s 0 = Some st \<and> as_holder st = None \<and> sv_n_tasks s = 2"
    by (simp add: sup_eval backoff_bump_def)
  then obtain s wait st where s:
    "run_actions sup_exec (demo_replace @ [ChildExits 0 False, StepTask 0 5 7 None])
       (supervisor_new (broker_new broker_config_default) ''bus'') = Some s"
    "sv_tasks s 0 = Some (LoopSleep ''app'' 0 wait)" "sv_tasks s 1 = Some (StopLock ''app'' 0 (ThenReplace demo_app))"
    "sv_states s 0 = Some st" "as_holder st = None" "sv_n_tasks s = 2" by blast
  have spec: "sp_service demo_app = ''app''" "is_resident demo_app" by (simp_all add: demo_app_def is_resident_def)
  from replace_duplicates_loop [OF s(1-3) spec s(4,5)] s(1,6) show ?thesis by metis
qed

end
