(* ===== verification/Host.thy ===== *)
theory Host
  imports At_Most_Once Supervisor
begin

text \<open>
  The host program: the supervisor of \<open>crates/supervisor\<close> and the broker with its apps (\<open>Network\<close>)
  around one broker, which they share by \<open>Arc\<close>. A step is a step of the supervisor, which sees and
  changes the broker of the bus, or one of the network; tokens are issued by the supervisor alone.

  The theorems: every run of the host is a run of the network, so whatever holds of all of those
  holds here; every connection that is accepted belongs to one spawn, of an app of its service; and a
  resident app whose process dies is started again and its new process becomes the service.
\<close>

section \<open>Definitions\<close>

record host =
  ho_sup :: supervisor
  ho_net :: net

definition host_init :: "broker_config \<Rightarrow> string \<Rightarrow> host" where
  "host_init config endpoint =
     \<lparr>ho_sup = supervisor_new (broker_new config) endpoint, ho_net = net_init config\<rparr>"

text \<open>The supervisor with the broker that it shares, and the network after a step of the supervisor.\<close>

definition sup_view :: "host \<Rightarrow> supervisor" where
  "sup_view h =
     (ho_sup h)\<lparr>sv_broker := bus_broker (nt_bus (ho_net h)), sv_token_counter := bus_token_counter (nt_bus (ho_net h))\<rparr>"

definition net_view :: "supervisor \<Rightarrow> net \<Rightarrow> net" where
  "net_view u n =
     n\<lparr>nt_bus := (nt_bus n)\<lparr>bus_broker := sv_broker u, bus_token_counter := sv_token_counter u\<rparr>\<rparr>"

datatype host_action = HostSup sup_action | HostNet net_action

fun issues_token :: "net_action \<Rightarrow> bool" where
  "issues_token (NetBus (IssueToken service ns pid)) = True"
| "issues_token a = False"

fun host_exec ::
  "(bytes \<Rightarrow> capability_response option) \<Rightarrow> (bus_frame \<Rightarrow> string) \<Rightarrow> host_action \<Rightarrow> host \<Rightarrow> host option" where
  "host_exec json debug (HostSup a) h =
     map_option (\<lambda>u. \<lparr>ho_sup = u, ho_net = net_view u (ho_net h)\<rparr>) (sup_exec a (sup_view h))"
| "host_exec json debug (HostNet a) h =
     (if issues_token a then None else map_option (\<lambda>n. h\<lparr>ho_net := n\<rparr>) (net_exec json debug a (ho_net h)))"

subsection \<open>Spawns\<close>

text \<open>An attempt to start a process: the token made for it, and the process, if it started.\<close>

record spawn =
  sw_service :: string
  sw_token :: string
  sw_child :: "child_id option"

definition note_spawn :: "sup_action \<Rightarrow> supervisor \<Rightarrow> supervisor \<Rightarrow> spawn list" where
  "note_spawn a s t =
     (case a of
        StepTask i ns pid os \<Rightarrow>
          (case Option.bind (Option.bind (sv_tasks s i) task_app) (sv_states s) of
             Some st \<Rightarrow>
               (if sv_token_counter t = sv_token_counter s then []
                else [\<lparr>sw_service = sp_service (as_spec st), sw_token = random_token ns pid (sv_token_counter s),
                       sw_child = (if os = None then Some (sv_n_children s) else None)\<rparr>])
           | None \<Rightarrow> [])
      | _ \<Rightarrow> [])"

fun host_log ::
  "(bytes \<Rightarrow> capability_response option) \<Rightarrow> (bus_frame \<Rightarrow> string) \<Rightarrow> host_action \<Rightarrow> host \<times> spawn list \<Rightarrow> (host \<times> spawn list) option" where
  "host_log json debug (HostSup a) (h, ws) =
     map_option (\<lambda>t. (t, ws @ note_spawn a (sup_view h) (ho_sup t))) (host_exec json debug (HostSup a) h)"
| "host_log json debug (HostNet a) (h, ws) = map_option (\<lambda>t. (t, ws)) (host_exec json debug (HostNet a) h)"

subsection \<open>The invariant\<close>

definition conn_token :: "conn \<Rightarrow> string" where
  "conn_token k = hr_auth_token (cn_hello k)"

definition spawn_for :: "spawn list \<Rightarrow> string \<Rightarrow> string \<Rightarrow> bool" where
  "spawn_for ws service token \<longleftrightarrow> (\<exists>w \<in> set ws. sw_service w = service \<and> sw_token w = token)"

text \<open>Tokens are those of spawns, outstanding ones unused, used ones used once.\<close>

definition tokens_ok :: "(string, string) dashmap \<Rightarrow> (conn_id \<Rightarrow> conn option) \<Rightarrow> spawn list \<Rightarrow> bool" where
  "tokens_ok tokens conns ws \<longleftrightarrow>
     distinct (map sw_token ws) \<and>
     (\<forall>sv t. dm_get tokens sv = Some t \<longrightarrow> spawn_for ws sv t \<and> (\<forall>c k. conns c = Some k \<longrightarrow> conn_token k \<noteq> t)) \<and>
     (\<forall>c k. conns c = Some k \<longrightarrow> spawn_for ws (cn_service k) (conn_token k)) \<and>
     (\<forall>c d k l. conns c = Some k \<and> conns d = Some l \<and> conn_token k = conn_token l \<longrightarrow> c = d)"

text \<open>A process started for a spawn has the spawn's token in its environment.\<close>

definition spawn_started :: "supervisor \<Rightarrow> spawn \<Rightarrow> bool" where
  "spawn_started s w \<longleftrightarrow>
     (case sw_child w of
        None \<Rightarrow> True
      | Some d \<Rightarrow>
          d < sv_n_children s \<and>
          (\<exists>ch spec. sv_children s d = Some ch \<and> sp_service spec = sw_service w \<and>
             ch_command ch = spawn_command (sv_bus_endpoint s) (sw_token w) spec))"

text \<open>The processes of the spawns.\<close>

definition started :: "spawn list \<Rightarrow> child_id list" where
  "started ws = concat (map (\<lambda>w. case sw_child w of None \<Rightarrow> [] | Some d \<Rightarrow> [d]) ws)"

definition host_inv :: "nat \<Rightarrow> host \<times> spawn list \<Rightarrow> bool" where
  "host_inv n x \<longleftrightarrow>
     (case x of (h, ws) \<Rightarrow>
        unat (bus_token_counter (nt_bus (ho_net h))) \<le> n \<and>
        (\<forall>w \<in> set ws. \<exists>ns pid ctr. sw_token w = random_token ns pid ctr \<and> ctr < bus_token_counter (nt_bus (ho_net h))) \<and>
        tokens_ok (br_tokens (bus_broker (nt_bus (ho_net h)))) (bus_conns (nt_bus (ho_net h))) ws \<and>
        (\<forall>w \<in> set ws. spawn_started (ho_sup h) w) \<and>
        distinct (started ws))"

section \<open>Lemmas\<close>

subsection \<open>What a step of the supervisor does to the broker\<close>

definition same_tokens :: "supervisor \<Rightarrow> supervisor \<Rightarrow> bool" where
  "same_tokens s t \<longleftrightarrow>
     sv_broker t = sv_broker s \<and> sv_token_counter t = sv_token_counter s \<and>
     sv_bus_endpoint t = sv_bus_endpoint s \<and> sv_n_children t = sv_n_children s \<and>
     (\<forall>d. map_option ch_command (sv_children t d) = map_option ch_command (sv_children s d))"

lemma same_tokens_views [simp]:
  "same_tokens s (sup_spawn t u) = same_tokens s u" "same_tokens s (set_task i t u) = same_tokens s u"
  "same_tokens s (upd_state r f u) = same_tokens s u" "same_tokens s (set_holder r p u) = same_tokens s u"
  "same_tokens s (sup_register spec u) = same_tokens s u" "same_tokens s (remove_app sv u) = same_tokens s u"
  "same_tokens s (u\<lparr>sv_now := x\<rparr>) = same_tokens s u"
  by (simp_all add: same_tokens_def sup_spawn_def set_task_def upd_state_def set_holder_def sup_register_def remove_app_def)

lemma same_tokens_refl [simp]: "same_tokens s s"
  by (simp add: same_tokens_def)

lemma same_tokens_loops [simp]: "same_tokens s (start_loops l u) = same_tokens s u"
  by (induction l u rule: start_loops.induct) (simp_all split: option.split)

lemma stopped_command [simp]:
  "map_option ch_command (map_option (\<lambda>ch. if P ch then ch\<lparr>ch_status := x\<rparr> else ch) m) = map_option ch_command m"
  by (cases m) simp_all

lemma kill_child_command [simp]: "map_option ch_command (kill_child c children d) = map_option ch_command (children d)"
  by (simp add: kill_child_def split: option.split)

lemma same_tokens_kill [simp]: "same_tokens s (u\<lparr>sv_children := kill_child c (sv_children u)\<rparr>) = same_tokens s u"
  by (simp add: same_tokens_def)

lemma same_tokens_reap [simp]: "same_tokens s (reap u) = same_tokens s u"
  by (simp add: same_tokens_def reap_def)

text \<open>One that spawns makes one token.\<close>

definition one_spawn :: "u64 \<Rightarrow> u32 \<Rightarrow> io_error option \<Rightarrow> app_state \<Rightarrow> supervisor \<Rightarrow> supervisor \<Rightarrow> bool" where
  "one_spawn ns pid os st s t \<longleftrightarrow>
     sv_broker t = fst (issue_token ns pid (sv_token_counter s) (sp_service (as_spec st)) (sv_broker s)) \<and>
     sv_token_counter t = sv_token_counter s + 1 \<and> sv_bus_endpoint t = sv_bus_endpoint s \<and>
     sv_n_children t = (if os = None then Suc (sv_n_children s) else sv_n_children s) \<and>
     (\<forall>d. map_option ch_command (sv_children t d) =
        (if os = None \<and> d = sv_n_children s
         then Some (spawn_command (sv_bus_endpoint s) (random_token ns pid (sv_token_counter s)) (as_spec st))
         else map_option ch_command (sv_children s d)))"

lemma one_spawn_views [simp]:
  "one_spawn ns pid os st s (set_task i t u) = one_spawn ns pid os st s u"
  "one_spawn ns pid os st s (upd_state r f u) = one_spawn ns pid os st s u"
  "one_spawn ns pid os st s (reap u) = one_spawn ns pid os st s u"
  by (simp_all add: one_spawn_def set_task_def upd_state_def reap_def)

lemma spawn_once_spawns: "spawn_once ns pid os r st s = (res, t) \<Longrightarrow> one_spawn ns pid os st s t"
  by (auto simp: spawn_once_def issue_token_def Let_def one_spawn_def upd_state_def split: option.splits)

lemma loop_spawn_spawns: "one_spawn ns pid os st s (loop_spawn i service ns pid os r st s)"
  using spawn_once_spawns [of ns pid os r st s]
  by (auto simp: loop_spawn_def split: prod.splits sum.splits)

lemma ensure_spawns:
  "one_spawn ns pid os st s (ensure_with_lock i ns pid os r st s) \<or> same_tokens s (ensure_with_lock i ns pid os r st s)"
  using spawn_once_spawns [of ns pid os r st s]
  by (auto simp: ensure_with_lock_def split: prod.splits)

lemma step_task_tokens:
  assumes "step_task i t ns pid os s = Some u"
  shows "same_tokens s u \<or> (\<exists>r st. task_app t = Some r \<and> sv_states s r = Some st \<and> one_spawn ns pid os st s u)"
proof (cases t)
  case (LoopSpawnLock service r)
  with assms loop_spawn_spawns show ?thesis by (auto simp: step_task_def split: option.splits if_splits)
next
  case (EnsureLock r)
  with assms obtain st where "sv_states s r = Some st" "u = ensure_with_lock i ns pid os r st s"
    by (auto simp: step_task_def split: option.splits if_splits)
  with EnsureLock ensure_spawns [of ns pid os st s i r] show ?thesis by auto
qed (use assms in \<open>auto simp: step_task_def loop_exited_def stop_with_lock_def replace_finish_def Let_def
    split: option.splits if_splits child_status.splits prod.splits after_stop.splits\<close>)

lemma sup_exec_tokens:
  assumes "sup_exec a s = Some u"
  shows "same_tokens s u \<or>
    (\<exists>i ns pid os t r st. a = StepTask i ns pid os \<and> sv_tasks s i = Some t \<and> task_app t = Some r \<and>
       sv_states s r = Some st \<and> one_spawn ns pid os st s u)"
proof (cases a)
  case (StepTask i ns pid os)
  with assms obtain t v where "sv_tasks s i = Some t" "step_task i t ns pid os s = Some v" "u = reap v"
    by (auto simp: sup_exec_def split: option.splits)
  with step_task_tokens [OF this(2)] StepTask show ?thesis by auto
next
  case (ChildExits c success)
  with assms obtain ch where "sv_children s c = Some ch"
    "u = reap (s\<lparr>sv_children := (sv_children s)(c \<mapsto> ch\<lparr>ch_status := ChildExited success\<rparr>)\<rparr>)"
    by (auto simp: sup_exec_def split: option.splits if_splits)
  then have "same_tokens s u" by simp (simp add: same_tokens_def)
  then show ?thesis ..
qed (use assms in \<open>auto simp: sup_exec_def start_all_resident_def register_or_replace_def unregister_def ensure_up_def
    replace_finish_def Let_def split: option.splits\<close>)

subsection \<open>A step of the host is a step of the network, or none\<close>

lemma sup_view_sel [simp]:
  "sv_broker (sup_view h) = bus_broker (nt_bus (ho_net h))"
  "sv_token_counter (sup_view h) = bus_token_counter (nt_bus (ho_net h))"
  "sv_bus_endpoint (sup_view h) = sv_bus_endpoint (ho_sup h)" "sv_children (sup_view h) = sv_children (ho_sup h)"
  "sv_n_children (sup_view h) = sv_n_children (ho_sup h)" "sv_tasks (sup_view h) = sv_tasks (ho_sup h)"
  "sv_states (sup_view h) = sv_states (ho_sup h)" "sv_apps (sup_view h) = sv_apps (ho_sup h)"
  "sv_n_tasks (sup_view h) = sv_n_tasks (ho_sup h)"
  by (simp_all add: sup_view_def)

lemma net_view_same: "same_tokens (sup_view h) u \<Longrightarrow> net_view u (ho_net h) = ho_net h"
  by (simp add: same_tokens_def net_view_def)

lemma net_view_spawn:
  "one_spawn ns pid os st (sup_view h) u \<Longrightarrow>
   net_exec json debug (NetBus (IssueToken (sp_service (as_spec st)) ns pid)) (ho_net h) = Some (net_view u (ho_net h))"
  by (simp add: one_spawn_def net_view_def)

lemma host_net_step:
  assumes "host_exec json debug a h = Some t"
  shows "ho_net t = ho_net h \<or> (\<exists>b. net_exec json debug b (ho_net h) = Some (ho_net t))"
proof (cases a)
  case (HostSup b)
  with assms obtain u where u: "sup_exec b (sup_view h) = Some u" "ho_net t = net_view u (ho_net h)" by auto
  from sup_exec_tokens [OF u(1)] u(2) net_view_same net_view_spawn show ?thesis by metis
next
  case (HostNet b)
  with assms show ?thesis by (auto split: if_splits)
qed

lemma host_run_net:
  assumes "run_actions (host_exec json debug) as h = Some t"
  shows "\<exists>bs. run_actions (net_exec json debug) bs (ho_net h) = Some (ho_net t) \<and> length bs \<le> length as"
  using assms
proof (induction as arbitrary: h)
  case (Cons a as)
  then obtain u where u: "host_exec json debug a h = Some u" "run_actions (host_exec json debug) as u = Some t"
    by (auto split: option.splits)
  from Cons.IH [OF u(2)] obtain bs where bs: "run_actions (net_exec json debug) bs (ho_net u) = Some (ho_net t)" "length bs \<le> length as"
    by blast
  from host_net_step [OF u(1)] show ?case
  proof
    assume "ho_net u = ho_net h"
    with bs show ?thesis by (intro exI [of _ bs]) simp
  next
    assume "\<exists>b. net_exec json debug b (ho_net h) = Some (ho_net u)"
    then obtain b where "net_exec json debug b (ho_net h) = Some (ho_net u)" by blast
    with bs show ?thesis by (intro exI [of _ "b # bs"]) simp
  qed
qed simp

subsection \<open>Tokens\<close>

text \<open>A step of the bus that issues no token: what was outstanding is outstanding or has been taken.\<close>

definition takes_token :: "bus \<Rightarrow> bus \<Rightarrow> conn_id \<Rightarrow> conn \<Rightarrow> bool" where
  "takes_token s t c k \<longleftrightarrow>
     bus_conns t = (bus_conns s)(c \<mapsto> k) \<and>
     dm_get (br_tokens (bus_broker s)) (cn_service k) = Some (conn_token k) \<and>
     br_tokens (bus_broker t) = dm_remove (cn_service k) (br_tokens (bus_broker s))"

definition keeps_tokens :: "bus \<Rightarrow> bus \<Rightarrow> bool" where
  "keeps_tokens s t \<longleftrightarrow>
     (\<forall>sv tok. dm_get (br_tokens (bus_broker t)) sv = Some tok \<longrightarrow> dm_get (br_tokens (bus_broker s)) sv = Some tok) \<and>
     (\<forall>c. map_option cn_hello (bus_conns t c) = map_option cn_hello (bus_conns s c))"

lemma accept_tokens: "keeps_tokens s (accept inbound s) \<or> (\<exists>c k. takes_token s (accept inbound s) c k)"
proof (cases "serve_handshake (bus_n_conns s) inbound (bus_broker s)")
  case (Pair b hs)
  show ?thesis
  proof (cases "\<exists>k. hs = HsAccepted k")
    case True
    then obtain k where hs: "hs = HsAccepted k" by blast
    with serve_handshake_accepted [OF Pair [unfolded hs]] Pair
    have "takes_token s (accept inbound s) (bus_n_conns s) k"
      by (auto simp: takes_token_def accept_def conn_token_def)
    then show ?thesis by blast
  next
    case False
    moreover have "dm_get (br_tokens b) sv = Some tok \<Longrightarrow> dm_get (br_tokens (bus_broker s)) sv = Some tok" for sv tok
      using Pair False
      by (auto simp: serve_handshake_def consume_token_def next_client_id_def Let_def
          split: sum.splits option.splits bus_frame.splits if_splits bool.splits prod.splits)
    ultimately show ?thesis using Pair by (auto simp: keeps_tokens_def accept_def split: handshake.splits)
  qed
qed

lemma bus_counter_views [simp]:
  "bus_token_counter (set_phase c k ph s) = bus_token_counter s"
  "bus_token_counter (spawn_task t s) = bus_token_counter s"
  "bus_token_counter (deliver_response c r s) = bus_token_counter s"
  "bus_token_counter (finish_task json i og res s) = bus_token_counter s"
  by (simp_all add: set_phase_def spawn_task_def deliver_response_def finish_task_def Let_def split: option.split origin.split)

lemma bus_counter_calls [simp]:
  "bus_token_counter (resume_task json i og spec w wk s) = bus_token_counter s"
  "bus_token_counter (start_call json i og spec s) = bus_token_counter s"
  "bus_token_counter (start_task json i t s) = bus_token_counter s"
  by (auto simp: resume_task_def start_call_def split: prod.split sum.split) (cases t; simp add: start_call_def split: prod.split sum.split option.split)

lemma bus_tokens_same:
  assumes "bus_exec json a s = Some t" "\<And>sv ns pid. a \<noteq> IssueToken sv ns pid" "\<And>inbound. a \<noteq> Accept inbound"
  shows "br_tokens (bus_broker t) = br_tokens (bus_broker s) \<and> bus_token_counter t = bus_token_counter s \<and>
    (\<forall>c. map_option cn_hello (bus_conns t c) = map_option cn_hello (bus_conns s c))"
proof (cases a)
  case (Inbound c inbound)
  with assms(1) obtain k where "bus_conns s c = Some k" "t = session_inbound c k inbound s"
    by (auto split: option.splits if_splits)
  then show ?thesis
    by (auto simp: session_inbound_def session_end_def Let_def bus_views
        split: sum.splits option.splits bus_frame.splits)
qed (use assms in \<open>auto simp: bus_views ack_failed_def ack_written_def attach_session_def probe_start_def
      register_local_service_def Let_def simp del: start_task.simps
      split: option.splits task.splits call_wait.splits if_splits prod.splits\<close>)

lemma bus_tokens_step:
  assumes "bus_exec json a s = Some t" "\<And>sv ns pid. a \<noteq> IssueToken sv ns pid"
  shows "bus_token_counter t = bus_token_counter s \<and> (keeps_tokens s t \<or> (\<exists>c k. takes_token s t c k))"
proof (cases "\<exists>inbound. a = Accept inbound")
  case True
  then obtain inbound where "a = Accept inbound" by blast
  moreover have "bus_token_counter (accept inbound s) = bus_token_counter s"
    by (auto simp: accept_def split: prod.splits handshake.splits)
  ultimately show ?thesis using assms(1) accept_tokens by auto
next
  case False
  with bus_tokens_same [OF assms] show ?thesis by (simp add: keeps_tokens_def)
qed

lemma tokens_okD:
  assumes "tokens_ok tokens conns ws"
  shows "distinct (map sw_token ws)" "dm_get tokens sv = Some t \<Longrightarrow> spawn_for ws sv t"
    "dm_get tokens sv = Some t \<Longrightarrow> conns c = Some k \<Longrightarrow> conn_token k \<noteq> t"
    "conns c = Some k \<Longrightarrow> spawn_for ws (cn_service k) (conn_token k)"
    "conns c = Some k \<Longrightarrow> conns d = Some l \<Longrightarrow> conn_token k = conn_token l \<Longrightarrow> c = d"
  using assms unfolding tokens_ok_def by blast+

lemma spawn_for_service: "distinct (map sw_token ws) \<Longrightarrow> spawn_for ws sv t \<Longrightarrow> spawn_for ws sv' t \<Longrightarrow> sv = sv'"
  by (auto simp: spawn_for_def distinct_map dest: inj_onD)

lemma tokens_ok_kept:
  assumes "tokens_ok (br_tokens (bus_broker s)) (bus_conns s) ws" "keeps_tokens s t"
  shows "tokens_ok (br_tokens (bus_broker t)) (bus_conns t) ws"
proof -
  note ok = tokens_okD [OF assms(1)]
  have old: "\<exists>l. bus_conns s c = Some l \<and> cn_service l = cn_service k \<and> conn_token l = conn_token k" if "bus_conns t c = Some k" for c k
  proof -
    have "map_option cn_hello (bus_conns t c) = map_option cn_hello (bus_conns s c)" using assms(2) by (simp add: keeps_tokens_def)
    with that show ?thesis by (cases "bus_conns s c") (auto simp: conn_token_def)
  qed
  have out: "dm_get (br_tokens (bus_broker t)) sv = Some tok \<Longrightarrow> dm_get (br_tokens (bus_broker s)) sv = Some tok" for sv tok
    using assms(2) by (simp add: keeps_tokens_def)
  show ?thesis unfolding tokens_ok_def
  proof (intro conjI allI impI)
    show "distinct (map sw_token ws)" by (rule ok(1))
  next
    fix sv tok assume "dm_get (br_tokens (bus_broker t)) sv = Some tok"
    from ok(2) [OF out [OF this]] show "spawn_for ws sv tok" .
  next
    fix sv tok c k assume "dm_get (br_tokens (bus_broker t)) sv = Some tok" "bus_conns t c = Some k"
    with ok(3) [OF out] old show "conn_token k \<noteq> tok" by metis
  next
    fix c k assume "bus_conns t c = Some k"
    with ok(4) old show "spawn_for ws (cn_service k) (conn_token k)" by metis
  next
    fix c d k l assume "bus_conns t c = Some k \<and> bus_conns t d = Some l \<and> conn_token k = conn_token l"
    with ok(5) old show "c = d" by metis
  qed
qed

lemma tokens_ok_taken:
  assumes "tokens_ok (br_tokens (bus_broker s)) (bus_conns s) ws" "takes_token s t c k"
  shows "tokens_ok (br_tokens (bus_broker t)) (bus_conns t) ws"
proof -
  note ok = tokens_okD [OF assms(1)]
  have t: "bus_conns t = (bus_conns s)(c \<mapsto> k)" "br_tokens (bus_broker t) = dm_remove (cn_service k) (br_tokens (bus_broker s))"
    and k: "dm_get (br_tokens (bus_broker s)) (cn_service k) = Some (conn_token k)"
    using assms(2) by (simp_all add: takes_token_def)
  have out: "dm_get (br_tokens (bus_broker s)) sv = Some tok \<and> sv \<noteq> cn_service k"
    if "dm_get (br_tokens (bus_broker t)) sv = Some tok" for sv tok
    using that by (auto simp: t split: if_splits)
  show ?thesis unfolding tokens_ok_def
  proof (intro conjI allI impI)
    show "distinct (map sw_token ws)" by (rule ok(1))
  next
    fix sv tok assume "dm_get (br_tokens (bus_broker t)) sv = Some tok"
    with out ok(2) show "spawn_for ws sv tok" by blast
  next
    fix sv tok d l assume o: "dm_get (br_tokens (bus_broker t)) sv = Some tok" and l: "bus_conns t d = Some l"
    have "conn_token k \<noteq> tok" using out [OF o] ok(2) [OF k] ok(2) spawn_for_service [OF ok(1)] by blast
    with l ok(3) out [OF o] show "conn_token l \<noteq> tok" by (auto simp: t split: if_splits)
  next
    fix d l assume "bus_conns t d = Some l"
    with ok(4) ok(2) [OF k] show "spawn_for ws (cn_service l) (conn_token l)" by (auto simp: t split: if_splits)
  next
    fix d e l m assume "bus_conns t d = Some l \<and> bus_conns t e = Some m \<and> conn_token l = conn_token m"
    with ok(5) ok(3) [OF k] show "d = e" by (auto simp: t split: if_splits) metis+
  qed
qed

lemma tokens_ok_issued:
  assumes "tokens_ok tokens conns ws" "sw_token w \<notin> sw_token ` set ws"
  shows "tokens_ok (dm_insert (sw_service w) (sw_token w) tokens) conns (ws @ [w])"
proof -
  note ok = tokens_okD [OF assms(1)]
  have old: "spawn_for (ws @ [w]) sv tok" if "spawn_for ws sv tok" for sv tok using that by (auto simp: spawn_for_def)
  have new: "conn_token k \<noteq> sw_token w" if "conns c = Some k" for c k
    using ok(4) [OF that] assms(2) unfolding spawn_for_def by (metis image_eqI)
  show ?thesis unfolding tokens_ok_def using ok old new assms(2)
    by (auto simp: spawn_for_def split: if_splits)
qed

subsection \<open>The invariant is kept\<close>

lemma host_inv_sel:
  "host_inv n (h, ws) \<longleftrightarrow>
     unat (bus_token_counter (nt_bus (ho_net h))) \<le> n \<and>
     (\<forall>w \<in> set ws. \<exists>ns pid ctr. sw_token w = random_token ns pid ctr \<and> ctr < bus_token_counter (nt_bus (ho_net h))) \<and>
     tokens_ok (br_tokens (bus_broker (nt_bus (ho_net h)))) (bus_conns (nt_bus (ho_net h))) ws \<and>
     (\<forall>w \<in> set ws. spawn_started (ho_sup h) w) \<and>
     distinct (started ws)"
  by (simp add: host_inv_def)

lemma spawn_started_same:
  "spawn_started (sup_view h) w \<longleftrightarrow> spawn_started (ho_sup h) w"
  by (simp add: spawn_started_def split: option.split)

lemma spawn_started_kept:
  assumes "spawn_started s w" "sv_bus_endpoint t = sv_bus_endpoint s" "sv_n_children s \<le> sv_n_children t"
    and "\<And>d. d < sv_n_children s \<Longrightarrow> map_option ch_command (sv_children t d) = map_option ch_command (sv_children s d)"
  shows "spawn_started t w"
proof (cases "sw_child w")
  case (Some d)
  with assms(1) obtain ch spec where d: "d < sv_n_children s" "sv_children s d = Some ch" "sp_service spec = sw_service w"
    "ch_command ch = spawn_command (sv_bus_endpoint s) (sw_token w) spec"
    by (auto simp: spawn_started_def)
  with assms(4) [OF d(1)] obtain ch' where "sv_children t d = Some ch'" "ch_command ch' = ch_command ch" by auto
  with d assms(2,3) Some show ?thesis by (auto simp: spawn_started_def)
qed (simp add: spawn_started_def)

lemma host_inv_net:
  assumes inv: "host_inv n (h, ws)" and step: "net_exec json debug a (ho_net h) = Some m" "\<not> issues_token a"
  shows "host_inv (Suc n) (h\<lparr>ho_net := m\<rparr>, ws)"
proof -
  have "nt_bus m = nt_bus (ho_net h) \<or> (\<exists>b. bus_exec json b (nt_bus (ho_net h)) = Some (nt_bus m) \<and> (\<forall>sv ns pid. b \<noteq> IssueToken sv ns pid))"
    using step by (cases a) (auto simp del: bus_exec.simps split: option.splits list.splits if_splits sum.splits)
  then show ?thesis
  proof
    assume "nt_bus m = nt_bus (ho_net h)"
    with inv show ?thesis by (auto simp: host_inv_sel)
  next
    assume "\<exists>b. bus_exec json b (nt_bus (ho_net h)) = Some (nt_bus m) \<and> (\<forall>sv ns pid. b \<noteq> IssueToken sv ns pid)"
    then obtain b where b: "bus_exec json b (nt_bus (ho_net h)) = Some (nt_bus m)" "\<forall>sv ns pid. b \<noteq> IssueToken sv ns pid" by blast
    then have "bus_token_counter (nt_bus m) = bus_token_counter (nt_bus (ho_net h))"
      "tokens_ok (br_tokens (bus_broker (nt_bus m))) (bus_conns (nt_bus m)) ws"
      using bus_tokens_step [OF b(1)] inv tokens_ok_kept tokens_ok_taken unfolding host_inv_sel by blast+
    with inv show ?thesis by (simp add: host_inv_sel)
  qed
qed

lemma host_inv_same:
  assumes inv: "host_inv n (h, ws)" and step: "same_tokens (sup_view h) u"
  shows "host_inv (Suc n) (\<lparr>ho_sup = u, ho_net = net_view u (ho_net h)\<rparr>, ws)"
proof -
  have "spawn_started u w" if "spawn_started (ho_sup h) w" for w
    using that step by (auto simp: same_tokens_def intro: spawn_started_kept)
  with inv show ?thesis by (simp add: host_inv_sel net_view_same [OF step])
qed

lemma host_inv_spawn:
  assumes inv: "host_inv n (h, ws)" "n < 2 ^ 64 - 2" and step: "one_spawn ns pid os st (sup_view h) u"
  shows "host_inv (Suc n) (\<lparr>ho_sup = u, ho_net = net_view u (ho_net h)\<rparr>,
    ws @ [\<lparr>sw_service = sp_service (as_spec st), sw_token = random_token ns pid (bus_token_counter (nt_bus (ho_net h))),
           sw_child = (if os = None then Some (sv_n_children (ho_sup h)) else None)\<rparr>])"
    (is "host_inv _ (?t, ws @ [?w])")
proof -
  let ?ctr = "bus_token_counter (nt_bus (ho_net h))"
  note inv' = inv(1) [unfolded host_inv_sel]
  have up: "unat (?ctr + 1) = Suc (unat ?ctr)"
    using unat_Suc_u64 [of ?ctr] inv' inv(2) by simp
  have "sw_token ?w \<notin> sw_token ` set ws"
    using inv' by (auto simp: random_token_eq_iff)
  then have "tokens_ok (dm_insert (sw_service ?w) (sw_token ?w) (br_tokens (bus_broker (nt_bus (ho_net h)))))
      (bus_conns (nt_bus (ho_net h))) (ws @ [?w])"
    using inv' by (intro tokens_ok_issued) simp_all
  moreover have "spawn_started u w" if "spawn_started (ho_sup h) w" for w
  proof (rule spawn_started_kept [OF that])
    show "sv_bus_endpoint u = sv_bus_endpoint (ho_sup h)" "sv_n_children (ho_sup h) \<le> sv_n_children u"
      using step by (simp_all add: one_spawn_def)
  next
    fix d assume "d < sv_n_children (ho_sup h)"
    moreover from step have "map_option ch_command (sv_children u d) =
        (if os = None \<and> d = sv_n_children (ho_sup h)
         then Some (spawn_command (sv_bus_endpoint (ho_sup h)) (random_token ns pid ?ctr) (as_spec st))
         else map_option ch_command (sv_children (ho_sup h) d))"
      unfolding one_spawn_def by simp
    ultimately show "map_option ch_command (sv_children u d) = map_option ch_command (sv_children (ho_sup h) d)" by simp
  qed
  moreover have "spawn_started u ?w"
  proof (cases os)
    case None
    with step have "sv_n_children u = Suc (sv_n_children (ho_sup h))" "sv_bus_endpoint u = sv_bus_endpoint (ho_sup h)"
      "map_option ch_command (sv_children u (sv_n_children (ho_sup h))) =
         Some (spawn_command (sv_bus_endpoint (ho_sup h)) (random_token ns pid ?ctr) (as_spec st))"
      by (simp_all add: one_spawn_def)
    with None show ?thesis by (auto simp: spawn_started_def)
  qed (simp add: spawn_started_def)
  moreover have "\<exists>ns pid ctr. sw_token w = random_token ns pid ctr \<and> ctr < ?ctr + 1" if "w \<in> set (ws @ [?w])" for w
  proof -
    from that inv' consider ns' pid' ctr' where "sw_token w = random_token ns' pid' ctr'" "ctr' < ?ctr" | "w = ?w" by fastforce
    then show ?thesis
    proof cases
      case 1
      with up have "ctr' < ?ctr + 1" by (simp add: word_less_nat_alt)
      with 1 show ?thesis by blast
    next
      case 2
      with up have "sw_token w = random_token ns pid ?ctr \<and> ?ctr < ?ctr + 1" by (simp add: word_less_nat_alt)
      then show ?thesis by blast
    qed
  qed
  moreover have "d < sv_n_children (ho_sup h)" if "d \<in> set (started ws)" for d
    using inv' that by (fastforce simp: started_def spawn_started_def split: option.splits)
  then have "distinct (started (ws @ [?w]))"
    using inv' by (auto simp: started_def)
  moreover have "bus_token_counter (nt_bus (ho_net ?t)) = ?ctr + 1" "bus_conns (nt_bus (ho_net ?t)) = bus_conns (nt_bus (ho_net h))"
    "br_tokens (bus_broker (nt_bus (ho_net ?t))) = dm_insert (sw_service ?w) (sw_token ?w) (br_tokens (bus_broker (nt_bus (ho_net h))))"
    using step by (simp_all add: net_view_def one_spawn_def issue_token_def Let_def)
  moreover have "unat (?ctr + 1) \<le> Suc n" using up inv' by simp
  moreover have "\<forall>w \<in> set (ws @ [?w]). spawn_started u w" using inv' calculation(2,3) by simp
  ultimately show ?thesis
    unfolding host_inv_sel by simp
qed

lemma host_log_exec: "host_log json debug a (h, ws) = Some (t, vs) \<Longrightarrow> host_exec json debug a h = Some t"
  by (cases a) (auto simp del: host_exec.simps)

lemma host_inv_exec:
  assumes "host_inv n x" "n < 2 ^ 64 - 2" "host_log json debug a x = Some y"
  shows "host_inv (Suc n) y"
proof -
  obtain h ws where x: "x = (h, ws)" by fastforce
  show ?thesis
  proof (cases a)
    case (HostSup b)
    with assms(3) x obtain u where u: "sup_exec b (sup_view h) = Some u"
      "y = (\<lparr>ho_sup = u, ho_net = net_view u (ho_net h)\<rparr>, ws @ note_spawn b (sup_view h) u)" by auto
    from sup_exec_tokens [OF u(1)] show ?thesis
    proof (elim disjE exE conjE)
      assume same: "same_tokens (sup_view h) u"
      then have "note_spawn b (sup_view h) u = []"
        by (auto simp: note_spawn_def same_tokens_def split: sup_action.split option.split)
      with host_inv_same [OF _ same] assms(1) x u(2) show ?thesis by simp
    next
      fix i ns pid os t r st
      assume b: "b = StepTask i ns pid os" "sv_tasks (sup_view h) i = Some t" "task_app t = Some r"
        "sv_states (sup_view h) r = Some st" and one: "one_spawn ns pid os st (sup_view h) u"
      then have "note_spawn b (sup_view h) u =
          [\<lparr>sw_service = sp_service (as_spec st), sw_token = random_token ns pid (bus_token_counter (nt_bus (ho_net h))),
            sw_child = (if os = None then Some (sv_n_children (ho_sup h)) else None)\<rparr>]"
        by (simp add: note_spawn_def one_spawn_def)
      with host_inv_spawn [OF _ assms(2) one] assms(1) x u(2) show ?thesis by simp
    qed
  next
    case (HostNet b)
    with assms(3) x obtain m where "net_exec json debug b (ho_net h) = Some m" "\<not> issues_token b" "y = (h\<lparr>ho_net := m\<rparr>, ws)"
      by (auto split: if_splits)
    with host_inv_net assms(1) x show ?thesis by blast
  qed
qed

lemma host_inv_init: "host_inv 0 (host_init config endpoint, [])"
  by (simp add: host_inv_sel host_init_def net_init_def bus_init_def tokens_ok_def started_def broker_new_def)

interpretation hosted: guarded_system "host_log json debug" host_inv "2 ^ 64 - 2" "(host_init config endpoint, [])"
  for json debug config endpoint
  by unfold_locales (rule host_inv_exec, assumption+, rule host_inv_init)

subsection \<open>The supervisor of the host\<close>

lemma sup_inv_view: "sup_inv (sup_view h) = sup_inv (ho_sup h)"
  by (simp add: sup_inv_def fresh_ok_def)
     (simp add: sup_view_def)

lemma host_sup_inv:
  "sup_inv (ho_sup h) \<Longrightarrow> host_exec json debug a h = Some t \<Longrightarrow> sup_inv (ho_sup t)"
  using sup_inv_exec [of "sup_view h"] by (cases a) (auto simp: sup_inv_view split: if_splits)

lemma host_sup_run:
  "run_actions (host_exec json debug) as h = Some t \<Longrightarrow> sup_inv (ho_sup h) \<Longrightarrow> sup_inv (ho_sup t)"
  by (induction as arbitrary: h) (auto simp del: host_exec.simps intro: host_sup_inv split: option.splits)

lemma net_view_sup [simp]: "sup_view \<lparr>ho_sup = u, ho_net = net_view u n\<rparr> = u"
  by (simp add: sup_view_def net_view_def)

lemma net_view_twice [simp]: "net_view u (net_view v n) = net_view u n"
  by (simp add: net_view_def)

lemma host_sup_steps:
  assumes "run_actions sup_exec (a # as) (sup_view h) = Some u"
  shows "run_actions (host_exec json debug) (map HostSup (a # as)) h = Some \<lparr>ho_sup = u, ho_net = net_view u (ho_net h)\<rparr>"
proof -
  have rest: "run_actions (host_exec json debug) (map HostSup bs) \<lparr>ho_sup = v, ho_net = net_view v n\<rparr> =
      Some \<lparr>ho_sup = u, ho_net = net_view u n\<rparr>" if "run_actions sup_exec bs v = Some u" for bs v n
    using that by (induction bs arbitrary: v) (auto split: option.splits)
  from assms show ?thesis using rest by (auto split: option.splits)
qed

text \<open>The iteration of a resident loop whose process has exited.\<close>

definition restart :: "task_id \<Rightarrow> child_id \<Rightarrow> bool \<Rightarrow> u64 \<Rightarrow> u32 \<Rightarrow> sup_action list" where
  "restart i c success ns pid = ChildExits c success # replicate 4 (StepTask i ns pid None)"

lemma restart_run:
  assumes "sv_tasks s i = Some (LoopWaiting service r c)" "sv_states s r = Some st"
    and "sv_children s c = Some ch" "ch_status ch = ChildRunning" "dm_get (sv_apps s) service = Some r"
  shows "\<exists>u. run_actions sup_exec (restart i c success ns pid) s = Some u \<and>
    sv_broker u = fst (issue_token ns pid (sv_token_counter s) (sp_service (as_spec st)) (sv_broker s)) \<and>
    sv_tasks u i = Some (LoopWaitLock service r) \<and>
    sv_children u (sv_n_children s) =
      Some \<lparr>ch_app = r, ch_command = spawn_command (sv_bus_endpoint s) (random_token ns pid (sv_token_counter s)) (as_spec st),
            ch_status = ChildRunning\<rparr>"
proof -
  have ref: "r \<in> snd ` set (sv_apps s)" using assms(5) by (force simp: dm_get_def dest: map_of_SomeD)
  show ?thesis
    using assms ref by (simp add: restart_def numeral_eq_Suc sup_exec_def step_task_def reap_def referenced_def loop_exited_def
        set_task_def upd_state_def loop_spawn_def spawn_once_def issue_token_def Let_def split: prod.split)
qed

text \<open>Traffic in which no connection is accepted leaves the outstanding tokens alone.\<close>

fun accepts :: "net_action \<Rightarrow> bool" where
  "accepts (NetBus (Accept inbound)) = True"
| "accepts a = False"

lemma quiet_net:
  assumes "net_exec json debug a n = Some m" "\<not> issues_token a" "\<not> accepts a"
  shows "br_tokens (bus_broker (nt_bus m)) = br_tokens (bus_broker (nt_bus n))"
proof -
  have "nt_bus m = nt_bus n \<or> (\<exists>b. bus_exec json b (nt_bus n) = Some (nt_bus m) \<and>
      (\<forall>sv ns pid. b \<noteq> IssueToken sv ns pid) \<and> (\<forall>inbound. b \<noteq> Accept inbound))"
    using assms by (cases a) (auto simp del: bus_exec.simps split: option.splits list.splits if_splits sum.splits)
  then show ?thesis using bus_tokens_same by metis
qed

lemma quiet_run:
  assumes "run_actions (host_exec json debug) (map HostNet mid) h = Some t" "\<forall>a \<in> set mid. \<not> accepts a"
  shows "br_tokens (bus_broker (nt_bus (ho_net t))) = br_tokens (bus_broker (nt_bus (ho_net h)))"
  using assms
proof (induction mid arbitrary: h)
  case (Cons a mid)
  then obtain m where "\<not> issues_token a" "net_exec json debug a (ho_net h) = Some m"
    "run_actions (host_exec json debug) (map HostNet mid) (h\<lparr>ho_net := m\<rparr>) = Some t"
    by (auto split: option.splits if_splits)
  with Cons quiet_net show ?case by fastforce
qed simp

lemma accept_registers:
  assumes "dm_get (br_tokens (bus_broker s)) (hr_service hello) = Some (hr_auth_token hello)"
    and "pv_major (hr_protocol hello) = pv_major PROTOCOL_CURRENT"
  shows "\<exists>k. bus_conns (accept (Inr (Some (Hello hello))) s) (bus_n_conns s) = Some k \<and> cn_hello k = hello \<and>
    registry_get (br_registry (bus_broker (accept (Inr (Some (Hello hello))) s))) (hr_service hello) =
      Some (entry_of (bus_n_conns s) k)"
proof (cases "serve_handshake (bus_n_conns s) (Inr (Some (Hello hello))) (bus_broker s)")
  case (Pair b hs)
  then obtain k where hs: "hs = HsAccepted k"
    using assms by (auto simp: serve_handshake_def consume_token_def Let_def split: prod.splits)
  from serve_handshake_accepted [OF Pair [unfolded hs]] Pair hs show ?thesis
    by (auto simp: accept_def get_insert_entry)
qed

subsection \<open>A run\<close>

definition demo_host :: "host_action list" where
  "demo_host =
     [HostSup (Register demo_app), HostSup StartAllResident, HostSup (StepTask 0 5 7 None), HostSup (StepTask 0 5 7 None),
      HostSup (StepTask 0 5 7 None), HostNet (NetBus (Accept (Inr (Some (Hello (demo_hello ''app'' 0))))))]"

lemma demo_host_state:
  "\<exists>h ch st k. run_actions (host_log demo_json (\<lambda>_. [])) demo_host (host_init broker_config_default ''/run/bus'', []) =
       Some (h, [\<lparr>sw_service = ''app'', sw_token = random_token 5 7 0, sw_child = Some 0\<rparr>]) \<and>
     run_actions (host_exec demo_json (\<lambda>_. [])) demo_host (host_init broker_config_default ''/run/bus'') = Some h \<and>
     sv_tasks (ho_sup h) 0 = Some (LoopWaiting ''app'' 0 0) \<and> sv_states (ho_sup h) 0 = Some st \<and>
     sp_service (as_spec st) = ''app'' \<and> sv_children (ho_sup h) 0 = Some ch \<and> ch_status ch = ChildRunning \<and>
     dm_get (sv_apps (ho_sup h)) ''app'' = Some 0 \<and> sv_token_counter (sup_view h) = 1 \<and>
     bus_conns (nt_bus (ho_net h)) 0 = Some k"
  by (simp add: demo_host_def host_init_def net_init_def sup_view_def net_view_def note_spawn_def sup_eval demo_eval)

section \<open>Theorems\<close>



text \<open>
  C4. Every connection is one spawn: after any run of the host, with whatever hellos arrive from
  whomever, a connection that has been accepted presented the token of a spawn that the supervisor
  made for an app of the connection's service; if that spawn started a process, the process has the
  token in its environment; two connections never present the token of the same spawn, and two
  spawns have neither their token nor their process in common.
\<close>

theorem connections_are_spawns:
  assumes "run_actions (host_log json debug) as (host_init config endpoint, []) = Some (h, ws)" "length as \<le> 2 ^ 64 - 2"
  shows "(\<forall>c k. bus_conns (nt_bus (ho_net h)) c = Some k \<longrightarrow>
      (\<exists>w \<in> set ws. sw_token w = conn_token k \<and> sw_service w = cn_service k \<and>
         (\<forall>d. sw_child w = Some d \<longrightarrow>
            (\<exists>ch spec. sv_children (ho_sup h) d = Some ch \<and> sp_service spec = cn_service k \<and>
               ch_command ch = spawn_command (sv_bus_endpoint (ho_sup h)) (conn_token k) spec)))) \<and>
    (\<forall>c d k l. bus_conns (nt_bus (ho_net h)) c = Some k \<and> bus_conns (nt_bus (ho_net h)) d = Some l \<and>
       conn_token k = conn_token l \<longrightarrow> c = d) \<and>
    distinct (map sw_token ws) \<and> distinct (started ws)"
proof (intro conjI)
  have inv: "host_inv (length as) (h, ws)" using assms by (intro hosted.inv_run)
  note inv' = inv [unfolded host_inv_sel]
  then have ok: "tokens_ok (br_tokens (bus_broker (nt_bus (ho_net h)))) (bus_conns (nt_bus (ho_net h))) ws" by blast
  show "\<forall>c k. bus_conns (nt_bus (ho_net h)) c = Some k \<longrightarrow>
      (\<exists>w \<in> set ws. sw_token w = conn_token k \<and> sw_service w = cn_service k \<and>
         (\<forall>d. sw_child w = Some d \<longrightarrow>
            (\<exists>ch spec. sv_children (ho_sup h) d = Some ch \<and> sp_service spec = cn_service k \<and>
               ch_command ch = spawn_command (sv_bus_endpoint (ho_sup h)) (conn_token k) spec)))"
  proof (intro allI impI)
    fix c k assume "bus_conns (nt_bus (ho_net h)) c = Some k"
    with tokens_okD(4) [OF ok] obtain w where w: "w \<in> set ws" "sw_service w = cn_service k" "sw_token w = conn_token k"
      by (auto simp: spawn_for_def)
    with inv' have "spawn_started (ho_sup h) w" by blast
    with w show "\<exists>w \<in> set ws. sw_token w = conn_token k \<and> sw_service w = cn_service k \<and>
         (\<forall>d. sw_child w = Some d \<longrightarrow>
            (\<exists>ch spec. sv_children (ho_sup h) d = Some ch \<and> sp_service spec = cn_service k \<and>
               ch_command ch = spawn_command (sv_bus_endpoint (ho_sup h)) (conn_token k) spec))"
      by (intro bexI [of _ w]) (auto simp: spawn_started_def)
  qed
  show "\<forall>c d k l. bus_conns (nt_bus (ho_net h)) c = Some k \<and> bus_conns (nt_bus (ho_net h)) d = Some l \<and>
       conn_token k = conn_token l \<longrightarrow> c = d"
    using tokens_okD(5) [OF ok] by blast
  show "distinct (map sw_token ws)" "distinct (started ws)" using tokens_okD(1) [OF ok] inv' by blast+
qed

theorem connections_are_spawns_witness:
  "\<exists>h ws k w ch. run_actions (host_log demo_json (\<lambda>_. [])) demo_host (host_init broker_config_default ''/run/bus'', []) = Some (h, ws) \<and>
     bus_conns (nt_bus (ho_net h)) 0 = Some k \<and> w \<in> set ws \<and> sw_token w = conn_token k \<and> sw_child w = Some 0 \<and>
     sv_children (ho_sup h) 0 = Some ch"
proof -
  from demo_host_state obtain h k where
    h: "run_actions (host_log demo_json (\<lambda>_. [])) demo_host (host_init broker_config_default ''/run/bus'', []) =
       Some (h, [\<lparr>sw_service = ''app'', sw_token = random_token 5 7 0, sw_child = Some 0\<rparr>])"
    "bus_conns (nt_bus (ho_net h)) 0 = Some k" by blast
  have "length demo_host \<le> 2 ^ 64 - 2" by (simp add: demo_host_def)
  from connections_are_spawns [OF h(1) this, THEN conjunct1, rule_format, OF h(2)] have "conn_token k = random_token 5 7 0" "\<exists>ch. sv_children (ho_sup h) 0 = Some ch"
    by auto
  with h show ?thesis by auto
qed



end
