(* ===== verification/Auth.thy ===== *)
theory Auth
  imports Client
begin

text \<open>
  The authentication crate: the request extractor of \<open>crates/auth/src/axum.rs\<close> and the API keys of
  \<open>crates/auth/src/db.rs\<close>. The database is a parameter: the answer to the one query that
  \<open>verify_token\<close> makes, and the rows that its update writes. Instants are \<open>int\<close>s.
\<close>

section \<open>Definitions\<close>

subsection \<open>The extractor\<close>

record tokimo_user =
  tu_user_id :: string

definition STATUS_UNAUTHORIZED :: nat where
  "STATUS_UNAUTHORIZED = 401"

definition unauthorized :: "nat \<times> string" where
  "unauthorized =
     (STATUS_UNAUTHORIZED, ''missing X-Tokimo-User-Id (not authenticated by main server)'')"

text \<open>The header as \<open>HeaderMap::get\<close> gives it; inside, what \<open>to_str\<close> makes of it.\<close>

definition from_request_parts :: "string option option \<Rightarrow> (nat \<times> string) + tokimo_user" where
  "from_request_parts header =
     (case header of
        Some (Some v) \<Rightarrow> (if v = [] then Inl unauthorized else Inr \<lparr>tu_user_id = v\<rparr>)
      | _ \<Rightarrow> Inl unauthorized)"

subsection \<open>API keys\<close>

record api_key =
  ak_id :: string
  ak_user_id :: string
  ak_token :: string
  ak_expires_at :: "int option"
  ak_last_used_at :: "int option"

record verified_user =
  vu_user_id :: string
  vu_api_key_id :: string

datatype auth_error =
    MissingDatabaseUrl string
  | AuthConnect string
  | InvalidToken
  | Expired

text \<open>The directories searched for a \<open>.env\<close> file: the current one and up to five above it.\<close>

fun find_env_file :: "nat \<Rightarrow> (string \<Rightarrow> bool) \<Rightarrow> string option \<Rightarrow> string option" where
  "find_env_file 0 path_exists dir = None"
| "find_env_file (Suc n) path_exists dir =
     (case dir of
        None \<Rightarrow> None
      | Some d \<Rightarrow>
          (if path_exists (path_join d ''.env'') then Some (path_join d ''.env'')
           else find_env_file n path_exists (path_parent d)))"

text \<open>\<open>dotenvy\<close> is what loading the file makes of the environment.\<close>

definition load_database_url ::
  "(string \<Rightarrow> environment \<Rightarrow> environment) \<Rightarrow> (string \<Rightarrow> bool) \<Rightarrow> string option \<Rightarrow> environment \<Rightarrow> auth_error + string" where
  "load_database_url dotenvy path_exists cwd env =
     (let env' = (case find_env_file 6 path_exists cwd of None \<Rightarrow> env | Some p \<Rightarrow> dotenvy p env)
      in case env' ''DATABASE_URL'' of
           Some url \<Rightarrow> Inr url
         | None \<Rightarrow>
             Inl (MissingDatabaseUrl
               ''DATABASE_URL not found. Add it to a .env file or set the DATABASE_URL environment variable.''))"

text \<open>The options handed to the database driver, which is the parameter \<open>connect\<close>.\<close>

record connect_options =
  co_url :: string
  co_sqlx_logging :: bool
  co_connect_timeout :: duration
  co_acquire_timeout :: duration

definition connect_db :: "auth_error + string \<Rightarrow> (connect_options \<Rightarrow> string + 'db) \<Rightarrow> auth_error + 'db" where
  "connect_db database_url connect =
     (case database_url of
        Inl e \<Rightarrow> Inl e
      | Inr url \<Rightarrow>
          map_sum AuthConnect id
            (connect \<lparr>co_url = url, co_sqlx_logging = False, co_connect_timeout = duration_from_secs 5,
                      co_acquire_timeout = duration_from_secs 10\<rparr>))"

definition verify_token ::
  "(string \<Rightarrow> string + api_key option) \<Rightarrow> int \<Rightarrow> string \<Rightarrow> auth_error + verified_user" where
  "verify_token query now token =
     (case query token of
        Inl e \<Rightarrow> Inl (AuthConnect e)
      | Inr None \<Rightarrow> Inl InvalidToken
      | Inr (Some row) \<Rightarrow>
          (if (case ak_expires_at row of None \<Rightarrow> False | Some expires \<Rightarrow> expires < now)
           then Inl Expired
           else Inr \<lparr>vu_user_id = ak_user_id row, vu_api_key_id = ak_id row\<rparr>))"

text \<open>The update that a successful verification spawns.\<close>

definition mark_used :: "string \<Rightarrow> int \<Rightarrow> api_key list \<Rightarrow> api_key list" where
  "mark_used key now rows =
     map (\<lambda>row. if ak_id row = key then row\<lparr>ak_last_used_at := Some now\<rparr> else row) rows"

text \<open>The query on a table: \<open>filter(token).one()\<close>.\<close>

definition query_table :: "api_key list \<Rightarrow> string \<Rightarrow> string + api_key option" where
  "query_table rows token = Inr (List.find (\<lambda>row. ak_token row = token) rows)"

section \<open>Lemmas\<close>

lemma find_unique:
  assumes "distinct (map f xs)" "x \<in> set xs"
  shows "List.find (\<lambda>y. f y = f x) xs = Some x"
  using assms by (induction xs) (auto simp: rev_image_eqI)

lemma find_token_Some: "List.find (\<lambda>row. ak_token row = token) rows = Some row \<Longrightarrow> row \<in> set rows \<and> ak_token row = token"
  by (auto simp: find_Some_iff)

section \<open>Theorems\<close>

text \<open>
  The extractor and the middleware read the same user: a handler that extracts a user sees
  exactly the user id that \<open>current_user_id\<close> gives inside the scope the middleware opens for the
  same header, and the extractor rejects a request with status 401 exactly if the scope holds none.
\<close>

theorem extractor_agrees_with_middleware:
  "(case from_request_parts header of
      Inr user \<Rightarrow> auth_middleware header current_user_id = Some (tu_user_id user) \<and> tu_user_id user \<noteq> []
    | Inl (status, text) \<Rightarrow> auth_middleware header current_user_id = None \<and> status = 401)"
  by (auto simp: from_request_parts_def auth_middleware_def scope_user_id_def current_user_id_def
      header_user_id_def unauthorized_def STATUS_UNAUTHORIZED_def split: option.splits)

text \<open>
  C40. A token is accepted exactly if it is the token of a stored key that has not expired: with
  the tokens of the table distinct, verification of a token at time \<open>now\<close> returns user \<open>u\<close> and key
  \<open>k\<close> if and only if some row has this token, user and key and no expiry before \<open>now\<close> (a key is still
  valid at the instant of its expiry).
\<close>

theorem verify_token_iff:
  assumes "distinct (map ak_token rows)"
  shows "verify_token (query_table rows) now token = Inr \<lparr>vu_user_id = u, vu_api_key_id = k\<rparr> \<longleftrightarrow>
    (\<exists>row \<in> set rows. ak_token row = token \<and> ak_user_id row = u \<and> ak_id row = k \<and>
       (ak_expires_at row = None \<or> (\<exists>t \<ge> now. ak_expires_at row = Some t)))"
proof
  assume "verify_token (query_table rows) now token = Inr \<lparr>vu_user_id = u, vu_api_key_id = k\<rparr>"
  then obtain row where "List.find (\<lambda>row. ak_token row = token) rows = Some row" "ak_user_id row = u" "ak_id row = k"
    "ak_expires_at row = None \<or> (\<exists>t \<ge> now. ak_expires_at row = Some t)"
    by (auto simp: verify_token_def query_table_def split: option.splits if_splits)
  with find_token_Some show "\<exists>row \<in> set rows. ak_token row = token \<and> ak_user_id row = u \<and> ak_id row = k \<and>
       (ak_expires_at row = None \<or> (\<exists>t \<ge> now. ak_expires_at row = Some t))" by blast
next
  assume "\<exists>row \<in> set rows. ak_token row = token \<and> ak_user_id row = u \<and> ak_id row = k \<and>
       (ak_expires_at row = None \<or> (\<exists>t \<ge> now. ak_expires_at row = Some t))"
  then obtain row where row: "row \<in> set rows" "ak_token row = token" "ak_user_id row = u" "ak_id row = k"
    "ak_expires_at row = None \<or> (\<exists>t \<ge> now. ak_expires_at row = Some t)" by blast
  from find_unique [OF assms row(1)] row(2) have "query_table rows token = Inr (Some row)"
    by (simp add: query_table_def)
  with row(3-5) show "verify_token (query_table rows) now token = Inr \<lparr>vu_user_id = u, vu_api_key_id = k\<rparr>"
    by (auto simp: verify_token_def)
qed

theorem verify_token_iff_witness:
  "let rows = [\<lparr>ak_id = ''k1'', ak_user_id = ''u1'', ak_token = ''mm_a'', ak_expires_at = Some 10, ak_last_used_at = None\<rparr>]
   in verify_token (query_table rows) 10 ''mm_a'' = Inr \<lparr>vu_user_id = ''u1'', vu_api_key_id = ''k1''\<rparr>"
  using verify_token_iff [of "[\<lparr>ak_id = ''k1'', ak_user_id = ''u1'', ak_token = ''mm_a'', ak_expires_at = Some 10,
      ak_last_used_at = None\<rparr>]" 10 "''mm_a''" "''u1''" "''k1''"]
  by simp

end
