(* ===== verification/Cli.thy ===== *)
theory Cli
  imports Prelude
begin

text \<open>
  The command line crate: the credentials of \<open>crates/cli/src/args.rs\<close>, the help page of
  \<open>crates/cli/src/help.rs\<close> and the manifest reader of \<open>crates/cli/src/manifest.rs\<close>.

  A text here is a list of Unicode scalar values, Rust's \<open>char\<close>s, because the help page measures
  texts in bytes (\<open>str::len\<close>, the UTF-8 length) and pads them in characters (the width of a format
  specification). The argument parser \<open>clap\<close> and the TOML parser are not in the repository: a
  \<open>clap::Command\<close> is a tree of what its getters return once \<open>build\<close> has run, and the parser that
  fills a manifest is a parameter. \<open>upper\<close> is the Unicode table of upper-case letters.

  The lemmas: every description of the help page starts in the same column, whatever the
  characters of the signatures; what is hidden does not appear; trimming removes exactly the
  trailing punctuation and its loop runs at most once.
\<close>

section \<open>Definitions\<close>

subsection \<open>Text\<close>

type_synonym rust_char = nat

type_synonym rust_text = "rust_char list"

text \<open>An ASCII literal of the source.\<close>

definition lit :: "string \<Rightarrow> rust_text" where
  "lit s = map of_char s"

definition utf8_width :: "rust_char \<Rightarrow> nat" where
  "utf8_width c = (if c < 128 then 1 else if c < 2048 then 2 else if c < 65536 then 3 else 4)"

text \<open>\<open>str::len\<close>.\<close>

definition text_len :: "rust_text \<Rightarrow> nat" where
  "text_len s = sum_list (map utf8_width s)"

definition is_whitespace :: "rust_char \<Rightarrow> bool" where
  "is_whitespace c \<longleftrightarrow>
     9 \<le> c \<and> c \<le> 13 \<or> c = 32 \<or> c = 133 \<or> c = 160 \<or> c = 5760 \<or> 8192 \<le> c \<and> c \<le> 8202 \<or>
     c \<in> {8232, 8233, 8239, 8287, 12288}"

text \<open>\<open>trim_end_matches\<close>, \<open>trim\<close>, the first of \<open>lines\<close>, \<open>to_uppercase\<close>, and padding on the right.\<close>

definition trim_end_matches :: "(rust_char \<Rightarrow> bool) \<Rightarrow> rust_text \<Rightarrow> rust_text" where
  "trim_end_matches p s = rev (dropWhile p (rev s))"

definition trim :: "rust_text \<Rightarrow> rust_text" where
  "trim s = trim_end_matches is_whitespace (dropWhile is_whitespace s)"

definition first_line :: "rust_text \<Rightarrow> rust_text" where
  "first_line s =
     (let line = takeWhile (\<lambda>c. c \<noteq> 10) s
      in if 10 \<in> set s \<and> line \<noteq> [] \<and> last line = 13 then butlast line else line)"

definition to_uppercase :: "(rust_char \<Rightarrow> rust_text) \<Rightarrow> rust_text \<Rightarrow> rust_text" where
  "to_uppercase upper s = concat (map upper s)"

definition pad_right :: "nat \<Rightarrow> rust_text \<Rightarrow> rust_text" where
  "pad_right width s = s @ replicate (width - length s) 32"

text \<open>\<open>String::truncate_at\<close> at a byte length that ends a character.\<close>

fun truncate_at :: "nat \<Rightarrow> rust_text \<Rightarrow> rust_text" where
  "truncate_at n [] = []"
| "truncate_at n (c # s) = (if utf8_width c \<le> n then c # truncate_at (n - utf8_width c) s else [])"

fun join_with :: "rust_text \<Rightarrow> rust_text list \<Rightarrow> rust_text" where
  "join_with sep [] = []"
| "join_with sep [s] = s"
| "join_with sep (s # t # ss) = s @ sep @ join_with sep (t # ss)"

subsection \<open>Credentials\<close>

record tokimo_auth_args =
  ta_token :: "rust_text option"

record credentials =
  cr_token :: rust_text

definition resolve :: "tokimo_auth_args \<Rightarrow> rust_text + credentials" where
  "resolve args =
     (case Option.bind (ta_token args) (\<lambda>t. if trim t \<noteq> [] then Some t else None) of
        Some token \<Rightarrow> Inr \<lparr>cr_token = token\<rparr>
      | None \<Rightarrow>
          Inl (lit ''missing --tokimo-token (or TOKIMO_TOKEN env). Create one in the main server Settings ''
               @ [8594] @ lit '' API Keys.''))"

subsection \<open>Manifests\<close>

record database_section =
  ds_schema :: "rust_text option"

record runtime_section =
  rs_ui_dist :: "rust_text option"

record manifest =
  mf_database :: "database_section option"
  mf_runtime :: "runtime_section option"

definition parse_app_schema ::
  "(rust_text \<Rightarrow> rust_text + manifest) \<Rightarrow> rust_text \<Rightarrow> rust_text + rust_text option" where
  "parse_app_schema from_str toml_str =
     (case from_str toml_str of
        Inl e \<Rightarrow> Inl e
      | Inr m \<Rightarrow> Inr (Option.bind (mf_database m) ds_schema))"

definition parse_app_ui_dist ::
  "(rust_text \<Rightarrow> rust_text + manifest) \<Rightarrow> rust_text \<Rightarrow> rust_text + rust_text option" where
  "parse_app_ui_dist from_str toml_str =
     (case from_str toml_str of
        Inl e \<Rightarrow> Inl e
      | Inr m \<Rightarrow> Inr (Option.bind (mf_runtime m) rs_ui_dist))"

subsection \<open>The command tree\<close>

datatype arg_action =
    ActSet | ActAppend | ActSetTrue | ActSetFalse | ActCount
  | ActHelp | ActHelpShort | ActHelpLong | ActVersion

record clap_arg =
  ca_id :: rust_text
  ca_long :: "rust_text option"
  ca_global :: bool
  ca_positional :: bool
  ca_hide :: bool
  ca_required :: bool
  ca_max_values :: "nat option"
  ca_value_names :: "rust_text list option"
  ca_help :: "rust_text option"
  ca_env :: "rust_text option"
  ca_action :: arg_action

datatype clap_command =
  ClapCommand
    (cp_name: rust_text)
    (cp_long_about: "rust_text option")
    (cp_about: "rust_text option")
    (cp_hide: bool)
    (cp_arguments: "clap_arg list")
    (cp_subcommands: "clap_command list")

subsection \<open>The help page\<close>

definition PUNCT :: "rust_char list" where
  "PUNCT =
     [12290, 65281, 65311, 65307, 65292, 12289, 8230, 8230, of_char CHR ''.'', of_char CHR ''!'',
      of_char CHR ''?'', of_char CHR '';'', of_char CHR '','']"

definition is_punct :: "rust_char \<Rightarrow> bool" where
  "is_punct c \<longleftrightarrow> c \<in> set PUNCT"

lemma utf8_width_pos [simp]: "0 < utf8_width c"
  by (simp add: utf8_width_def)

lemma truncate_prefix [simp]: "truncate_at (text_len s) (s @ t) = s"
proof (induction s)
  case Nil
  then show ?case by (cases t) (simp_all add: text_len_def utf8_width_def)
next
  case (Cons c s)
  then show ?case by (simp add: text_len_def)
qed

lemma trim_end_split:
  obtains t where "s = trim_end_matches p s @ t" "\<forall>c \<in> set t. p c"
proof
  have "s = rev (takeWhile p (rev s) @ dropWhile p (rev s))" by simp
  then show "s = trim_end_matches p s @ rev (takeWhile p (rev s))"
    unfolding rev_append trim_end_matches_def .
qed (auto dest: set_takeWhileD)

lemma truncate_trimmed [simp]: "truncate_at (text_len (trim_end_matches p s)) s = trim_end_matches p s"
proof -
  obtain t where "s = trim_end_matches p s @ t" by (rule trim_end_split)
  then show ?thesis by (metis truncate_prefix)
qed

lemma trim_end_shrinks: "s \<noteq> [] \<Longrightarrow> p (last s) \<Longrightarrow> length (trim_end_matches p s) < length s"
  by (cases s rule: rev_cases) (auto simp: trim_end_matches_def less_Suc_eq_le intro: le_trans [OF length_dropWhile_le])

function trim_trailing_punctuation :: "rust_text \<Rightarrow> rust_text" where
  "trim_trailing_punctuation s =
     (if s \<noteq> [] \<and> is_punct (last s)
      then trim_trailing_punctuation (truncate_at (text_len (trim_end_matches is_punct s)) s)
      else s)"
  by pat_completeness auto

termination trim_trailing_punctuation
  by (relation "measure length") (simp_all add: trim_end_shrinks)

declare trim_trailing_punctuation.simps [simp del]

definition is_value_taking :: "clap_arg \<Rightarrow> bool" where
  "is_value_taking arg \<longleftrightarrow> ca_action arg \<notin> {ActSetTrue, ActSetFalse, ActCount, ActHelp, ActVersion}"

definition leaf_placeholder :: "(rust_char \<Rightarrow> rust_text) \<Rightarrow> clap_arg \<Rightarrow> rust_text" where
  "leaf_placeholder upper arg =
     (let name = to_uppercase upper (ca_id arg);
          multiple = (case ca_max_values arg of None \<Rightarrow> False | Some n \<Rightarrow> 1 < n);
          placeholder = (if ca_required arg then lit ''<'' @ name @ lit ''>'' else lit ''['' @ name @ lit '']'')
      in if multiple then placeholder @ lit ''...'' else placeholder)"

definition build_leaf_signature :: "(rust_char \<Rightarrow> rust_text) \<Rightarrow> clap_command \<Rightarrow> rust_text" where
  "build_leaf_signature upper cmd =
     join_with (lit '' '')
       (cp_name cmd # map (leaf_placeholder upper) (filter ca_positional (cp_arguments cmd)))"

definition describe :: "rust_text option \<Rightarrow> rust_text" where
  "describe about =
     (case about of None \<Rightarrow> [] | Some a \<Rightarrow> trim_trailing_punctuation (trim (first_line a)))"

definition listed :: "clap_command \<Rightarrow> bool" where
  "listed sub \<longleftrightarrow> \<not> (cp_hide sub \<or> cp_name sub = lit ''help'')"

definition child_row :: "(rust_char \<Rightarrow> rust_text) \<Rightarrow> clap_command \<Rightarrow> rust_text \<times> rust_text" where
  "child_row upper sub =
     (if cp_subcommands sub \<noteq> [] then cp_name sub else build_leaf_signature upper sub,
      describe (cp_about sub))"

definition collect_direct_children ::
  "(rust_char \<Rightarrow> rust_text) \<Rightarrow> clap_command \<Rightarrow> (rust_text \<times> rust_text) list" where
  "collect_direct_children upper cmd = map (child_row upper) (filter listed (cp_subcommands cmd))"

definition format_option_left :: "(rust_char \<Rightarrow> rust_text) \<Rightarrow> clap_arg \<Rightarrow> rust_text" where
  "format_option_left upper arg =
     (case ca_long arg of
        None \<Rightarrow> []
      | Some long \<Rightarrow>
          lit ''--'' @ long @
          (if is_value_taking arg
           then lit '' <'' @
                (case Option.bind (ca_value_names arg) (\<lambda>ns. case ns of [] \<Rightarrow> None | n # _ \<Rightarrow> Some n) of
                   None \<Rightarrow> to_uppercase upper (ca_id arg)
                 | Some n \<Rightarrow> to_uppercase upper n) @ lit ''>''
           else []))"

definition format_option_right :: "clap_arg \<Rightarrow> rust_text" where
  "format_option_right arg =
     (let first = (case ca_help arg of None \<Rightarrow> [] | Some h \<Rightarrow> trim (first_line h))
      in case ca_env arg of
           Some env \<Rightarrow>
             (if first = [] then lit ''[env: '' @ env @ lit '']''
              else first @ lit ''  [env: '' @ env @ lit '']'')
         | None \<Rightarrow> first)"

definition global_option :: "clap_arg \<Rightarrow> bool" where
  "global_option a \<longleftrightarrow>
     ca_global a \<and> \<not> ca_positional a \<and> \<not> ca_hide a \<and> ca_id a \<noteq> lit ''help'' \<and> ca_id a \<noteq> lit ''version''"

text \<open>Both tables are printed alike: the left column is padded to its longest entry, in bytes.\<close>

definition left_width :: "(rust_text \<times> rust_text) list \<Rightarrow> nat" where
  "left_width rows = fold max (map (text_len \<circ> fst) rows) 0"

definition table_line :: "nat \<Rightarrow> rust_text \<times> rust_text \<Rightarrow> rust_text" where
  "table_line width row =
     (if snd row = [] then lit ''  '' @ fst row
      else lit ''  '' @ pad_right width (fst row) @ lit ''  '' @ snd row)"

definition table_section :: "string \<Rightarrow> (rust_text \<times> rust_text) list \<Rightarrow> rust_text list" where
  "table_section title rows =
     (if rows = [] then [] else lit title # map (table_line (left_width rows)) rows @ [[]])"

definition help_header :: "clap_command \<Rightarrow> rust_text list" where
  "help_header cmd =
     (case (case cp_long_about cmd of None \<Rightarrow> cp_about cmd | Some t \<Rightarrow> Some t) of
        None \<Rightarrow> []
      | Some header \<Rightarrow> [header, []])"

text \<open>The lines printed, each by one \<open>println!\<close>, for a command that \<open>build\<close> has completed.\<close>

definition print_help_unified :: "(rust_char \<Rightarrow> rust_text) \<Rightarrow> clap_command \<Rightarrow> rust_text list" where
  "print_help_unified upper cmd =
     help_header cmd @
     [lit ''Usage: '' @ cp_name cmd @ lit '' [OPTIONS] <SUBCOMMAND>'', []] @
     table_section ''Commands:'' (collect_direct_children upper cmd) @
     table_section ''Global Options:''
       (map (\<lambda>a. (format_option_left upper a, format_option_right a))
          (filter global_option (cp_arguments cmd))) @
     [lit ''Run '' @ [39] @ cp_name cmd @ lit '' <subcommand> --help'' @ [39] @
      lit '' for details on a specific command.'']"

text \<open>A line of a table: two spaces, the left entry, at least two spaces, and the right one in column \<open>w\<close>.\<close>

definition in_columns :: "nat \<Rightarrow> rust_text \<Rightarrow> rust_text \<Rightarrow> rust_text \<Rightarrow> bool" where
  "in_columns w left right line \<longleftrightarrow>
     (\<exists>k \<ge> 2. line = [32, 32] @ left @ replicate k 32 @ right \<and> 2 + length left + k = w)"

definition ascii_upper :: "rust_char \<Rightarrow> rust_text" where
  "ascii_upper c = (if 97 \<le> c \<and> c \<le> 122 then [c - 32] else [c])"

definition demo_id :: clap_arg where
  "demo_id =
     \<lparr>ca_id = lit ''id'', ca_long = None, ca_global = False, ca_positional = True, ca_hide = False,
      ca_required = True, ca_max_values = Some 1, ca_value_names = None, ca_help = None, ca_env = None,
      ca_action = ActSet\<rparr>"

definition demo_help :: clap_command where
  "demo_help =
     ClapCommand (lit ''bus'') None None False []
       [ClapCommand (lit ''status'') None (Some (lit ''Show status.'')) False [demo_id] [],
        ClapCommand [21015, 34920] None (Some (lit ''List'')) False [] []]"

section \<open>Lemmas\<close>

lemma length_le_text_len: "length s \<le> text_len s"
proof (induction s)
  case (Cons c s)
  have "text_len (c # s) = utf8_width c + text_len s" by (simp add: text_len_def)
  with Cons utf8_width_pos [of c] show ?case unfolding list.size(4) by linarith
qed (simp add: text_len_def)

lemma left_width_ge: "row \<in> set rows \<Longrightarrow> text_len (fst row) \<le> left_width rows"
proof -
  have "n \<in> set ns \<Longrightarrow> n \<le> fold max ns m" "m \<le> fold max ns m" for n m :: nat and ns
    by (induction ns arbitrary: m) (auto intro: le_trans [OF max.cobounded2] le_trans [OF max.cobounded1])
  then show "row \<in> set rows \<Longrightarrow> text_len (fst row) \<le> left_width rows"
    by (simp add: left_width_def)
qed

lemma lit_space [simp]: "lit ''  '' = [32, 32]"
  by (simp add: lit_def)

lemma table_line_in_columns:
  assumes "row \<in> set rows" "snd row \<noteq> []"
  shows "in_columns (left_width rows + 4) (fst row) (snd row) (table_line (left_width rows) row)"
proof -
  have "length (fst row) \<le> left_width rows"
    using length_le_text_len left_width_ge [OF assms(1)] by (rule le_trans)
  moreover have "replicate n x @ [x, x] @ ys = replicate (n + 2) x @ ys" for n and x :: nat and ys
    by (induction n) simp_all
  ultimately show ?thesis
    using assms(2) unfolding in_columns_def table_line_def pad_right_def append_assoc lit_space
    by (intro exI [of _ "left_width rows - length (fst row) + 2"]) (simp del: append_Cons)
qed

lemma table_section_rows: "row \<in> set rows \<Longrightarrow> table_line (left_width rows) row \<in> set (table_section title rows)"
  by (auto simp: table_section_def)

lemma trim_end_idem: "s = [] \<or> \<not> p (last s) \<Longrightarrow> trim_end_matches p s = s"
  by (cases s rule: rev_cases) (simp_all add: trim_end_matches_def)

lemma trim_end_done: "trim_end_matches p s = [] \<or> \<not> p (last (trim_end_matches p s))"
  unfolding trim_end_matches_def using hd_dropWhile [of p "rev s"] by (auto simp: last_rev)

lemmas help_eval =
  lit_def describe_def first_line_def trim_def trim_end_matches_def is_whitespace_def is_punct_def
  PUNCT_def child_row_def build_leaf_signature_def leaf_placeholder_def demo_id_def to_uppercase_def
  ascii_upper_def text_len_def utf8_width_def

text \<open>What is hidden at the top level leaves no trace in the help page.\<close>

lemma help_without_hidden:
  "print_help_unified upper (ClapCommand name long_about about hide args subs) =
   print_help_unified upper (ClapCommand name long_about about hide
     (filter (\<lambda>a. \<not> ca_hide a) args) (filter (\<lambda>c. \<not> cp_hide c) subs))"
proof -
  have "filter listed (filter (\<lambda>c. \<not> cp_hide c) subs) = filter listed subs"
    "filter global_option (filter (\<lambda>a. \<not> ca_hide a) args) = filter global_option args"
    by (auto simp: listed_def global_option_def intro!: filter_cong)
  then show ?thesis by (simp add: print_help_unified_def help_header_def collect_direct_children_def split: option.split)
qed

section \<open>Theorems\<close>

text \<open>
  The loop of \<open>trim_trailing_punctuation\<close> removes exactly the trailing punctuation: its result is
  the text up to the last character that is not punctuation, in one pass over the end.
\<close>

theorem trim_trailing_punctuation_once:
  "trim_trailing_punctuation s = rev (dropWhile is_punct (rev s))"
proof -
  have "trim_trailing_punctuation (trim_end_matches is_punct s) = trim_end_matches is_punct s"
    using trim_end_done [of is_punct s] by (subst trim_trailing_punctuation.simps) auto
  then show ?thesis
    using trim_end_idem [of s is_punct] unfolding trim_end_matches_def [symmetric]
    by (subst trim_trailing_punctuation.simps) auto
qed

text \<open>
  C37. The help page is aligned: each listed subcommand that has a description, and each global option
  that has one, is printed on a line of its own with its name on the left, and all descriptions of a
  table start in one column, two or more spaces after the name. This holds for any characters,
  although the code measures the names in bytes and pads them in characters.
\<close>

theorem help_columns_align:
  "\<exists>w v.
     (\<forall>sub \<in> set (cp_subcommands cmd). listed sub \<and> describe (cp_about sub) \<noteq> [] \<longrightarrow>
        (\<exists>line \<in> set (print_help_unified upper cmd).
           in_columns w (fst (child_row upper sub)) (describe (cp_about sub)) line)) \<and>
     (\<forall>a \<in> set (cp_arguments cmd). global_option a \<and> format_option_right a \<noteq> [] \<longrightarrow>
        (\<exists>line \<in> set (print_help_unified upper cmd).
           in_columns v (format_option_left upper a) (format_option_right a) line))"
proof -
  let ?subs = "collect_direct_children upper cmd"
  let ?opts = "map (\<lambda>a. (format_option_left upper a, format_option_right a)) (filter global_option (cp_arguments cmd))"
  have "\<exists>line \<in> set (print_help_unified upper cmd).
      in_columns (left_width ?subs + 4) (fst (child_row upper sub)) (describe (cp_about sub)) line"
    if "sub \<in> set (cp_subcommands cmd)" "listed sub" "describe (cp_about sub) \<noteq> []" for sub
  proof -
    have row: "child_row upper sub \<in> set ?subs" "snd (child_row upper sub) = describe (cp_about sub)"
      using that by (auto simp: collect_direct_children_def child_row_def)
    then show ?thesis
      using table_line_in_columns [OF row(1)] table_section_rows [OF row(1), of "''Commands:''"] that(3)
      by (auto simp: print_help_unified_def)
  qed
  moreover have "\<exists>line \<in> set (print_help_unified upper cmd).
      in_columns (left_width ?opts + 4) (format_option_left upper a) (format_option_right a) line"
    if "a \<in> set (cp_arguments cmd)" "global_option a" "format_option_right a \<noteq> []" for a
  proof -
    have row: "(format_option_left upper a, format_option_right a) \<in> set ?opts" using that by auto
    then show ?thesis
      using table_line_in_columns [OF row] table_section_rows [OF row, of "''Global Options:''"] that(3)
      by (auto simp: print_help_unified_def)
  qed
  ultimately show ?thesis by blast
qed

theorem help_columns_align_witness:
  "\<exists>w. (\<exists>line \<in> set (print_help_unified ascii_upper demo_help).
          in_columns w (lit ''status <ID>'') (lit ''Show status'') line) \<and>
       (\<exists>line \<in> set (print_help_unified ascii_upper demo_help). in_columns w [21015, 34920] (lit ''List'') line)"
proof -
  let ?status = "ClapCommand (lit ''status'') None (Some (lit ''Show status.'')) False [demo_id] []"
  let ?list = "ClapCommand [21015, 34920] None (Some (lit ''List'')) False [] []"
  have subs: "cp_subcommands demo_help = [?status, ?list]" by (simp add: demo_help_def)
  have listed: "listed ?status" "listed ?list" by (simp_all add: listed_def lit_def)
  have shown: "describe (cp_about ?status) = lit ''Show status''" "describe (cp_about ?list) = lit ''List''"
    "fst (child_row ascii_upper ?status) = lit ''status <ID>''" "fst (child_row ascii_upper ?list) = [21015, 34920]"
    by (simp_all add: help_eval trim_trailing_punctuation.simps [of "[_,_,_,_]"]
        trim_trailing_punctuation.simps [of "[_,_,_,_,_,_,_,_,_,_,_,_]"]
        trim_trailing_punctuation.simps [of "[_,_,_,_,_,_,_,_,_,_,_]"])
  have "lit ''Show status'' \<noteq> []" "lit ''List'' \<noteq> []" by (simp_all add: lit_def)
  then show ?thesis
    using help_columns_align [of demo_help ascii_upper] unfolding subs
    by (simp only: list.set ball_simps listed shown simp_thms) blast
qed

end
