(* ===== verification/Repo_Tests.thy ===== *)
theory Repo_Tests
  imports Network Auth Cli Codec
begin

text \<open>
  The repository's own tests, run on the model: the \<open>tests\<close> modules of \<open>crates/cli\<close>,
  \<open>crates/auth\<close> and \<open>crates/protocol/src/codec.rs\<close>, and the end-to-end tests of
  \<open>crates/broker/tests/e2e.rs\<close>. Each test is the conjunction of its assertions, with its inputs as
  the source has them; what it calls outside the repository is a parameter, with the documented
  behaviour that the test relies on as a hypothesis.
\<close>

section \<open>Definitions\<close>

subsection \<open>The help page\<close>

text \<open>The builders of \<open>clap\<close> that the tests use, with what the getters return after \<open>build\<close>.\<close>

definition new_command :: "string \<Rightarrow> string option \<Rightarrow> bool \<Rightarrow> clap_arg list \<Rightarrow> clap_command list \<Rightarrow> clap_command" where
  "new_command name about hide args subs = ClapCommand (lit name) None (map_option lit about) hide args subs"

definition new_arg :: "string \<Rightarrow> bool \<Rightarrow> nat \<Rightarrow> clap_arg" where
  "new_arg name required max_values =
     \<lparr>ca_id = lit name, ca_long = None, ca_global = False, ca_positional = True, ca_hide = False,
      ca_required = required, ca_max_values = Some max_values, ca_value_names = None, ca_help = None,
      ca_env = None, ca_action = ActSet\<rparr>"

text \<open>
  What \<open>Command::build\<close> keeps: names, descriptions and positional arguments, and the subcommands in
  their order, followed by the generated \<open>help\<close> when there are any. The global options of a command
  are added to its subcommands.
\<close>

definition looks_alike :: "clap_command \<Rightarrow> clap_command \<Rightarrow> bool" where
  "looks_alike c b \<longleftrightarrow>
     cp_name b = cp_name c \<and> cp_about b = cp_about c \<and> cp_hide b = cp_hide c \<and>
     filter ca_positional (cp_arguments b) = filter ca_positional (cp_arguments c) \<and>
     (cp_subcommands b = [] \<longleftrightarrow> cp_subcommands c = [])"

definition clap_builds :: "(clap_command \<Rightarrow> clap_command) \<Rightarrow> bool" where
  "clap_builds build \<longleftrightarrow>
     (\<forall>c. looks_alike c (build c) \<and> set (cp_arguments c) \<subseteq> set (cp_arguments (build c)) \<and>
       (\<exists>subs helps. cp_subcommands (build c) = subs @ helps \<and> list_all2 looks_alike (cp_subcommands c) subs \<and>
         (\<forall>h \<in> set helps. cp_name h = lit ''help'') \<and>
         (\<forall>sub \<in> set subs. \<forall>a \<in> set (cp_arguments c). ca_global a \<and> \<not> ca_positional a \<longrightarrow> a \<in> set (cp_arguments sub))))"

definition ascii_uppercase :: "(rust_char \<Rightarrow> rust_text) \<Rightarrow> bool" where
  "ascii_uppercase upper \<longleftrightarrow> (\<forall>c < 128. upper c = (if 97 \<le> c \<and> c \<le> 122 then [c - 32] else [c]))"

definition test_root_group_not_expanded_leaf_includes_args ::
  "(rust_char \<Rightarrow> rust_text) \<Rightarrow> (clap_command \<Rightarrow> clap_command) \<Rightarrow> bool" where
  "test_root_group_not_expanded_leaf_includes_args upper build =
     (let root = build
            (new_command ''bus'' None False []
               [new_command ''items'' (Some ''Item management'') False []
                  [new_command ''list'' (Some ''List items'') False [] [],
                   new_command ''add'' (Some ''Add an item'') False [new_arg ''content'' True 1] []],
                new_command ''status'' (Some ''Show status'') False [new_arg ''id'' True 1] []]);
          children = collect_direct_children upper root
      in map_option fst (List.find (\<lambda>(s, _). starts_with s (lit ''items'')) children) = Some (lit ''items'') \<and>
         map_option fst (List.find (\<lambda>(s, _). starts_with s (lit ''status'')) children) = Some (lit ''status <ID>'') \<and>
         length children = 2)"

definition test_group_expands_direct_leaves_without_parent_prefix ::
  "(rust_char \<Rightarrow> rust_text) \<Rightarrow> (clap_command \<Rightarrow> clap_command) \<Rightarrow> bool" where
  "test_group_expands_direct_leaves_without_parent_prefix upper build =
     (let items_cmd = build
            (new_command ''items'' None False []
               [new_command ''list'' (Some ''List items'') False [] [],
                new_command ''add'' (Some ''Add an item'') False [new_arg ''content'' True 1] [],
                new_command ''update'' (Some ''Update an item'') False
                  [new_arg ''id'' True 1, new_arg ''content'' True 1] []]);
          children = collect_direct_children upper items_cmd;
          sigs = map fst children
      in length children = 3 \<and> lit ''list'' \<in> set sigs \<and> lit ''add <CONTENT>'' \<in> set sigs \<and>
         lit ''update <ID> <CONTENT>'' \<in> set sigs)"

definition test_hidden_help_subcommand_filtered ::
  "(rust_char \<Rightarrow> rust_text) \<Rightarrow> (clap_command \<Rightarrow> clap_command) \<Rightarrow> bool" where
  "test_hidden_help_subcommand_filtered upper build =
     (let root = build (new_command ''bus'' None False [] [new_command ''status'' (Some ''Show status'') False [] []]);
          names = map fst (collect_direct_children upper root)
      in lit ''help'' \<notin> set names \<and> lit ''status'' \<in> set names)"

definition test_explicitly_hidden_subcommand_filtered ::
  "(rust_char \<Rightarrow> rust_text) \<Rightarrow> (clap_command \<Rightarrow> clap_command) \<Rightarrow> bool" where
  "test_explicitly_hidden_subcommand_filtered upper build =
     (let root = build
            (new_command ''bus'' None False []
               [new_command ''public'' (Some ''Public command'') False [] [],
                new_command ''internal'' (Some ''Internal command'') True [] []]);
          names = map fst (collect_direct_children upper root)
      in lit ''public'' \<in> set names \<and> lit ''internal'' \<notin> set names)"

definition test_leaf_signature_optional_and_multi_args ::
  "(rust_char \<Rightarrow> rust_text) \<Rightarrow> (clap_command \<Rightarrow> clap_command) \<Rightarrow> bool" where
  "test_leaf_signature_optional_and_multi_args upper build =
     (let cmd_multi = build (new_command ''search'' None False [new_arg ''query'' False (2 ^ 64 - 1)] []);
          sig = build_leaf_signature upper cmd_multi;
          cmd_mixed = build (new_command ''copy'' None False [new_arg ''src'' True 1, new_arg ''dest'' False 1] []);
          sig2 = build_leaf_signature upper cmd_mixed
      in str_contains sig (lit ''[QUERY]...'') \<and> str_contains sig2 (lit ''<SRC>'') \<and>
         str_contains sig2 (lit ''[DEST]'') \<and> \<not> str_contains sig2 (lit ''<DEST>''))"

text \<open>\<open>find_subcommand\<close> and \<open>is_global_set\<close> are getters of \<open>clap\<close>.\<close>

definition test_global_options_visible_after_build :: "(clap_command \<Rightarrow> clap_command) \<Rightarrow> bool" where
  "test_global_options_visible_after_build build =
     (let config = (new_arg ''config'' False 1)
            \<lparr>ca_long := Some (lit ''config''), ca_global := True, ca_positional := False,
             ca_help := Some (lit ''Config file path'')\<rparr>;
          root = build
            (new_command ''test-app'' None False [config]
               [new_command ''items'' None False [] [new_command ''list'' None False [] []]]);
          root_globals = filter ca_global (cp_arguments root)
      in root_globals \<noteq> [] \<and>
         (case List.find (\<lambda>sub. cp_name sub = lit ''items'') (cp_subcommands root) of
            None \<Rightarrow> False
          | Some items \<Rightarrow> filter ca_global (cp_arguments items) \<noteq> []))"

subsection \<open>Credentials and manifests\<close>

definition resolve_requires_token :: bool where
  "resolve_requires_token = (case resolve \<lparr>ta_token = None\<rparr> of Inl e \<Rightarrow> True | Inr creds \<Rightarrow> False)"

definition resolve_returns_token :: bool where
  "resolve_returns_token = (map_sum id cr_token (resolve \<lparr>ta_token = Some (lit ''mm_test'')\<rparr>) = Inr (lit ''mm_test''))"

text \<open>Lines of a document, each after a newline, as in the raw string literals of the tests.\<close>

definition document :: "string list \<Rightarrow> rust_text" where
  "document lines = concat (map (\<lambda>l. lit l @ [10]) ([] # lines))"

definition quoted :: "string \<Rightarrow> string" where
  "quoted s = [CHR 0x22] @ s @ [CHR 0x22]"

definition toml_app :: "string list" where
  "toml_app = [''[app]'', ''id = '' @ quoted ''myapp'']"

definition toml_with_schema :: rust_text where
  "toml_with_schema =
     document (toml_app @ [[], ''[database]'', ''schema = '' @ quoted ''my_schema'', ''migrations_dir = '' @ quoted ''migrations''])"

definition toml_without_schema :: rust_text where
  "toml_without_schema = document (toml_app @ [[], ''[database]'', ''migrations_dir = '' @ quoted ''migrations''])"

definition toml_with_ui_dist :: rust_text where
  "toml_with_ui_dist = document (toml_app @ [[], ''[runtime]'', ''ui_dist = '' @ quoted ''ui/dist''])"

text \<open>What the TOML parser makes of the four documents.\<close>

definition toml_reads :: "(rust_text \<Rightarrow> rust_text + manifest) \<Rightarrow> bool" where
  "toml_reads from_str \<longleftrightarrow>
     from_str toml_with_schema = Inr \<lparr>mf_database = Some \<lparr>ds_schema = Some (lit ''my_schema'')\<rparr>, mf_runtime = None\<rparr> \<and>
     from_str toml_without_schema = Inr \<lparr>mf_database = Some \<lparr>ds_schema = None\<rparr>, mf_runtime = None\<rparr> \<and>
     from_str toml_with_ui_dist = Inr \<lparr>mf_database = None, mf_runtime = Some \<lparr>rs_ui_dist = Some (lit ''ui/dist'')\<rparr>\<rparr> \<and>
     from_str (document toml_app) = Inr \<lparr>mf_database = None, mf_runtime = None\<rparr>"

definition with_database_schema :: "(rust_text \<Rightarrow> rust_text + manifest) \<Rightarrow> bool" where
  "with_database_schema from_str \<longleftrightarrow> parse_app_schema from_str toml_with_schema = Inr (Some (lit ''my_schema''))"

definition without_database_section :: "(rust_text \<Rightarrow> rust_text + manifest) \<Rightarrow> bool" where
  "without_database_section from_str \<longleftrightarrow> parse_app_schema from_str (document toml_app) = Inr None"

definition database_without_schema_field :: "(rust_text \<Rightarrow> rust_text + manifest) \<Rightarrow> bool" where
  "database_without_schema_field from_str \<longleftrightarrow> parse_app_schema from_str toml_without_schema = Inr None"

definition with_runtime_ui_dist :: "(rust_text \<Rightarrow> rust_text + manifest) \<Rightarrow> bool" where
  "with_runtime_ui_dist from_str \<longleftrightarrow> parse_app_ui_dist from_str toml_with_ui_dist = Inr (Some (lit ''ui/dist''))"

definition without_runtime_section :: "(rust_text \<Rightarrow> rust_text + manifest) \<Rightarrow> bool" where
  "without_runtime_section from_str \<longleftrightarrow> parse_app_ui_dist from_str (document toml_app) = Inr None"

subsection \<open>The extractor and the codec\<close>

text \<open>The header of the mock request; its value is visible ASCII.\<close>

definition request_parts :: "string option \<Rightarrow> string option option" where
  "request_parts user_id = map_option Some user_id"

definition extracts_user_id_from_header :: bool where
  "extracts_user_id_from_header =
     (case from_request_parts (request_parts (Some ''user-1'')) of
        Inl e \<Rightarrow> False
      | Inr user \<Rightarrow> tu_user_id user = ''user-1'')"

definition rejects_missing_header :: bool where
  "rejects_missing_header =
     (case from_request_parts (request_parts None) of
        Inl (status, body) \<Rightarrow>
          status = STATUS_UNAUTHORIZED \<and> body = ''missing X-Tokimo-User-Id (not authenticated by main server)''
      | Inr user \<Rightarrow> False)"

definition echo_decl :: method_decl where
  "echo_decl =
     \<lparr>md_name = ''echo'', md_requires_auth = False, md_streaming = False, md_http_method = Post,
      md_path = None, md_description = None\<rparr>"

definition roundtrip_hello ::
  "(bus_frame \<Rightarrow> string + bytes) \<Rightarrow> (bytes \<Rightarrow> string + bus_frame) \<Rightarrow> string \<Rightarrow> hello_request \<Rightarrow> bool" where
  "roundtrip_hello enc dec eof hello =
     (case write_frame enc (Hello hello) fresh_writer of
        (Inl e, w) \<Rightarrow> False
      | (Inr _, w) \<Rightarrow>
          (case fst (read_frame dec (eof_reader (wr_out w) eof)) of
             Inr (Hello h) \<Rightarrow> hr_service h = ''helloworld''
           | _ \<Rightarrow> False))"

definition hello_frame :: hello_request where
  "hello_frame =
     \<lparr>hr_protocol = PROTOCOL_CURRENT, hr_service = ''helloworld'', hr_version = ''0.1.0'', hr_pid = 1234,
      hr_auth_token = ''tok'', hr_methods = [echo_decl], hr_events = [], hr_data_plane = None\<rparr>"

definition clean_eof_returns_none :: "(bytes \<Rightarrow> string + bus_frame) \<Rightarrow> string \<Rightarrow> bool" where
  "clean_eof_returns_none dec eof \<longleftrightarrow> fst (read_frame_opt dec (eof_reader [] eof)) = Inr None"

subsection \<open>End to end\<close>

text \<open>
  A test is a run of \<open>Network\<close>: the steps that the tasks of broker and client take in the test, the
  handlers' results computed from what the model hands to them. The token is made from the clock
  \<open>ns\<close> and the process id.
\<close>

definition utf8 :: "string \<Rightarrow> bytes" where
  "utf8 s = map of_char s"

definition test_client_builder :: "string \<Rightarrow> string \<Rightarrow> client_builder" where
  "test_client_builder path token =
     builder_on_invoke ''echo'' 0 (builder_method echo_decl
       (builder_service ''helloworld'' ''0.1.0'' (builder_new (config_unix path token))))"

definition test_config :: broker_config where
  "test_config = \<lparr>bc_heartbeat_interval = duration_from_secs 60, bc_default_call_timeout = duration_from_secs 5\<rparr>"

definition broker_call :: "broker_config \<Rightarrow> string \<Rightarrow> string \<Rightarrow> bytes \<Rightarrow> bus_action" where
  "broker_call config service m payload =
     HttpCall \<lparr>cs_service = service, cs_method = m, cs_payload = payload, cs_caller = caller_ctx_default,
               cs_timeout = bc_default_call_timeout config\<rparr>"

text \<open>The client's handler \<open>|req| Ok(req.payload)\<close>, and the local service's, which asserts its method.\<close>

definition echo_returns :: "conn_id \<Rightarrow> nat \<Rightarrow> net \<Rightarrow> net_action option" where
  "echo_returns c d s =
     (case nt_apps s c of
        None \<Rightarrow> None
      | Some A \<Rightarrow>
          (case ap_dispatches A d of
             Some (Running h req req_id ctx) \<Rightarrow> Some (NetApp c (HandlerReturns d (Inr (ir_payload req))))
           | _ \<Rightarrow> None))"

definition ack_resolves :: "call_id \<Rightarrow> bus \<Rightarrow> bus_action option" where
  "ack_resolves i s =
     (case bus_tasks s i of
        Some (Awaiting og spec (WaitLocal h m payload caller)) \<Rightarrow>
          (if m = ''notify'' then Some (LocalResolves i (Inr (utf8 ''ack:'' @ payload))) else None)
      | _ \<Rightarrow> None)"

definition task_result :: "bus \<Rightarrow> call_id \<Rightarrow> bytes bus_result option" where
  "task_result s i = (case bus_tasks s i of Some (Done r) \<Rightarrow> Some r | _ \<Rightarrow> None)"

definition echo_session :: "client_builder \<Rightarrow> hello_request \<Rightarrow> u64 \<Rightarrow> u32 \<Rightarrow> net_action list" where
  "echo_session b hello ns pid =
     [NetBus (IssueToken ''helloworld'' ns pid), NetBus (Accept (Inr (Some (Hello hello)))), NetAckWrite 0 True,
      NetEstablish 0 (cb_cfg b) (cb_handlers b) 0,
      NetBus (broker_call test_config ''helloworld'' ''echo'' (utf8 ''hello'')), NetBus (StartTask 1),
      NetBusWrite 0 True, NetAppRead 0, NetApp 0 (DispatchStart 0)]"

definition echo_rest :: "net_action list" where
  "echo_rest =
     [NetAppWrite 0 True, NetBusRead 0, NetBus (OneshotReady 1),
      NetBus (broker_call test_config ''unknown'' ''x'' []), NetBus (StartTask 2),
      NetBus (broker_call test_config ''helloworld'' ''nope'' []), NetBus (StartTask 3), NetApp 0 AppShutdown]"

definition echo_roundtrip ::
  "(bytes \<Rightarrow> capability_response option) \<Rightarrow> (bus_frame \<Rightarrow> string) \<Rightarrow> string \<Rightarrow> u64 \<Rightarrow> u32 \<Rightarrow> u32 \<Rightarrow> bool" where
  "echo_roundtrip json debug path ns pid client_pid =
     (let b = test_client_builder path (random_token ns pid 0)
      in case build_hello client_pid b of
           Inl e \<Rightarrow> False
         | Inr hello \<Rightarrow>
             (case Option.bind (run_actions (net_exec json debug) (echo_session b hello ns pid) (net_init test_config))
                     (\<lambda>s. Option.bind (echo_returns 0 0 s) (\<lambda>a. run_actions (net_exec json debug) (a # echo_rest) s)) of
                None \<Rightarrow> False
              | Some s \<Rightarrow>
                  task_result (nt_bus s) 1 = Some (Inr (utf8 ''hello'')) \<and>
                  task_result (nt_bus s) 2 = Some (Inl (ServiceNotFound ''unknown'')) \<and>
                  task_result (nt_bus s) 3 = Some (Inl (MethodNotFound ''helloworld'' ''nope''))))"

text \<open>The broker's answer to a token that was never issued, as the client takes it.\<close>

definition bad_token_rejected :: "(bus_frame \<Rightarrow> string) \<Rightarrow> string \<Rightarrow> u32 \<Rightarrow> bool" where
  "bad_token_rejected debug path client_pid =
     (case build_hello client_pid (test_client_builder path ''bogus-token'') of
        Inl e \<Rightarrow> False
      | Inr hello \<Rightarrow>
          (case snd (serve_handshake 0 (Inr (Some (Hello hello))) (broker_new broker_config_default)) of
             HsRejected reply \<Rightarrow> hello_reply debug (Inr (Some reply)) = Inl InvalidAuthToken
           | _ \<Rightarrow> False))"

definition local_service_handler :: "(bytes \<Rightarrow> capability_response option) \<Rightarrow> bool" where
  "local_service_handler json =
     (case run_actions (bus_exec json)
             [RegisterLocal ''notification_center'' [echo_decl\<lparr>md_name := ''notify''\<rparr>] 0,
              broker_call broker_config_default ''notification_center'' ''notify'' (utf8 ''hello''), StartTask 0]
             (bus_init broker_config_default) of
        None \<Rightarrow> False
      | Some s \<Rightarrow>
          has_local_service (bus_broker s) ''notification_center'' \<and>
          (case Option.bind (ack_resolves 0 s) (\<lambda>a. bus_exec json a s) of
             None \<Rightarrow> False
           | Some t \<Rightarrow> task_result t 0 = Some (Inr (utf8 ''ack:hello''))))"

section \<open>Lemmas\<close>

lemma of_char_upper: "ascii_uppercase upper \<Longrightarrow> c < 128 \<Longrightarrow> upper c = (if 97 \<le> c \<and> c \<le> 122 then [c - 32] else [c])"
  by (simp add: ascii_uppercase_def)

text \<open>Building a command changes nothing that the help page reads.\<close>

lemma signature_alike: "looks_alike c b \<Longrightarrow> build_leaf_signature upper b = build_leaf_signature upper c"
  by (simp add: looks_alike_def build_leaf_signature_def)

lemma row_alike: "looks_alike c b \<Longrightarrow> child_row upper b = child_row upper c"
  by (simp add: child_row_def signature_alike) (simp add: looks_alike_def)

lemma listed_alike: "looks_alike c b \<Longrightarrow> listed b = listed c"
  by (simp add: looks_alike_def listed_def)

lemma rows_alike: "list_all2 looks_alike cs bs \<Longrightarrow> map (child_row upper) (filter listed bs) = map (child_row upper) (filter listed cs)"
  by (induction cs bs rule: list_all2_induct) (simp_all add: row_alike listed_alike)

lemma clap_buildsD:
  assumes "clap_builds build"
  obtains subs helps where "looks_alike c (build c)" "set (cp_arguments c) \<subseteq> set (cp_arguments (build c))"
    "cp_subcommands (build c) = subs @ helps" "list_all2 looks_alike (cp_subcommands c) subs" "\<forall>h \<in> set helps. cp_name h = lit ''help''"
    "\<forall>sub \<in> set subs. \<forall>a \<in> set (cp_arguments c). ca_global a \<and> \<not> ca_positional a \<longrightarrow> a \<in> set (cp_arguments sub)"
  using assms unfolding clap_builds_def by metis

lemma signature_of_built:
  assumes "clap_builds build"
  shows "build_leaf_signature upper (build c) = build_leaf_signature upper c"
  using assms signature_alike by (rule clap_buildsD)

lemma children_of_built:
  assumes "clap_builds build"
  shows "collect_direct_children upper (build c) = collect_direct_children upper c"
proof -
  obtain subs helps where h: "cp_subcommands (build c) = subs @ helps" "list_all2 looks_alike (cp_subcommands c) subs"
    "\<forall>h \<in> set helps. cp_name h = lit ''help''"
    using assms by (rule clap_buildsD)
  then have "filter listed helps = []" by (auto simp: listed_def)
  with h(1) rows_alike [OF h(2)] show ?thesis by (simp add: collect_direct_children_def)
qed

lemmas help_eval =
  collect_direct_children_def child_row_def listed_def build_leaf_signature_def leaf_placeholder_def
  new_command_def new_arg_def to_uppercase_def lit_def Let_def

subsection \<open>Unit tests\<close>

lemma help_test_root:
  assumes "clap_builds build" "ascii_uppercase upper"
  shows "test_root_group_not_expanded_leaf_includes_args upper build"
  unfolding test_root_group_not_expanded_leaf_includes_args_def Let_def children_of_built [OF assms(1)] by (simp add: help_eval of_char_upper [OF assms(2)])

lemma help_test_group:
  assumes "clap_builds build" "ascii_uppercase upper"
  shows "test_group_expands_direct_leaves_without_parent_prefix upper build"
  unfolding test_group_expands_direct_leaves_without_parent_prefix_def Let_def children_of_built [OF assms(1)] by (simp add: help_eval of_char_upper [OF assms(2)])

lemma help_test_hidden:
  assumes "clap_builds build" "ascii_uppercase upper"
  shows "test_hidden_help_subcommand_filtered upper build"
  unfolding test_hidden_help_subcommand_filtered_def Let_def children_of_built [OF assms(1)] by (simp add: help_eval of_char_upper [OF assms(2)])

lemma help_test_internal:
  assumes "clap_builds build" "ascii_uppercase upper"
  shows "test_explicitly_hidden_subcommand_filtered upper build"
  unfolding test_explicitly_hidden_subcommand_filtered_def Let_def children_of_built [OF assms(1)] by (simp add: help_eval of_char_upper [OF assms(2)])

lemma help_test_arguments:
  assumes "clap_builds build" "ascii_uppercase upper"
  shows "test_leaf_signature_optional_and_multi_args upper build"
  unfolding test_leaf_signature_optional_and_multi_args_def Let_def signature_of_built [OF assms(1)] by (simp add: help_eval of_char_upper [OF assms(2)])

lemma help_test_globals:
  assumes "clap_builds build"
  shows "test_global_options_visible_after_build build"
proof -
  define config where "config = (new_arg ''config'' False 1)
    \<lparr>ca_long := Some (lit ''config''), ca_global := True, ca_positional := False, ca_help := Some (lit ''Config file path'')\<rparr>"
  define items where "items = new_command ''items'' None False [] [new_command ''list'' None False [] []]"
  define root where "root = new_command ''test-app'' None False [config] [items]"
  obtain subs helps where b: "set (cp_arguments root) \<subseteq> set (cp_arguments (build root))"
    "cp_subcommands (build root) = subs @ helps" "list_all2 looks_alike (cp_subcommands root) subs"
    "\<forall>sub \<in> set subs. \<forall>a \<in> set (cp_arguments root). ca_global a \<and> \<not> ca_positional a \<longrightarrow> a \<in> set (cp_arguments sub)"
    using assms by (rule clap_buildsD)
  have c: "ca_global config" "\<not> ca_positional config" by (simp_all add: config_def)
  from b(3) obtain sub where sub: "subs = [sub]" "cp_name sub = lit ''items''"
    by (auto simp: root_def items_def new_command_def list_all2_Cons1 looks_alike_def)
  have "config \<in> set (cp_arguments (build root))" "config \<in> set (cp_arguments sub)"
    using b(1,4) c sub(1) by (auto simp: root_def new_command_def)
  then have "filter ca_global (cp_arguments (build root)) \<noteq> []" "filter ca_global (cp_arguments sub) \<noteq> []"
    using c by (auto simp: filter_empty_conv)
  with b(2) sub show ?thesis
    unfolding test_global_options_visible_after_build_def Let_def root_def items_def config_def by simp
qed

lemma credential_tests: resolve_requires_token resolve_returns_token
  by (simp_all add: resolve_requires_token_def resolve_returns_token_def resolve_def trim_def trim_end_matches_def lit_def is_whitespace_def)

lemma extractor_tests: "extracts_user_id_from_header" rejects_missing_header
  by (simp_all add: extracts_user_id_from_header_def rejects_missing_header_def from_request_parts_def request_parts_def unauthorized_def)

lemma manifest_tests: "toml_reads from_str \<Longrightarrow> with_database_schema from_str \<and> without_database_section from_str \<and> database_without_schema_field from_str \<and> with_runtime_ui_dist from_str \<and> without_runtime_section from_str"
  by (simp add: toml_reads_def with_database_schema_def without_database_section_def database_without_schema_field_def with_runtime_ui_dist_def without_runtime_section_def parse_app_schema_def parse_app_ui_dist_def)

lemma codec_eof_test: "clean_eof_returns_none dec eof" by (simp add: clean_eof_returns_none_def read_frame_opt_eof eof_reader_def)

lemma codec_roundtrip_test:
  assumes "serde_roundtrip enc dec" "fits_frame enc (Hello hello_frame)"
  shows "roundtrip_hello enc dec eof hello_frame"
proof -
  from assms(2) obtain bs where bs: "enc (Hello hello_frame) = Inr bs" "length bs \<le> 33554432"
    by (auto simp: fits_frame_def)
  with assms(1) have "dec bs = Inr (Hello hello_frame)" by (simp add: serde_roundtrip_def)
  with bs show ?thesis
    by (simp add: roundtrip_hello_def write_frame_ok fresh_writer_def read_frame_def eof_reader_def read_frame_opt_ok hello_frame_def)
qed

subsection \<open>End to end tests\<close>

lemma local_service_test: "local_service_handler json"
  by (simp add: local_service_handler_def demo_eval broker_call_def echo_decl_def register_local_service_def has_local_service_def dm_contains_key_def ack_resolves_def task_result_def resume_task_def finish_task_def utf8_def)

lemma bad_token_test: "bad_token_rejected debug path pid"
  by (simp add: bad_token_rejected_def test_client_builder_def build_hello_def builder_on_invoke_def builder_method_def builder_service_def builder_new_def config_unix_def undeclared_handler_def
   dm_insert_def dm_keys_def dm_get_def echo_decl_def serve_handshake_def consume_token_def broker_new_def hello_reply_def reject_frame_def)

lemma echo_test: "echo_roundtrip json debug path ns pid cpid"
  by (simp add: echo_roundtrip_def test_client_builder_def build_hello_def builder_on_invoke_def builder_method_def builder_service_def builder_new_def config_unix_def undeclared_handler_def
   dm_keys_def echo_decl_def echo_session_def echo_rest_def broker_call_def test_config_def echo_returns_def task_result_def utf8_def
   net_init_def demo_eval push_def ack_frame_def establish_def hello_reply_def client_shutdown_def
      client_new_def app_start_def client_invoke_def client_send_def connection_inbound_def client_response_def
      record_activity_def dispatch_start_def scope_user_id_def reply_to_def deliver_response_def resume_task_def
      finish_task_def stamp_caller_def invoke_of_def str_simps)

subsection \<open>Instances\<close>

text \<open>\<open>build\<close> of a command that has inherited the global options \<open>gs\<close>.\<close>

fun demo_build :: "clap_arg list \<Rightarrow> clap_command \<Rightarrow> clap_command" where
  "demo_build gs (ClapCommand name long about hide args subs) =
     ClapCommand name long about hide (args @ gs)
       (map (demo_build (filter (\<lambda>a. ca_global a \<and> \<not> ca_positional a) args @ gs)) subs @
        (if subs = [] then [] else [new_command ''help'' None False [] []]))"

lemma demo_build_alike: "\<forall>g \<in> set gs. \<not> ca_positional g \<Longrightarrow> looks_alike c (demo_build gs c)"
  by (cases c) (auto simp: looks_alike_def filter_empty_conv)

lemma demo_build_arguments: "set (cp_arguments c) \<union> set gs \<subseteq> set (cp_arguments (demo_build gs c))"
  by (cases c) simp

lemma demo_build_builds: "clap_builds (demo_build [])"
  unfolding clap_builds_def
proof (intro allI conjI)
  fix c
  show "looks_alike c (demo_build [] c)" "set (cp_arguments c) \<subseteq> set (cp_arguments (demo_build [] c))"
    using demo_build_alike [of "[]" c] demo_build_arguments [of c "[]"] by simp_all
  let ?gs = "filter (\<lambda>a. ca_global a \<and> \<not> ca_positional a) (cp_arguments c)"
  let ?subs = "map (demo_build ?gs) (cp_subcommands c)"
  let ?helps = "if cp_subcommands c = [] then [] else [new_command ''help'' None False [] []]"
  have "cp_subcommands (demo_build [] c) = ?subs @ ?helps" by (cases c) simp
  moreover have "list_all2 looks_alike (cp_subcommands c) ?subs"
    by (simp add: list_all2_map2 list.rel_refl_strong demo_build_alike)
  moreover have "\<forall>sub \<in> set ?subs. \<forall>a \<in> set (cp_arguments c). ca_global a \<and> \<not> ca_positional a \<longrightarrow> a \<in> set (cp_arguments sub)"
    using demo_build_arguments [of _ ?gs] by fastforce
  moreover have "\<forall>h \<in> set ?helps. cp_name h = lit ''help''" by (simp add: new_command_def)
  ultimately show "\<exists>subs helps. cp_subcommands (demo_build [] c) = subs @ helps \<and> list_all2 looks_alike (cp_subcommands c) subs \<and>
      (\<forall>h \<in> set helps. cp_name h = lit ''help'') \<and>
      (\<forall>sub \<in> set subs. \<forall>a \<in> set (cp_arguments c). ca_global a \<and> \<not> ca_positional a \<longrightarrow> a \<in> set (cp_arguments sub))"
    by (intro exI conjI)
qed

definition ascii_table :: "rust_char \<Rightarrow> rust_text" where
  "ascii_table c = (if 97 \<le> c \<and> c \<le> 122 then [c - 32] else [c])"

lemma ascii_table_uppercase: "ascii_uppercase ascii_table"
  by (simp add: ascii_uppercase_def ascii_table_def)

definition hello_enc :: "bus_frame \<Rightarrow> string + bytes" where
  "hello_enc f = (if f = Hello hello_frame then Inr [1] else Inl ''encode'')"

definition hello_dec :: "bytes \<Rightarrow> string + bus_frame" where
  "hello_dec bs = (if bs = [1] then Inr (Hello hello_frame) else Inl ''decode'')"

lemma hello_codec: "serde_roundtrip hello_enc hello_dec" "fits_frame hello_enc (Hello hello_frame)"
  by (auto simp: serde_roundtrip_def fits_frame_def hello_enc_def hello_dec_def)

section \<open>Theorems\<close>




end
