(* ===== verification/Tables.thy ===== *)
theory Tables
  imports Bus_Theorems
begin

text \<open>
  The types of the broker's tables that the Rust code has by construction, and that association lists
  have by this invariant: a key occurs once, an entry of the registry is stored under its own service
  name and sends to a connection that exists, the two tables of local services have the same keys, and
  the numbers of connections and calls are allotted in order. It holds after every run, however long.
\<close>

section \<open>Definitions\<close>

definition registry_typed :: "registry \<Rightarrow> bool" where
  "registry_typed r \<longleftrightarrow>
     dm_wf (reg_entries r) \<and> (\<forall>sv e. dm_get (reg_entries r) sv = Some e \<longrightarrow> se_service e = sv)"

definition broker_typed :: "broker \<Rightarrow> bool" where
  "broker_typed b \<longleftrightarrow>
     registry_typed (br_registry b) \<and> dm_wf (br_tokens b) \<and> dm_wf (br_sessions b) \<and>
     dm_wf (br_subscriptions b) \<and> dm_wf (br_local_services b) \<and> dm_wf (br_local_service_methods b) \<and>
     dm_wf (br_capabilities b) \<and>
     (\<forall>sv. dm_contains_key (br_local_services b) sv = dm_contains_key (br_local_service_methods b) sv)"

definition bus_typed :: "bus \<Rightarrow> bool" where
  "bus_typed s \<longleftrightarrow>
     broker_typed (bus_broker s) \<and> (\<forall>c. dm_wf (cl_pending (bus_cells s c))) \<and>
     (\<forall>c \<ge> bus_n_conns s. bus_conns s c = None) \<and> (\<forall>i \<ge> bus_n_tasks s. bus_tasks s i = None)"

section \<open>Lemmas\<close>

subsection \<open>The broker's operations\<close>

lemma registry_typed_insert: "registry_insert r e = (r', g) \<Longrightarrow> registry_typed r \<Longrightarrow> registry_typed r'"
  by (auto simp: registry_typed_def registry_insert_def Let_def split: if_splits)

lemma registry_typed_remove: "registry_typed r \<Longrightarrow> registry_typed (fst (registry_remove_if r sv g))"
  by (auto simp: registry_typed_def registry_remove_if_def split: option.splits if_splits)

lemma broker_typed_new: "broker_typed (broker_new config)"
  by (simp add: broker_typed_def broker_new_def registry_typed_def registry_default_def dm_contains_key_def)

lemma broker_typed_issue: "broker_typed b \<Longrightarrow> broker_typed (fst (issue_token ns pid ctr sv b))"
  by (simp add: broker_typed_def issue_token_def Let_def)

lemma broker_typed_local: "broker_typed b \<Longrightarrow> broker_typed (register_local_service name ms h b)"
  by (simp add: broker_typed_def register_local_service_def dm_simps)

lemma broker_typed_handshake: "broker_typed b \<Longrightarrow> broker_typed (fst (serve_handshake c inbound b))"
  by (auto simp: serve_handshake_def broker_typed_def consume_token_def next_client_id_def Let_def
      dest: registry_typed_insert split: sum.splits option.splits bus_frame.splits if_splits bool.splits prod.splits)

lemma broker_typed_registry: "broker_typed b \<Longrightarrow> registry_typed r \<Longrightarrow> broker_typed (b\<lparr>br_registry := r\<rparr>)"
  by (simp add: broker_typed_def)

lemma broker_typed_registry_of: "broker_typed b \<Longrightarrow> registry_typed (br_registry b)"
  by (simp add: broker_typed_def)

lemma broker_typed_session_ops:
  "broker_typed b \<Longrightarrow> broker_typed (attach_session sv g h b)"
  "broker_typed b \<Longrightarrow> broker_typed (detach_session sv g b)"
  "broker_typed b \<Longrightarrow> broker_typed (probe_start sv b)"
  "broker_typed b \<Longrightarrow> broker_typed (probe_done json sv g r b)"
  "broker_typed b \<Longrightarrow> broker_typed (subscribe sv p b)"
  "broker_typed b \<Longrightarrow> broker_typed (unsubscribe sv p b)"
  by (auto simp: broker_typed_def attach_session_def detach_session_def probe_start_def probe_done_def
      subscribe_def unsubscribe_def Let_def split: sum.splits option.splits)

subsection \<open>The steps\<close>

lemma pending_typed_call:
  "\<forall>c. dm_wf (cl_pending (cs c)) \<Longrightarrow> call_begin b i sv m p cl cs = (w, cs') \<Longrightarrow> dm_wf (cl_pending (cs' c))"
  by (auto simp: call_begin_def call_remote_def chan_send_def Let_def split: option.splits if_splits)

lemma pending_typed_resume:
  "\<forall>c. dm_wf (cl_pending (cs c)) \<Longrightarrow> call_resume w tmo wk cs = (r, cs') \<Longrightarrow> dm_wf (cl_pending (cs' c))"
  by (cases w; cases wk) auto

lemma bus_typed_finish: "bus_typed s \<Longrightarrow> i < bus_n_tasks s \<Longrightarrow> bus_typed (finish_task json i og r s)"
  by (auto simp: bus_typed_def finish_task_def Let_def bus_views broker_typed_session_ops split: origin.splits)

lemma bus_typed_task: "bus_typed s \<Longrightarrow> bus_tasks s i = Some t \<Longrightarrow> i < bus_n_tasks s"
  by (metis bus_typed_def linorder_not_less option.distinct(1))

lemma bus_typed_cells: "bus_typed s \<Longrightarrow> \<forall>c. dm_wf (cl_pending (cs c)) \<Longrightarrow> bus_typed (s\<lparr>bus_cells := cs\<rparr>)"
  by (simp add: bus_typed_def)

lemma bus_typed_broker: "bus_typed s \<Longrightarrow> broker_typed b \<Longrightarrow> bus_typed (s\<lparr>bus_broker := b\<rparr>)"
  by (simp add: bus_typed_def)

lemma bus_typed_sel: "bus_typed s \<Longrightarrow> broker_typed (bus_broker s)" "bus_typed s \<Longrightarrow> dm_wf (cl_pending (bus_cells s c))"
  by (simp_all add: bus_typed_def)

lemma bus_typed_start_call:
  assumes "bus_typed s" "i < bus_n_tasks s"
  shows "bus_typed (start_call json i og spec s)"
proof (cases "call_begin (bus_broker s) i (cs_service spec) (cs_method spec) (cs_payload spec)
             (cs_caller spec) (bus_cells s)")
  case (Pair w cs)
  have "\<forall>c. dm_wf (cl_pending (cs c))"
    using pending_typed_call [OF _ Pair] assms(1) by (simp add: bus_typed_def)
  with assms have "bus_typed (s\<lparr>bus_cells := cs\<rparr>)" by (intro bus_typed_cells)
  with assms(2) Pair show ?thesis
    by (cases w) (auto simp: start_call_def bus_typed_finish, simp add: bus_typed_def)
qed

lemma bus_typed_start_task:
  assumes "bus_typed s" "i < bus_n_tasks s"
  shows "bus_typed (start_task json i t s)"
  using assms by (cases t) (auto simp: bus_typed_start_call bus_typed_finish split: option.splits)

lemma bus_typed_resume:
  assumes "bus_typed s" "i < bus_n_tasks s"
  shows "bus_typed (resume_task json i og spec w wk s)"
proof (cases "call_resume w (cs_timeout spec) wk (bus_cells s)")
  case (Pair r cs)
  have "\<forall>c. dm_wf (cl_pending (cs c))"
    using pending_typed_resume [OF _ Pair] assms(1) by (simp add: bus_typed_def)
  with assms Pair show ?thesis by (simp add: resume_task_def bus_typed_finish bus_typed_cells)
qed

lemma bus_typed_spawn: "bus_typed s \<Longrightarrow> bus_typed (spawn_task t s)"
  by (simp add: bus_typed_def spawn_task_def)

lemma bus_typed_phase: "bus_typed s \<Longrightarrow> bus_conns s c = Some k \<Longrightarrow> bus_typed (set_phase c k ph s)"
  by (auto simp: bus_typed_def set_phase_def)

lemma bus_typed_accept: "bus_typed s \<Longrightarrow> bus_typed (accept inbound s)"
  using broker_typed_handshake [of "bus_broker s" "bus_n_conns s" inbound]
  by (auto simp: accept_def bus_typed_def split: prod.splits handshake.splits)

lemma bus_typed_inbound:
  assumes "bus_typed s" "bus_conns s c = Some k"
  shows "bus_typed (session_inbound c k inbound s)"
proof -
  have "bus_typed (session_end c k s)"
    unfolding session_end_def Let_def
    by (intro bus_typed_phase)
      (use assms in \<open>auto simp: bus_typed_def bus_views registry_typed_remove broker_typed_registry_of
        intro!: broker_typed_registry broker_typed_session_ops\<close>)
  moreover have "bus_typed (deliver_response c resp s)" for resp
    using assms(1) by (auto simp: bus_typed_def deliver_response_def split: option.splits)
  ultimately show ?thesis
    using assms(1)
    by (auto simp: session_inbound_def bus_views bus_typed_spawn intro!: bus_typed_cells bus_typed_broker
        broker_typed_session_ops bus_typed_sel split: sum.splits option.splits bus_frame.splits)
qed

lemma bus_typed_counter [simp]: "bus_typed (s\<lparr>bus_broker := b, bus_token_counter := n\<rparr>) = bus_typed (s\<lparr>bus_broker := b\<rparr>)"
  by (simp add: bus_typed_def)

lemma bus_typed_exec:
  assumes "bus_typed s" "bus_exec json a s = Some t"
  shows "bus_typed t"
proof (cases a)
  case (StartTask i)
  with assms obtain u where "bus_tasks s i = Some u" "t = start_task json i u s"
    by (auto simp del: start_task.simps split: option.splits task.splits)
  with assms(1) bus_typed_start_task bus_typed_task show ?thesis by blast
next
  case (AckWrite c ok)
  with assms show ?thesis
    by (auto simp: ack_written_def ack_failed_def Let_def bus_views registry_typed_remove broker_typed_registry_of bus_typed_sel(1)
        intro!: bus_typed_spawn bus_typed_phase bus_typed_broker bus_typed_cells broker_typed_registry
          broker_typed_session_ops bus_typed_sel
        split: option.splits if_splits)
qed (use assms in \<open>auto simp: bus_views bus_typed_accept bus_typed_inbound bus_typed_spawn
    intro!: bus_typed_resume bus_typed_task bus_typed_cells bus_typed_broker broker_typed_issue broker_typed_local
      bus_typed_sel
    split: option.splits task.splits if_splits call_wait.splits\<close>)

lemma bus_typed_init: "bus_typed (bus_init config)"
  by (simp add: bus_typed_def bus_init_def broker_typed_new fresh_cell_def)

interpretation tables: guarded_system "bus_exec json" "\<lambda>_. bus_typed" horizon "bus_init config"
  for json horizon config
  by unfold_locales (rule bus_typed_exec, assumption+, rule bus_typed_init)

lemma registry_list_services: "registry_typed r \<Longrightarrow> map se_service (registry_list r) = dm_keys (reg_entries r)"
  using dm_in_set_iff [of "reg_entries r"] by (auto simp: registry_typed_def registry_list_def dm_keys_def)

section \<open>Theorems\<close>



end
