(* ===== verification/Rpc_Spec.thy ===== *)
theory Rpc_Spec
  imports Tables
begin

text \<open>
  What the bus promises for its calls, without frames, tables, ids, generations and channels. Services
  are local or have one provider, a connection with its declared methods; a call carries what it asks
  for and for whom. It is refused with an error that the services justify, or resolved locally, or
  sent to the provider if that declares the method and the caller is allowed to use it; then it is
  answered by that provider or expires, and it is finished once. \<open>rpc_of\<close> reads this abstract state
  off the state of the bus, and every action of the bus is one step of \<open>rpc_step\<close> (or none); so what
  holds along all steps of the specification holds along all runs of the bus.
\<close>

section \<open>Definitions\<close>

subsection \<open>The specification\<close>

datatype rpc_call =
    Created "call_spec option"
  | Resolving call_spec
  | Sent conn_id call_spec "bytes bus_result option"
  | Finished "bytes bus_result"

record rpc =
  rp_local :: "string \<Rightarrow> method_decl list option"
  rp_provider :: "string \<Rightarrow> (conn_id \<times> method_decl list) option"
  rp_conns :: nat
  rp_calls :: "call_id \<Rightarrow> rpc_call option"

definition rpc_init :: rpc where
  "rpc_init = \<lparr>rp_local = (\<lambda>_. None), rp_provider = (\<lambda>_. None), rp_conns = 0, rp_calls = (\<lambda>_. None)\<rparr>"

text \<open>The declaration a call refers to, and whether it lets the caller in; local services come first.\<close>

definition declared :: "call_spec \<Rightarrow> method_decl list \<Rightarrow> method_decl option" where
  "declared q ms = List.find (\<lambda>d. md_name d = cs_method q) ms"

definition permitted :: "call_spec \<Rightarrow> method_decl list \<Rightarrow> bool" where
  "permitted q ms \<longleftrightarrow>
     (case declared q ms of
        None \<Rightarrow> False
      | Some d \<Rightarrow> \<not> md_requires_auth d \<or> cc_user_id (cs_caller q) \<noteq> None)"

definition catalogue :: "rpc \<Rightarrow> string \<Rightarrow> method_decl list option" where
  "catalogue s service =
     (case rp_local s service of Some ms \<Rightarrow> Some ms | None \<Rightarrow> map_option snd (rp_provider s service))"

text \<open>
  The errors that justify a refusal. A service that has a provider may still be reported as not found:
  its acknowledgement may be pending, or its connection about to end.
\<close>

fun refusal :: "rpc \<Rightarrow> call_spec \<Rightarrow> bus_error \<Rightarrow> bool" where
  "refusal s q (ServiceNotFound service) \<longleftrightarrow> service = cs_service q \<and> rp_local s service = None"
| "refusal s q (MethodNotFound service m) \<longleftrightarrow>
     service = cs_service q \<and> m = cs_method q \<and> map_option (declared q) (catalogue s service) = Some None"
| "refusal s q (Unauthorized service m) \<longleftrightarrow>
     service = cs_service q \<and> m = cs_method q \<and> cc_user_id (cs_caller q) = None \<and>
     map_option md_requires_auth (Option.bind (catalogue s service) (declared q)) = Some True"
| "refusal s q e \<longleftrightarrow> False"

inductive call_step :: "rpc \<Rightarrow> rpc_call option \<Rightarrow> rpc_call option \<Rightarrow> bool" for s where
  create: "call_step s None (Some (Created q))"
| malformed: "call_step s (Some (Created None)) (Some (Finished (Inl (BadRequest text))))"
| refuse: "refusal s q e \<Longrightarrow> call_step s (Some (Created (Some q))) (Some (Finished (Inl e)))"
| local: "rp_local s (cs_service q) = Some ms \<Longrightarrow> permitted q ms \<Longrightarrow>
    call_step s (Some (Created (Some q))) (Some (Resolving q))"
| resolve: "call_step s (Some (Resolving q)) (Some (Finished r))"
| send: "rp_local s (cs_service q) = None \<Longrightarrow> rp_provider s (cs_service q) = Some (c, ms) \<Longrightarrow> permitted q ms \<Longrightarrow>
    call_step s (Some (Created (Some q))) (Some (Sent c q None))"
| deliver: "call_step s (Some (Sent c q None)) (Some (Sent c q (Some r)))"
| answer: "call_step s (Some (Sent c q (Some r))) (Some (Finished r))"
| expire: "x = Resolving q \<or> x = Sent c q a \<Longrightarrow> \<not> duration_is_zero (cs_timeout q) \<Longrightarrow>
    call_step s (Some x) (Some (Finished (Inl (Timeout (as_millis_u64 (cs_timeout q))))))"

inductive rpc_step :: "rpc \<Rightarrow> rpc \<Rightarrow> bool" where
  idle: "rpc_step s s"
| register: "t = s\<lparr>rp_local := (rp_local s)(service \<mapsto> ms)\<rparr> \<Longrightarrow> rpc_step s t"
| connect: "t = s\<lparr>rp_provider := (rp_provider s)(service \<mapsto> (rp_conns s, ms)), rp_conns := Suc (rp_conns s)\<rparr> \<Longrightarrow>
    rpc_step s t"
| disconnect: "t = s\<lparr>rp_provider := (rp_provider s)(service := None)\<rparr> \<Longrightarrow>
    rp_provider s service = Some p \<Longrightarrow> rpc_step s t"
| call: "call_step s (rp_calls s i) x \<Longrightarrow> t = s\<lparr>rp_calls := (rp_calls s)(i := x)\<rparr> \<Longrightarrow> rpc_step s t"

inductive_cases call_step_Finished: "call_step p (Some (Finished r)) x"
inductive_cases rpc_stepE: "rpc_step s t"

subsection \<open>The bus as an implementation\<close>

text \<open>What a task that has not started asks for, given the default timeout; \<open>None\<close> for a name without a dot.\<close>

fun request_of :: "duration \<Rightarrow> task \<Rightarrow> call_spec option" where
  "request_of timeout (ReadyHttp q) = Some q"
| "request_of timeout (ReadyInvoke c originator v) =
     map_option (\<lambda>(service, m).
         \<lparr>cs_service = service, cs_method = m, cs_payload = inv_payload v,
          cs_caller = stamp_caller originator (inv_caller v), cs_timeout = timeout\<rparr>)
       (split_once (inv_method v) (CHR ''.''))"
| "request_of timeout (ReadyProbe service generation) =
     Some \<lparr>cs_service = service, cs_method = ''capabilities'', cs_payload = probe_payload,
           cs_caller = caller_ctx_default, cs_timeout = timeout\<rparr>"
| "request_of timeout t = None"

fun call_of :: "duration \<Rightarrow> task \<Rightarrow> response option \<Rightarrow> rpc_call" where
  "call_of timeout (Awaiting og q (WaitLocal h m p cl)) shot = Resolving q"
| "call_of timeout (Awaiting og q (WaitRemote h r)) shot = Sent (sh_pending_out h) q (map_option rsp_result shot)"
| "call_of timeout (Done r) shot = Finished r"
| "call_of timeout t shot = Created (request_of timeout t)"

definition rpc_of :: "bus \<Rightarrow> rpc" where
  "rpc_of s =
     \<lparr>rp_local = dm_get (br_local_service_methods (bus_broker s)),
      rp_provider = (\<lambda>service. map_option (\<lambda>e. (se_tx e, se_methods e)) (registry_get (br_registry (bus_broker s)) service)),
      rp_conns = bus_n_conns s,
      rp_calls = (\<lambda>i. map_option (\<lambda>t. call_of (bc_default_call_timeout (br_config (bus_broker s))) t (bus_oneshots s i))
                    (bus_tasks s i))\<rparr>"

text \<open>
  A system whose steps are steps of another one through an abstraction: what every step of the other
  system keeps is kept along the runs of this one.
\<close>

locale simulation = step_system exec inv horizon
  for exec :: "'a \<Rightarrow> 's \<Rightarrow> 's option" and inv :: "nat \<Rightarrow> 's \<Rightarrow> bool" and horizon :: nat +
  fixes abs_of :: "'s \<Rightarrow> 'b"
    and astep :: "'b \<Rightarrow> 'b \<Rightarrow> bool"
  assumes simulates: "inv n s \<Longrightarrow> n < horizon \<Longrightarrow> exec a s = Some t \<Longrightarrow> astep (abs_of s) (abs_of t)"
begin

lemma run_simulates:
  "inv n s \<Longrightarrow> n + length as \<le> horizon \<Longrightarrow> run_actions exec as s = Some t \<Longrightarrow> astep\<^sup>*\<^sup>* (abs_of s) (abs_of t)"
proof (induction as arbitrary: n s)
  case Nil
  then show ?case by simp
next
  case (Cons a as)
  then obtain u where u: "exec a s = Some u" "run_actions exec as u = Some t"
    by (auto split: option.splits)
  with Cons.prems have "inv (Suc n) u" "astep (abs_of s) (abs_of u)"
    using inv_exec simulates by auto
  with Cons.IH [of "Suc n" u] Cons.prems(2) u(2) show ?case by (auto intro: converse_rtranclp_into_rtranclp)
qed

lemma run_keeps:
  assumes "\<And>x y. astep x y \<Longrightarrow> P x \<Longrightarrow> P y"
    and "inv n s" "n + length as \<le> horizon" "run_actions exec as s = Some t" "P (abs_of s)"
  shows "P (abs_of t)"
  using run_simulates [OF assms(2-4)] assms(5) by induction (use assms(1) in auto)

end

text \<open>Two states with the same services, local and remote, and the same configuration.\<close>

definition same_services :: "bus \<Rightarrow> bus \<Rightarrow> bool" where
  "same_services s t \<longleftrightarrow>
     br_registry (bus_broker t) = br_registry (bus_broker s) \<and> bus_n_conns t = bus_n_conns s \<and>
     br_local_service_methods (bus_broker t) = br_local_service_methods (bus_broker s) \<and>
     br_config (bus_broker t) = br_config (bus_broker s)"

section \<open>Lemmas\<close>

named_theorems static_views

lemma local_views [static_views]:
  "br_local_service_methods (probe_done json sv g r b) = br_local_service_methods b"
  "br_local_service_methods (detach_session sv g b) = br_local_service_methods b"
  "br_local_service_methods (attach_session sv g h b) = br_local_service_methods b"
  "br_local_service_methods (probe_start sv b) = br_local_service_methods b"
  "br_local_service_methods (subscribe sv p b) = br_local_service_methods b"
  "br_local_service_methods (unsubscribe sv p b) = br_local_service_methods b"
  "br_config (attach_session sv g h b) = br_config b" "br_config (probe_start sv b) = br_config b"
  by (simp_all add: probe_done_def detach_session_def attach_session_def probe_start_def subscribe_def
      unsubscribe_def Let_def split: sum.splits option.splits)

lemma finish_task_local [static_views]:
  "br_local_service_methods (bus_broker (finish_task json i og r s)) = br_local_service_methods (bus_broker s)"
  by (simp add: finish_task_def Let_def static_views split: origin.splits)

lemma start_call_local [static_views]:
  "br_local_service_methods (bus_broker (start_call json i og sp s)) = br_local_service_methods (bus_broker s)"
  by (simp add: start_call_def static_views split: prod.splits sum.splits)

lemma rpc_of_sel [simp]:
  "rp_local (rpc_of s) = dm_get (br_local_service_methods (bus_broker s))"
  "rp_provider (rpc_of s) =
     (\<lambda>service. map_option (\<lambda>e. (se_tx e, se_methods e)) (registry_get (br_registry (bus_broker s)) service))"
  "rp_conns (rpc_of s) = bus_n_conns s"
  "rp_calls (rpc_of s) i =
     map_option (\<lambda>t. call_of (bc_default_call_timeout (br_config (bus_broker s))) t (bus_oneshots s i)) (bus_tasks s i)"
  by (simp_all add: rpc_of_def)

lemma rpc_eqI:
  "rp_local x = rp_local y \<Longrightarrow> rp_provider x = rp_provider y \<Longrightarrow> rp_conns x = rp_conns y \<Longrightarrow> rp_calls x = rp_calls y \<Longrightarrow>
   x = (y :: rpc)"
  by simp

lemma step_same: "rpc_of t = rpc_of s \<Longrightarrow> rpc_step (rpc_of s) (rpc_of t)"
  by (simp add: rpc_step.idle)

text \<open>A step that changes at most call \<open>i\<close> and no registration.\<close>

lemma step_call:
  assumes "same_services s t"
    and "\<And>j. j \<noteq> i \<Longrightarrow> rp_calls (rpc_of t) j = rp_calls (rpc_of s) j"
    and "call_step (rpc_of s) (rp_calls (rpc_of s) i) (rp_calls (rpc_of t) i)"
  shows "rpc_step (rpc_of s) (rpc_of t)"
proof (rule rpc_step.call [OF assms(3)])
  show "rpc_of t = (rpc_of s)\<lparr>rp_calls := (rp_calls (rpc_of s))(i := rp_calls (rpc_of t) i)\<rparr>"
    using assms(1,2) unfolding same_services_def by (intro rpc_eqI ext) auto
qed

lemma unstarted_Created: "unstarted t \<Longrightarrow> call_of d t shot = Created (request_of d t)"
  by (cases t) auto

lemma check_method_permitted: "check_method (cs_service q) (cs_method q) (cs_caller q) ms = None \<longleftrightarrow> permitted q ms"
  by (auto simp: check_method_def permitted_def declared_def find_method_def split: option.splits)

lemma check_method_refusal:
  "check_method (cs_service q) (cs_method q) (cs_caller q) ms = Some e \<Longrightarrow> catalogue s (cs_service q) = Some ms \<Longrightarrow>
   refusal s q e"
  by (auto simp: check_method_def declared_def find_method_def split: option.splits if_splits)

lemma local_tables:
  assumes "bus_typed s"
  shows "dm_get (br_local_services (bus_broker s)) sv = None \<longleftrightarrow> dm_get (br_local_service_methods (bus_broker s)) sv = None"
proof -
  from assms have "dm_contains_key (br_local_services (bus_broker s)) sv = dm_contains_key (br_local_service_methods (bus_broker s)) sv"
    by (simp add: bus_typed_def broker_typed_def)
  then show ?thesis by (auto simp: dm_contains_key_def)
qed

lemma call_begin_refusal:
  assumes "bus_typed s"
    and "call_begin (bus_broker s) i (cs_service q) (cs_method q) (cs_payload q) (cs_caller q) cs = (Inl e, cs')"
  shows "refusal (rpc_of s) q e"
proof -
  let ?cat = "catalogue (rpc_of s) (cs_service q)"
  have "e = ServiceNotFound (cs_service q) \<and> rp_local (rpc_of s) (cs_service q) = None \<or>
    (\<exists>ms. ?cat = Some ms \<and> check_method (cs_service q) (cs_method q) (cs_caller q) ms = Some e)"
    using assms(2) local_tables [OF assms(1), of "cs_service q"]
    by (auto simp: call_begin_def call_remote_def Let_def catalogue_def
        split: option.splits prod.splits bool.splits)
  then show ?thesis by (auto dest: check_method_refusal)
qed

lemma call_begin_local:
  assumes "bus_typed s"
    and "call_begin (bus_broker s) i (cs_service q) (cs_method q) (cs_payload q) (cs_caller q) cs = (Inr (WaitLocal h m p cl), cs')"
  shows "\<exists>ms. rp_local (rpc_of s) (cs_service q) = Some ms \<and> permitted q ms"
  using assms(2) local_tables [OF assms(1), of "cs_service q"]
  by (auto simp: call_begin_def call_remote_def Let_def check_method_permitted split: option.splits prod.splits bool.splits)

lemma step_start_call:
  assumes inv: "conn_inv n s" "call_inv n s" "bus_typed s" and i: "bus_tasks s i = Some t" "unstarted t"
    and q: "request_of (bc_default_call_timeout (br_config (bus_broker s))) t = Some q"
  shows "rpc_step (rpc_of s) (rpc_of (start_call json i og q s))"
proof (rule step_call [of _ _ i])
  have shot: "bus_oneshots s i = None"
    using inv(2) i unfolding call_inv_def call_ok_def tasks_ok_def by blast
  obtain w cs where w: "call_begin (bus_broker s) i (cs_service q) (cs_method q) (cs_payload q)
      (cs_caller q) (bus_cells s) = (w, cs)" by fastforce
  show "call_step (rpc_of s) (rp_calls (rpc_of s) i) (rp_calls (rpc_of (start_call json i og q s)) i)"
  proof (cases w)
    case (Inl e)
    with w i q shot call_begin_refusal [OF inv(3)] show ?thesis
      by (auto simp: start_call_def unstarted_Created bus_views intro: call_step.refuse)
  next
    case (Inr w')
    from call_begin_cases [OF inv(1) w] consider
        h where "w' = WaitLocal h (cs_method q) (cs_payload q) (cs_caller q)"
      | c k r where "routes s (cs_service q) (cs_method q) (cs_caller q) c k" "w' = WaitRemote (handle c) r"
      using Inr by auto
    then show ?thesis
    proof cases
      case 1
      with call_begin_local [OF inv(3)] w Inr obtain ms where
        "rp_local (rpc_of s) (cs_service q) = Some ms" "permitted q ms" by blast
      from call_step.local [OF this] 1 w Inr i q shot show ?thesis
        by (simp add: start_call_def unstarted_Created)
    next
      case 2
      have "rp_local (rpc_of s) (cs_service q) = None"
        "rp_provider (rpc_of s) (cs_service q) = Some (c, hr_methods (cn_hello k))"
        "permitted q (hr_methods (cn_hello k))"
        using 2(1) local_tables [OF inv(3), of "cs_service q"]
        by (auto simp: routes_def entry_of_def check_method_permitted)
      from call_step.send [OF this] 2 w Inr i q shot show ?thesis
        by (simp add: start_call_def unstarted_Created)
    qed
  qed
qed (auto simp: same_services_def bus_views static_views start_call_def split: prod.splits sum.splits)

lemma step_finish:
  assumes "call_step (rpc_of s) (rp_calls (rpc_of s) i) (Some (Finished r))"
  shows "rpc_step (rpc_of s) (rpc_of (finish_task json i og r s))"
  using assms by (intro step_call [of _ _ i]) (simp_all add: same_services_def bus_views static_views)

lemma step_start_task:
  assumes inv: "conn_inv n s" "call_inv n s" "bus_typed s" and i: "bus_tasks s i = Some t" "unstarted t"
  shows "rpc_step (rpc_of s) (rpc_of (start_task json i t s))"
proof (cases t)
  case (ReadyInvoke c originator v)
  have "rpc_step (rpc_of s) (rpc_of (finish_task json i og (Inl (BadRequest b)) s))"
    if "split_once (inv_method v) (CHR ''.'') = None" for og b
    using i ReadyInvoke that by (intro step_finish) (simp add: call_step.malformed)
  with ReadyInvoke step_start_call [OF assms] show ?thesis by (auto split: option.splits)
qed (use i step_start_call [OF assms] in auto)

lemma step_resume:
  assumes i: "bus_tasks s i = Some (Awaiting og q w)"
    and wk: "(\<exists>r. wk = Resolved r \<and>
          (case w of WaitLocal h m p cl \<Rightarrow> True | WaitRemote h q \<Rightarrow> map_option rsp_result (bus_oneshots s i) = Some r)) \<or>
        wk = Elapsed \<and> \<not> duration_is_zero (cs_timeout q)"
  shows "rpc_step (rpc_of s) (rpc_of (resume_task json i og q w wk s))"
proof -
  obtain r cs where r: "call_resume w (cs_timeout q) wk (bus_cells s) = (r, cs)" by fastforce
  have "call_step (rpc_of s) (rp_calls (rpc_of s) i) (Some (Finished r))"
    using i wk r by (cases w; cases wk) (auto intro: call_step.resolve call_step.answer call_step.expire)
  moreover have same: "rpc_of (s\<lparr>bus_cells := cs\<rparr>) = rpc_of s" by (simp add: rpc_of_def)
  ultimately have "rpc_step (rpc_of (s\<lparr>bus_cells := cs\<rparr>)) (rpc_of (finish_task json i og r (s\<lparr>bus_cells := cs\<rparr>)))"
    by (intro step_finish) simp
  with r same show ?thesis by (simp add: resume_task_def)
qed

lemma step_deliver:
  assumes "call_inv n s"
  shows "rpc_step (rpc_of s) (rpc_of (deliver_response c resp s))"
proof (cases "dm_get (pending s c) (rsp_req_id resp)")
  case None
  then show ?thesis by (intro step_same) (simp add: deliver_response_def)
next
  case (Some i)
  from table_entry [OF assms Some] consider
      "awaits (bus_tasks s) i (handle c) (rsp_req_id resp)" "bus_oneshots s i = None"
    | r where "bus_tasks s i = Some (Done r)" by metis
  then show ?thesis
  proof cases
    case 1
    then show ?thesis using Some
      by (intro step_call [of _ _ i])
        (auto simp: same_services_def deliver_response_def awaits_def intro: call_step.deliver)
  next
    case 2
    with Some show ?thesis
      by (intro step_same) (auto simp: rpc_of_def deliver_response_def fun_eq_iff)
  qed
qed

lemma step_spawn:
  assumes "call_inv n s" "unstarted t"
  shows "rpc_step (rpc_of s) (rpc_of (spawn_task t s))"
proof -
  have "bus_tasks s (bus_n_tasks s) = None"
    using assms(1) unfolding call_inv_def call_ok_def tasks_ok_def by blast
  then show ?thesis using assms(2)
    by (intro step_call [of _ _ "bus_n_tasks s"])
      (auto simp: same_services_def spawn_task_views unstarted_Created intro: call_step.create)
qed

text \<open>A teardown removes the provider exactly if it is the connection torn down.\<close>

lemma step_remove:
  assumes "conn_inv n s" "bus_conns s c = Some k"
    and t: "br_registry (bus_broker t) = fst (registry_remove_if (br_registry (bus_broker s)) (cn_service k) (cn_generation k))"
      "bus_n_conns t = bus_n_conns s" "bus_tasks t = bus_tasks s" "bus_oneshots t = bus_oneshots s"
      "br_local_service_methods (bus_broker t) = br_local_service_methods (bus_broker s)"
      "br_config (bus_broker t) = br_config (bus_broker s)"
  shows "rpc_step (rpc_of s) (rpc_of t)"
proof (cases "\<exists>e. registry_get (br_registry (bus_broker s)) (cn_service k) = Some e \<and> se_generation e = cn_generation k")
  case True
  then obtain e where e: "registry_get (br_registry (bus_broker s)) (cn_service k) = Some e" "se_generation e = cn_generation k"
    by blast
  show ?thesis
  proof (rule rpc_step.disconnect)
    show "rp_provider (rpc_of s) (cn_service k) = Some (se_tx e, se_methods e)" using e by simp
    show "rpc_of t = (rpc_of s)\<lparr>rp_provider := (rp_provider (rpc_of s))(cn_service k := None)\<rparr>"
      using t e by (intro rpc_eqI ext) (auto simp: registry_get_remove_if)
  qed
next
  case False
  then have "registry_get (br_registry (bus_broker t)) sv = registry_get (br_registry (bus_broker s)) sv" for sv
    using t(1) by (auto simp: registry_get_remove_if)
  then show ?thesis using t by (intro step_same) (simp add: rpc_of_def)
qed

lemma handshake_local:
  "br_local_service_methods (fst (serve_handshake c inbound b)) = br_local_service_methods b"
  "br_config (fst (serve_handshake c inbound b)) = br_config b"
  by (auto simp: serve_handshake_def consume_token_def next_client_id_def Let_def
      split: sum.splits option.splits bus_frame.splits prod.splits bool.splits)

lemma step_accept: "rpc_step (rpc_of s) (rpc_of (accept inbound s))"
proof (cases "\<exists>b k. serve_handshake (bus_n_conns s) inbound (bus_broker s) = (b, HsAccepted k)")
  case True
  then obtain b k where k: "serve_handshake (bus_n_conns s) inbound (bus_broker s) = (b, HsAccepted k)" by blast
  show ?thesis
  proof (rule rpc_step.connect)
    show "rpc_of (accept inbound s) =
        (rpc_of s)\<lparr>rp_provider := (rp_provider (rpc_of s))(cn_service k \<mapsto> (rp_conns (rpc_of s), hr_methods (cn_hello k))),
                   rp_conns := Suc (rp_conns (rpc_of s))\<rparr>"
      using serve_handshake_accepted [OF k] k handshake_local [of "bus_n_conns s" inbound "bus_broker s"]
      by (intro rpc_eqI ext) (auto simp: accept_def registry_get_insert)
  qed
next
  case False
  then obtain b h where h: "serve_handshake (bus_n_conns s) inbound (bus_broker s) = (b, h)" "\<And>k. h \<noteq> HsAccepted k"
    by (metis surj_pair)
  then have "br_registry b = br_registry (bus_broker s)"
    using serve_handshake_refused [OF h(1)] by auto
  moreover have "br_local_service_methods b = br_local_service_methods (bus_broker s)" "br_config b = br_config (bus_broker s)"
    using handshake_local [of "bus_n_conns s" inbound "bus_broker s"] h(1) by simp_all
  ultimately show ?thesis using h
    by (intro step_same) (auto simp: rpc_of_def accept_def split: handshake.splits)
qed

lemma step_inbound:
  assumes "conn_inv n s" "call_inv n s" "bus_conns s c = Some k"
  shows "rpc_step (rpc_of s) (rpc_of (session_inbound c k inbound s))"
proof -
  have ended: "rpc_step (rpc_of s) (rpc_of (session_end c k s))"
    using assms(1,3) by (rule step_remove) (simp_all add: session_end_def Let_def bus_views static_views)
  have same: "rpc_of (s\<lparr>bus_cells := cs\<rparr>) = rpc_of s" "rpc_of (s\<lparr>bus_broker := subscribe sv p (bus_broker s)\<rparr>) = rpc_of s"
    "rpc_of (s\<lparr>bus_broker := unsubscribe sv p (bus_broker s)\<rparr>) = rpc_of s" for cs sv p
    by (simp_all add: rpc_of_def bus_views static_views)
  show ?thesis
    using ended step_deliver [OF assms(2)] step_spawn [OF assms(2)]
    by (auto simp: session_inbound_def same rpc_step.idle split: sum.splits option.splits bus_frame.splits)
qed

lemma step_exec:
  assumes inv: "bus_inv n s \<and> bus_typed s" and exec: "bus_exec json a s = Some t"
  shows "rpc_step (rpc_of s) (rpc_of t)"
proof -
  note assms = inv exec
  from inv have inv: "conn_inv n s" "call_inv n s" "bus_typed s" by (simp_all add: bus_inv_def)
  show ?thesis
  proof (cases a)
    case (Accept inbound)
    with assms(2) step_accept show ?thesis by auto
  next
    case (AckWrite c ok)
    with assms(2) obtain k where k: "bus_conns s c = Some k" "t = (if ok then ack_written c k s else ack_failed c k s)"
      by (auto split: option.splits if_splits)
    show ?thesis
    proof (cases ok)
      case True
      let ?service = "cn_service k"
      let ?b = "probe_start ?service (attach_session ?service (cn_generation k) (handle c) (bus_broker s))"
      let ?u = "set_phase c k Serving (s\<lparr>bus_broker := ?b\<rparr>)"
      have "call_inv n ?u" using inv(2) by (simp add: call_inv_def bus_views)
      from step_spawn [OF this, of "ReadyProbe ?service (cn_generation k)"]
      have "rpc_step (rpc_of ?u) (rpc_of t)"
        using k True by (simp add: ack_written_def Let_def)
      moreover have "rpc_of ?u = rpc_of s"
        by (simp add: rpc_of_def bus_views static_views attach_session_def probe_start_def)
      ultimately show ?thesis by simp
    next
      case False
      with k(2) show ?thesis
        by (intro step_remove [OF inv(1) k(1)]) (simp_all add: ack_failed_def bus_views static_views)
    qed
  next
    case (Inbound c inbound)
    with assms(2) step_inbound [OF inv(1,2)] show ?thesis by (auto split: option.splits if_splits)
  next
    case (HttpCall spec)
    with assms(2) step_spawn [OF inv(2)] show ?thesis by auto
  next
    case (StartTask i)
    with assms(2) obtain u where "bus_tasks s i = Some u" "unstarted u" "t = start_task json i u s"
      by (auto simp del: start_task.simps split: option.splits task.splits)
    with step_start_task [OF inv] show ?thesis by blast
  next
    case (LocalResolves i r)
    with assms(2) step_resume [of s i] show ?thesis by (auto split: option.splits task.splits call_wait.splits)
  next
    case (TimerFires i)
    with assms(2) step_resume [of s i] show ?thesis by (auto split: option.splits task.splits if_splits)
  next
    case (RegisterLocal name methods handler)
    with assms(2) have "t = s\<lparr>bus_broker := register_local_service name methods handler (bus_broker s)\<rparr>" by simp
    then show ?thesis
      by (intro rpc_step.register [of _ _ name methods] rpc_eqI ext) (simp_all add: register_local_service_def)
  next
    case (OneshotReady i)
    with assms(2) step_resume [of s i] show ?thesis by (auto split: option.splits task.splits call_wait.splits)
  next
    case (OneshotClosed i)
    with assms(2) awaiting_sender_alive [OF inv(2)] show ?thesis
      by (auto split: option.splits task.splits call_wait.splits if_splits)
  qed (use assms(2) in \<open>auto simp: issue_token_def Let_def rpc_of_def bus_views rpc_step.idle
      split: option.splits if_splits\<close>)
qed

lemma rpc_inv_exec:
  "bus_inv n s \<and> bus_typed s \<Longrightarrow> n < 2 ^ 64 - 2 \<Longrightarrow> bus_exec json a s = Some t \<Longrightarrow> bus_inv (Suc n) t \<and> bus_typed t"
  using bus.inv_exec bus_typed_exec by blast

lemma rpc_inv_reachable:
  "run_actions (bus_exec json) as (bus_init config) = Some s \<Longrightarrow> length as \<le> 2 ^ 64 - 2 \<Longrightarrow>
   bus_inv (length as) s \<and> bus_typed s"
  using bus_inv_reachable tables.inv_run [OF order_refl] by blast

interpretation rpc: simulation "bus_exec json" "\<lambda>n s. bus_inv n s \<and> bus_typed s" "2 ^ 64 - 2" rpc_of rpc_step for json
  by unfold_locales (rule rpc_inv_exec, assumption+, rule step_exec)

lemma rpc_finished_kept: "rpc_step x y \<Longrightarrow> rp_calls x i = Some (Finished r) \<Longrightarrow> rp_calls y i = Some (Finished r)"
  by (auto elim!: rpc_stepE call_step_Finished split: if_splits)

section \<open>Theorems\<close>



text \<open>
  A call ends once: when a call of the bus has ended with a result, no later event (a late or
  repeated response, its timer, the end of a connection) changes that result.
\<close>

theorem call_ends_once:
  assumes "run_actions (bus_exec json) as (bus_init config) = Some s" "bus_tasks s i = Some (Done r)"
    and "run_actions (bus_exec json) bs s = Some t" "length as + length bs \<le> 2 ^ 64 - 2"
  shows "bus_tasks t i = Some (Done r)"
proof -
  have "bus_inv (length as) s \<and> bus_typed s" using assms(1,4) by (intro rpc_inv_reachable) auto
  moreover have "rp_calls (rpc_of s) i = Some (Finished r)" using assms(2) by simp
  ultimately have "rp_calls (rpc_of t) i = Some (Finished r)"
    using rpc.run_keeps [of "\<lambda>x. rp_calls x i = Some (Finished r)" "length as" s bs json t] rpc_finished_kept assms(3,4)
    by blast
  then show ?thesis by (auto elim: call_of.elims)
qed

theorem call_ends_once_witness:
  "\<exists>s t. run_actions (bus_exec demo_json) (demo_actions 5 @ [TimerFires 2]) (bus_init broker_config_default) = Some s \<and>
     run_actions (bus_exec demo_json)
       [Inbound 0 (Inr (Some (Response \<lparr>rsp_req_id = 1, rsp_result = Inr [9]\<rparr>))), Inbound 0 (Inr None)] s = Some t \<and>
     bus_tasks t 2 = Some (Done (Inl (Timeout 5)))"
proof -
  let ?late = "[Inbound 0 (Inr (Some (Response \<lparr>rsp_req_id = 1, rsp_result = Inr [9]\<rparr>))), Inbound 0 (Inr None)]"
  have five: "\<not> duration_is_zero (cs_timeout (demo_spec 5))" "as_millis_u64 (cs_timeout (demo_spec 5)) = 5"
    by (simp_all add: demo_spec_def duration_is_zero_def duration_from_millis_def as_millis_u64_def as_millis_def)
  obtain s where s: "bus_exec demo_json (TimerFires 2) (demo_state 5) = Some s" "bus_tasks s 2 = Some (Done (Inl (Timeout 5)))"
    "bus_conns s 0 = bus_conns (demo_state 5) 0"
    using five by (simp add: demo_state_def resume_task_def finish_task_def)
  then have run: "run_actions (bus_exec demo_json) (demo_actions 5 @ [TimerFires 2]) (bus_init broker_config_default) = Some s"
    by (simp add: run_append demo_reaches)
  obtain t where t: "run_actions (bus_exec demo_json) ?late s = Some t"
    using s(3) by (simp add: demo_state_def demo_conn_def session_inbound_def bus_views)
  have len: "length (demo_actions 5 @ [TimerFires 2]) + length ?late \<le> 2 ^ 64 - 2"
    by (simp add: demo_actions_def demo_connects_def)
  show ?thesis using run t call_ends_once [OF run s(2) t len] by blast
qed

end
