(* ===== verification/Capabilities.thy ===== *)
theory Capabilities
  imports Bus_Theorems
begin

text \<open>
  The cache of capabilities that the broker keeps for each service. \<open>attach_session\<close>'s caller clears it
  and starts a probe, \<open>probe_done\<close> fills it if the probed connection is still the current one, and
  \<open>detach_session\<close> clears it if no newer connection has registered. The theorem shows the sequence in
  which nobody clears it. The run \<open>demo_cached\<close> fills the cache of service \<open>echo\<close>.
\<close>

section \<open>Definitions\<close>

definition demo_probed_hello :: "u64 \<Rightarrow> hello_request" where
  "demo_probed_hello ctr = (demo_hello ''echo'' ctr)\<lparr>hr_methods := [demo_method ''capabilities'' False]\<rparr>"

definition demo_capabilities :: "bytes \<Rightarrow> capability_response option" where
  "demo_capabilities bs = Some \<lparr>cr_version = ''1'', cr_methods = [''ping'']\<rparr>"

definition demo_cached :: "bus_action list" where
  "demo_cached =
     [IssueToken ''echo'' 5 7, Accept (Inr (Some (Hello (demo_probed_hello 0)))), AckWrite 0 True, StartTask 0,
      Inbound 0 (Inr (Some (Response \<lparr>rsp_req_id = 1, rsp_result = Inr []\<rparr>))), OneshotReady 0,
      IssueToken ''echo'' 5 7]"

section \<open>Lemmas\<close>

lemma detach_keeps_capabilities:
  assumes "registry_get (br_registry b) service = Some e" "se_generation e \<noteq> generation"
  shows "br_capabilities (detach_session service generation b) = br_capabilities b"
  using assms by (simp add: detach_session_def still_current_def Let_def)

lemma handshake_capabilities: "br_capabilities (fst (serve_handshake c inbound b)) = br_capabilities b"
  by (auto simp: serve_handshake_def consume_token_def next_client_id_def Let_def
      split: sum.splits option.splits bus_frame.splits prod.splits bool.splits)

lemma accept_Some:
  assumes "bus_exec json (Accept inbound) s = Some t" "bus_conns t (bus_n_conns s) = Some l" "bus_conns s (bus_n_conns s) = None"
  obtains b where "serve_handshake (bus_n_conns s) inbound (bus_broker s) = (b, HsAccepted l)"
    "t = s\<lparr>bus_broker := b, bus_conns := (bus_conns s)(bus_n_conns s \<mapsto> l), bus_n_conns := Suc (bus_n_conns s)\<rparr>"
  using assms by (auto simp: accept_def split: prod.splits handshake.splits)

section \<open>Theorems\<close>

text \<open>
  C34. The cache can outlive its service: a service has a serving connection and cached capabilities, a
  second connection of the service is accepted, the first one ends, and the acknowledgement of the
  second cannot be written. Then the service is not registered any more, and its capabilities are
  still reported (until an app registers the service again).
\<close>

theorem capabilities_outlive_service:
  assumes run: "run_actions (bus_exec json) as (bus_init config) = Some s" "length as < 2 ^ 64 - 2"
    and a: "bus_conns s a = Some k" "cn_phase k = Serving"
    and cached: "get_capabilities (bus_broker s) (cn_service k) = Some caps"
    and new: "bus_exec json (Accept inbound) s = Some t" "bus_conns t (bus_n_conns s) = Some l" "cn_service l = cn_service k"
  shows "\<exists>u. run_actions (bus_exec json) [Inbound a (Inr None), AckWrite (bus_n_conns s) False] t = Some u \<and>
    registry_get (br_registry (bus_broker u)) (cn_service k) = None \<and>
    get_capabilities (bus_broker u) (cn_service k) = Some caps"
proof -
  have "conn_inv (length as) s"
    using bus_inv_reachable [OF run(1)] run(2) by (simp add: bus_inv_def)
  then have g: "gens_ok (length as) (br_registry (bus_broker s)) (bus_conns s) (bus_n_conns s)"
    by (simp add: conn_inv_def)
  note fresh = gens_ok_fresh [OF g run(2)]
  from accept_Some [OF new(1,2) fresh(1)] obtain b where
    b: "serve_handshake (bus_n_conns s) inbound (bus_broker s) = (b, HsAccepted l)"
    "t = s\<lparr>bus_broker := b, bus_conns := (bus_conns s)(bus_n_conns s \<mapsto> l), bus_n_conns := Suc (bus_n_conns s)\<rparr>"
    by blast
  have l: "cn_phase l = AwaitAck" "cn_generation l = reg_next_gen (br_registry (bus_broker s)) + 1"
    "registry_get (br_registry b) (cn_service k) = Some (entry_of (bus_n_conns s) l)"
    using serve_handshake_accepted [OF b(1)] new(3)
    by (auto simp: registry_get_insert entry_of_def)
  have caps: "br_capabilities b = br_capabilities (bus_broker s)"
    using handshake_capabilities [of "bus_n_conns s" inbound "bus_broker s"] b(1) by simp
  have ne: "a \<noteq> bus_n_conns s" "cn_generation l \<noteq> cn_generation k"
    using fresh(1) a(1) fresh(4) [OF a(1)] l(2) by auto
  have entry: "se_generation (entry_of (bus_n_conns s) l) \<noteq> cn_generation k" using ne(2) by simp
  note kept = detach_keeps_capabilities [OF l(3) entry]
  have "bus_exec json (Inbound a (Inr None)) t = Some (session_end a k t)"
    using a ne(1) b(2) by (simp add: session_inbound_def)
  moreover have "bus_conns (session_end a k t) (bus_n_conns s) = Some l"
    using ne(1) b(2) by (simp add: session_end_def Let_def bus_views)
  moreover have "registry_get (br_registry (bus_broker (session_end a k t))) (cn_service k) = Some (entry_of (bus_n_conns s) l)"
    using b(2) l(3) entry by (simp add: session_end_def Let_def bus_views registry_get_remove_if)
  moreover have "br_capabilities (bus_broker (session_end a k t)) = br_capabilities (bus_broker s)"
    using kept caps b(2) by (simp add: session_end_def Let_def bus_views)
  ultimately show ?thesis
    using l(1) new(3) cached
    by (simp add: ack_failed_def bus_views registry_get_remove_if get_capabilities_def)
qed

theorem capabilities_outlive_service_witness:
  "\<exists>s t u. run_actions (bus_exec demo_capabilities) demo_cached (bus_init broker_config_default) = Some s \<and>
     bus_exec demo_capabilities (Accept (Inr (Some (Hello (demo_probed_hello 1))))) s = Some t \<and>
     run_actions (bus_exec demo_capabilities) [Inbound 0 (Inr None), AckWrite 1 False] t = Some u \<and>
     registry_get (br_registry (bus_broker u)) ''echo'' = None \<and>
     get_capabilities (bus_broker u) ''echo'' = Some \<lparr>sc_version = ''1'', sc_methods = {''ping''}\<rparr>"
proof -
  let ?accept = "Accept (Inr (Some (Hello (demo_probed_hello 1))))"
  have "map_option (\<lambda>s. (bus_n_conns s, map_option (\<lambda>k. (cn_phase k, cn_service k)) (bus_conns s 0),
      get_capabilities (bus_broker s) ''echo'',
      Option.bind (bus_exec demo_capabilities ?accept s) (\<lambda>t. map_option (\<lambda>l. cn_service l) (bus_conns t 1))))
    (run_actions (bus_exec demo_capabilities) demo_cached (bus_init broker_config_default)) =
    Some (1, Some (Serving, ''echo''), Some \<lparr>sc_version = ''1'', sc_methods = {''ping''}\<rparr>, Some ''echo'')"
    by (simp add: demo_cached_def demo_probed_hello_def demo_capabilities_def demo_eval get_capabilities_def
        deliver_response_def resume_task_def finish_task_def probe_done_def still_current_def)
  then obtain s k t l where s: "run_actions (bus_exec demo_capabilities) demo_cached (bus_init broker_config_default) = Some s"
    "bus_n_conns s = 1" "bus_conns s 0 = Some k" "cn_phase k = Serving" "cn_service k = ''echo''"
    "get_capabilities (bus_broker s) ''echo'' = Some \<lparr>sc_version = ''1'', sc_methods = {''ping''}\<rparr>"
    and t: "bus_exec demo_capabilities ?accept s = Some t" "bus_conns t 1 = Some l" "cn_service l = ''echo''"
    by (auto simp: map_option_eq_Some bind_eq_Some_conv simp del: bus_exec.simps)
  have "length demo_cached < 2 ^ 64 - 2" by (simp add: demo_cached_def)
  from capabilities_outlive_service [OF s(1) this s(3,4) _ t(1)] s t show ?thesis by fastforce
qed

end
