(* ===== verification/Child_Output.thy ===== *)
theory Child_Output
  imports Supervisor
begin

text \<open>
  What the supervisor does around a child process, from \<open>spawn_once\<close> of \<open>crates/supervisor/src/lib.rs\<close>:
  the hook that runs in the child before \<open>exec\<close> on Linux, and the two tasks that forward the child's
  output line by line. \<open>BufReader::lines\<close> is written out: \<open>next_line\<close> takes the bytes up to and with
  the next newline (or up to the end), fails when they are not UTF-8, and strips the line ending.

  The theorem: output is forwarded line by line, unchanged, up to the first line that is not UTF-8;
  there the loop ends, and nothing after it is forwarded.
\<close>

section \<open>Definitions\<close>

subsection \<open>Before exec\<close>

datatype child_entry =
    ExecProgram
  | EntryFails string
  | ExitNow nat

text \<open>\<open>prctl\<close> is the result of \<open>set_pdeathsig\<close>, with the text of its error.\<close>

definition pre_exec_hook :: "string + unit \<Rightarrow> nat \<Rightarrow> nat \<Rightarrow> child_entry" where
  "pre_exec_hook prctl getppid parent_pid =
     (case prctl of
        Inl e \<Rightarrow> EntryFails e
      | Inr _ \<Rightarrow> (if getppid \<noteq> parent_pid then ExitNow 0 else ExecProgram))"

subsection \<open>UTF-8\<close>

definition cont :: "u8 \<Rightarrow> bool" where
  "cont b \<longleftrightarrow> 128 \<le> b \<and> b \<le> 191"

text \<open>The well-formed byte sequences, as \<open>core::str::from_utf8\<close> accepts them.\<close>

fun utf8_valid :: "bytes \<Rightarrow> bool" where
  "utf8_valid [] = True"
| "utf8_valid (a # s) =
     (if a \<le> 127 then utf8_valid s
      else if 194 \<le> a \<and> a \<le> 223 then
        (case s of b # s1 \<Rightarrow> cont b \<and> utf8_valid s1 | [] \<Rightarrow> False)
      else if 224 \<le> a \<and> a \<le> 239 then
        (case s of
           b # c # s1 \<Rightarrow>
             cont b \<and> (a = 224 \<longrightarrow> 160 \<le> b) \<and> (a = 237 \<longrightarrow> b \<le> 159) \<and> cont c \<and> utf8_valid s1
         | _ \<Rightarrow> False)
      else if 240 \<le> a \<and> a \<le> 244 then
        (case s of
           b # c # d # s1 \<Rightarrow>
             cont b \<and> (a = 240 \<longrightarrow> 144 \<le> b) \<and> (a = 244 \<longrightarrow> b \<le> 143) \<and> cont c \<and> cont d \<and> utf8_valid s1
         | _ \<Rightarrow> False)
      else False)"

subsection \<open>Lines\<close>

definition newline :: u8 where
  "newline = 10"

definition carriage_return :: u8 where
  "carriage_return = 13"

text \<open>\<open>read_until\<close>: the bytes up to and with the next newline, and the rest.\<close>

fun read_until_newline :: "bytes \<Rightarrow> bytes \<times> bytes" where
  "read_until_newline [] = ([], [])"
| "read_until_newline (b # s) =
     (if b = newline then ([b], s)
      else (let (line, rest) = read_until_newline s in (b # line, rest)))"

definition strip_line_ending :: "bytes \<Rightarrow> bytes" where
  "strip_line_ending line =
     (if line \<noteq> [] \<and> last line = newline
      then (let l = butlast line in if l \<noteq> [] \<and> last l = carriage_return then butlast l else l)
      else line)"

text \<open>\<open>next_line\<close>: the error of a line that is not UTF-8, the end, or a line; and the rest.\<close>

datatype line_result = LineError | LineEnd | Line bytes

definition next_line :: "bytes \<Rightarrow> line_result \<times> bytes" where
  "next_line s =
     (let (line, rest) = read_until_newline s
      in (if line = [] then LineEnd
          else if utf8_valid line then Line (strip_line_ending line) else LineError, rest))"

lemma read_until_newline_length: "length (fst (read_until_newline s)) + length (snd (read_until_newline s)) = length s"
  by (induction s) (auto simp: case_prod_unfold Let_def)

lemma next_line_shrinks: "next_line s = (Line l, rest) \<Longrightarrow> length rest < length s"
  using read_until_newline_length [of s]
  by (cases "fst (read_until_newline s)") (auto simp: next_line_def split: prod.splits if_splits)

subsection \<open>Forwarding\<close>

definition bytes_of :: "string \<Rightarrow> bytes" where
  "bytes_of s = map of_char s"

text \<open>\<open>"{}[{svc}]\x1b[0m {line}"\<close>, with the colour's escape sequence.\<close>

definition tag_line :: "string \<Rightarrow> bytes \<Rightarrow> bytes" where
  "tag_line svc line =
     [27] @ bytes_of (''['' @ show_nat (svc_color svc) @ ''m['' @ svc @ '']'') @ [27] @ bytes_of ''[0m '' @ line"

text \<open>One forwarding task: the lines printed for all that the child writes to the stream.\<close>

function forward_output :: "string \<Rightarrow> bytes \<Rightarrow> bytes list" where
  "forward_output svc s =
     (case next_line s of
        (Line line, rest) \<Rightarrow> tag_line svc line # forward_output svc rest
      | _ \<Rightarrow> [])"
  by pat_completeness auto

termination forward_output
  by (relation "measure (\<lambda>(svc, s). length s)") (auto dest: next_line_shrinks [OF sym])

declare forward_output.simps [simp del]

text \<open>A line of text: UTF-8, without a newline, and not ending in a carriage return.\<close>

definition text_line :: "bytes \<Rightarrow> bool" where
  "text_line l \<longleftrightarrow> utf8_valid l \<and> newline \<notin> set l \<and> (l = [] \<or> last l \<noteq> carriage_return)"

definition unlines :: "bytes list \<Rightarrow> bytes" where
  "unlines ls = concat (map (\<lambda>l. l @ [newline]) ls)"

section \<open>Lemmas\<close>

lemma newline_ascii [simp]: "newline \<le> 127" "newline \<noteq> carriage_return"
  by (simp_all add: newline_def carriage_return_def)

lemma utf8_valid_ascii_end: "b \<le> 127 \<Longrightarrow> utf8_valid (s @ [b]) \<longleftrightarrow> utf8_valid s"
proof (induction s rule: utf8_valid.induct)
  case (2 a s)
  have "\<not> cont b" using 2 by (simp add: cont_def word_le_nat_alt)
  with 2 show ?case by (auto split: list.split)
qed simp

lemma read_until_newline_line:
  "newline \<notin> set l \<Longrightarrow> read_until_newline (l @ newline # rest) = (l @ [newline], rest)"
  by (induction l) auto

lemma next_line_text: "text_line l \<Longrightarrow> next_line (l @ newline # rest) = (Line l, rest)"
  by (auto simp: next_line_def read_until_newline_line text_line_def strip_line_ending_def Let_def
      utf8_valid_ascii_end)

lemma forward_text: "\<forall>l \<in> set ls. text_line l \<Longrightarrow>
    forward_output svc (unlines ls @ rest) = map (tag_line svc) ls @ forward_output svc rest"
proof (induction ls)
  case Nil
  then show ?case by (simp add: unlines_def)
next
  case (Cons l ls)
  have "unlines (l # ls) @ rest = l @ newline # unlines ls @ rest" by (simp add: unlines_def)
  with Cons show ?case by (simp add: forward_output.simps [of svc "l @ newline # _"] next_line_text)
qed

lemma forward_bad: "newline \<notin> set bad \<Longrightarrow> \<not> utf8_valid bad \<Longrightarrow> forward_output svc (bad @ newline # rest) = []"
  by (subst forward_output.simps)
    (simp add: next_line_def read_until_newline_line utf8_valid_ascii_end)

section \<open>Theorems\<close>

text \<open>
  C35. The output of an app is forwarded to the log line by line, each line unchanged behind the tag
  of its service; a line that is not UTF-8 ends the forwarding for good: neither it nor anything the
  app writes after it appears.
\<close>

theorem forwarding_stops_at_bad_line:
  assumes "\<forall>l \<in> set ls. text_line l" "newline \<notin> set bad" "\<not> utf8_valid bad"
  shows "forward_output svc (unlines ls) = map (tag_line svc) ls \<and>
    forward_output svc (unlines ls @ bad @ [newline] @ rest) = map (tag_line svc) ls"
  using forward_text [OF assms(1), of svc "[]"] forward_text [OF assms(1), of svc "bad @ newline # rest"]
    forward_bad [OF assms(2,3)]
  by (simp add: forward_output.simps [of svc "[]"] next_line_def)

theorem forwarding_stops_at_bad_line_witness:
  "forward_output ''echo'' (unlines [[104, 105], []] @ [255] @ [newline] @ [104, 105, newline]) =
   [tag_line ''echo'' [104, 105], tag_line ''echo'' []]"
proof -
  have "\<forall>l \<in> set [[104, 105], []]. text_line l" "newline \<notin> set [255 :: u8]" "\<not> utf8_valid [255]"
    by (simp_all add: text_line_def newline_def carriage_return_def)
  from forwarding_stops_at_bad_line [OF this, of "''echo''" "[104, 105, newline]"] show ?thesis by simp
qed

end
