(* ===== verification/Listen.thy ===== *)
theory Listen
  imports Transport
begin

text \<open>
  How the broker takes its socket: \<open>listen\<close> and \<open>check_and_cleanup_unix_socket\<close> of
  \<open>crates/broker/src/broker.rs\<close>. What the operating system answers is a parameter (whether the path
  exists, the result of connecting to it, of binding it); the effects on the file system are
  returned as a list, in order.
\<close>

section \<open>Definitions\<close>

datatype fs_effect =
    RemoveFile string
  | CreateDirAll string
  | BindSocket data_plane_socket

definition active_text :: "string \<Rightarrow> string" where
  "active_text path = ''Unix socket '' @ path @ '' is already bound by an active listener''"

definition check_failed_text :: "string \<Rightarrow> io_error \<Rightarrow> string" where
  "check_failed_text path e = ''Failed to check Unix socket '' @ path @ '': '' @ io_text e"

definition check_and_cleanup_unix_socket ::
  "platform \<Rightarrow> io_error + unit \<Rightarrow> string \<Rightarrow> unit bus_result \<times> fs_effect list" where
  "check_and_cleanup_unix_socket plat connected path =
     (if plat = PlatUnix
      then (case connected of
              Inr _ \<Rightarrow> (Inl (Io (active_text path)), [])
            | Inl e \<Rightarrow>
                (if io_kind_of e = ConnectionRefused then (Inr (), [RemoveFile path])
                 else if io_kind_of e = NotFound then (Inr (), [])
                 else (Inl (Io (check_failed_text path e)), [])))
      else (Inr (), []))"

text \<open>The preparation of a Unix socket path, up to the bind.\<close>

definition prepare_path ::
  "platform \<Rightarrow> bool \<Rightarrow> io_error + unit \<Rightarrow> string \<Rightarrow> unit bus_result \<times> fs_effect list" where
  "prepare_path plat path_exists connected path =
     (case (if path_exists then check_and_cleanup_unix_socket plat connected path else (Inr (), [])) of
        (Inl e, fx) \<Rightarrow> (Inl e, fx)
      | (Inr _, fx) \<Rightarrow>
          (Inr (), fx @ (case path_parent path of None \<Rightarrow> [] | Some parent \<Rightarrow> [CreateDirAll parent])))"

definition listen ::
  "platform \<Rightarrow> bool \<Rightarrow> io_error + unit \<Rightarrow> (string \<Rightarrow> io_error + unit) \<Rightarrow> (string \<Rightarrow> io_error + pipe_instance) \<Rightarrow>
   data_plane_socket \<Rightarrow> listener bus_result \<times> fs_effect list" where
  "listen plat path_exists connected os_bind os_create socket =
     (let (ready, fx) =
            (case socket of
               UnixSock path \<Rightarrow> prepare_path plat path_exists connected path
             | NamedPipe name \<Rightarrow> (Inr (), []))
      in case ready of
           Inl e \<Rightarrow> (Inl e, fx)
         | Inr _ \<Rightarrow> (map_sum bus_error_of_io id (bind plat os_bind os_create socket), fx @ [BindSocket socket]))"

definition listen_unix ::
  "platform \<Rightarrow> bool \<Rightarrow> io_error + unit \<Rightarrow> (string \<Rightarrow> io_error + unit) \<Rightarrow> (string \<Rightarrow> io_error + pipe_instance) \<Rightarrow> string \<Rightarrow>
   listener bus_result \<times> fs_effect list" where
  "listen_unix plat path_exists connected os_bind os_create path =
     listen plat path_exists connected os_bind os_create (UnixSock path)"

section \<open>Theorems\<close>

text \<open>
  A second broker does not take over the socket of a live one: where the socket path exists,
  \<open>listen\<close> removes the file only if connecting to it was refused. If the connection succeeds, or
  fails in a way that does not show the socket to be stale or gone, \<open>listen\<close> fails, removes
  nothing and binds nothing.
\<close>

theorem listen_spares_live_socket:
  "let (result, fx) = listen PlatUnix True connected os_bind os_create (UnixSock path)
   in (RemoveFile p \<in> set fx \<longleftrightarrow>
         p = path \<and> (\<exists>e. connected = Inl e \<and> io_kind_of e = ConnectionRefused)) \<and>
      (BindSocket (UnixSock path) \<in> set fx \<longleftrightarrow>
         (\<exists>e. connected = Inl e \<and> (io_kind_of e = ConnectionRefused \<or> io_kind_of e = NotFound))) \<and>
      (BindSocket (UnixSock path) \<in> set fx \<or> (\<exists>text. result = Inl (Io text)))"
  by (auto simp: listen_def prepare_path_def check_and_cleanup_unix_socket_def Let_def
      split: sum.splits option.splits)

end
