(* ===== verification/Listener.thy ===== *)
theory Listener
  imports Transport
begin

text \<open>
  Accepting connections: \<open>BusListener::accept\<close> and the stream delegation of
  \<open>crates/protocol/src/transport.rs\<close>, the accept loop of \<open>crates/broker/src/broker.rs\<close> and the one of
  \<open>crates/protocol/src/axum_listener.rs\<close>. What the operating system answers to one accept is a
  record: the next connection of a Unix socket, whether a client connected to the current pipe
  instance, and the instance created for the next one. A loop is run over the list of answers it
  meets; what it does is returned as a list of effects.

  The lemmas: a pipe instance is handed to at most one session and never while the listener still
  waits on it; a failed creation of the next instance keeps the connected one for the next accept.
\<close>

section \<open>Definitions\<close>

record accept_env =
  ae_unix :: "io_error + nat"
  ae_connect :: "io_error + unit"
  ae_create :: "io_error + pipe_instance"

datatype accepted =
    AcceptedUnix nat
  | AcceptedPipe pipe_instance

definition no_transport :: io_error where
  "no_transport = \<lparr>io_kind_of = Unsupported, io_text = ''No transport available on this platform''\<rparr>"

fun listener_accept :: "accept_env \<Rightarrow> listener \<Rightarrow> (io_error + accepted) \<times> listener" where
  "listener_accept env (UnixListener path) = (map_sum id AcceptedUnix (ae_unix env), UnixListener path)"
| "listener_accept env (NamedPipeListener current name) =
     (case ae_connect env of
        Inl e \<Rightarrow> (Inl e, NamedPipeListener current name)
      | Inr _ \<Rightarrow>
          (case ae_create env of
             Inl e \<Rightarrow> (Inl e, NamedPipeListener current name)
           | Inr fresh \<Rightarrow> (Inr (AcceptedPipe current), NamedPipeListener fresh name)))"

text \<open>On a platform with neither transport no listener exists, and \<open>accept\<close> fails.\<close>

definition accept_on :: "platform \<Rightarrow> accept_env \<Rightarrow> listener \<Rightarrow> (io_error + accepted) \<times> listener" where
  "accept_on plat env l = (if plat = PlatOther then (Inl no_transport, l) else listener_accept env l)"

subsection \<open>The accept loops\<close>

datatype loop_effect =
    SpawnSession accepted
  | Pause duration

fun accept_loop :: "platform \<Rightarrow> accept_env list \<Rightarrow> listener \<Rightarrow> loop_effect list \<times> listener" where
  "accept_loop plat [] l = ([], l)"
| "accept_loop plat (env # envs) l =
     (let (result, l1) = accept_on plat env l;
          (fx, l2) = accept_loop plat envs l1
      in ((case result of
             Inr stream \<Rightarrow> SpawnSession stream
           | Inl e \<Rightarrow> Pause (duration_from_millis 100)) # fx, l2))"

text \<open>\<open>None\<close> when the answers end before a connection comes.\<close>

fun axum_accept :: "platform \<Rightarrow> accept_env list \<Rightarrow> listener \<Rightarrow> ((accepted \<times> duration list) \<times> listener) option" where
  "axum_accept plat [] l = None"
| "axum_accept plat (env # envs) l =
     (case accept_on plat env l of
        (Inr stream, l1) \<Rightarrow> Some ((stream, []), l1)
      | (Inl e, l1) \<Rightarrow>
          map_option (\<lambda>((stream, pauses), l2). ((stream, duration_from_secs 1 # pauses), l2))
            (axum_accept plat envs l1))"

subsection \<open>Streams\<close>

text \<open>
  A stream holds the platform's stream it delegates to. An operation of the platform is a function
  that returns the result of the poll and the stream after it.
\<close>

datatype ('u, 'p, 'q) any_stream =
    StreamUnix 'u
  | StreamPipeServer 'p
  | StreamPipeClient 'q

type_synonym ('r, 's) poll = "'s \<Rightarrow> 'r \<times> 's"

record ('r, 's) stream_ops =
  so_read :: "nat \<Rightarrow> ('r, 's) poll"
  so_write :: "u8 list \<Rightarrow> ('r, 's) poll"
  so_flush :: "('r, 's) poll"
  so_shutdown :: "('r, 's) poll"

fun delegate ::
  "('r, 'u) poll \<Rightarrow> ('r, 'p) poll \<Rightarrow> ('r, 'q) poll \<Rightarrow> ('r, ('u, 'p, 'q) any_stream) poll" where
  "delegate f g h (StreamUnix stream) = map_prod id StreamUnix (f stream)"
| "delegate f g h (StreamPipeServer pipe) = map_prod id StreamPipeServer (g pipe)"
| "delegate f g h (StreamPipeClient pipe) = map_prod id StreamPipeClient (h pipe)"

definition poll_read where
  "poll_read U P Q buf = delegate (so_read U buf) (so_read P buf) (so_read Q buf)"

definition poll_write where
  "poll_write U P Q buf = delegate (so_write U buf) (so_write P buf) (so_write Q buf)"

definition poll_flush where
  "poll_flush U P Q = delegate (so_flush U) (so_flush P) (so_flush Q)"

definition poll_shutdown where
  "poll_shutdown U P Q = delegate (so_shutdown U) (so_shutdown P) (so_shutdown Q)"

subsection \<open>Pipe instances\<close>

text \<open>The instances a loop hands to sessions, and those the system creates for it.\<close>

definition handed :: "loop_effect list \<Rightarrow> pipe_instance list" where
  "handed fx = concat (map (\<lambda>f. case f of SpawnSession (AcceptedPipe p) \<Rightarrow> [p] | _ \<Rightarrow> []) fx)"

definition created :: "accept_env list \<Rightarrow> pipe_instance list" where
  "created envs =
     concat (map (\<lambda>env. case (ae_connect env, ae_create env) of (Inr _, Inr p) \<Rightarrow> [p] | _ \<Rightarrow> []) envs)"

definition demo_accepts :: "accept_env list" where
  "demo_accepts =
     [\<lparr>ae_unix = Inr 0, ae_connect = Inr (), ae_create = Inr 1\<rparr>,
      \<lparr>ae_unix = Inr 0, ae_connect = Inr (), ae_create = Inl no_transport\<rparr>,
      \<lparr>ae_unix = Inr 0, ae_connect = Inr (), ae_create = Inr 2\<rparr>]"

section \<open>Lemmas\<close>

lemma accept_loop_pipe:
  "\<exists>fx last. accept_loop PlatWindows envs (NamedPipeListener current name) = (fx, NamedPipeListener last name) \<and>
     length fx = length envs \<and> handed fx @ [last] = current # created envs"
proof (induction envs arbitrary: current)
  case Nil
  then show ?case by (simp add: handed_def created_def)
next
  case (Cons env envs)
  show ?case
  proof (cases "ae_connect env")
    case (Inl e)
    then show ?thesis using Cons [of current]
      by (fastforce simp: accept_on_def handed_def created_def)
  next
    case (Inr u)
    show ?thesis
    proof (cases "ae_create env")
      case (Inl e)
      then show ?thesis using Inr Cons [of current] by (fastforce simp: accept_on_def handed_def created_def)
    next
      case (Inr fresh)
      then show ?thesis using \<open>ae_connect env = Inr u\<close> Cons [of fresh]
        by (fastforce simp: accept_on_def handed_def created_def)
    qed
  qed
qed

section \<open>Theorems\<close>

text \<open>
  C36. On Windows the accept loop hands out each pipe instance once: the instances given to sessions,
  followed by the one the listener waits on at the end, are the first instance followed by the
  created ones, in that order. So a client that has connected keeps its instance when the creation of
  the next one fails (the next accept hands it out), no instance is given to two sessions as long as
  the system creates distinct ones, and the instance the listener waits on is given to none. Every
  answer is met by a session or a pause: no error ends the loop.
\<close>

theorem accept_loop_instances:
  assumes "distinct (current # created envs)"
  shows "\<exists>fx last. accept_loop PlatWindows envs (NamedPipeListener current name) = (fx, NamedPipeListener last name) \<and>
     length fx = length envs \<and> handed fx @ [last] = current # created envs \<and>
     distinct (handed fx) \<and> last \<notin> set (handed fx)"
proof -
  obtain fx last where *: "accept_loop PlatWindows envs (NamedPipeListener current name) = (fx, NamedPipeListener last name)"
    "length fx = length envs" "handed fx @ [last] = current # created envs"
    using accept_loop_pipe by blast
  have "distinct (handed fx @ [last])" unfolding *(3) by (rule assms)
  then have "distinct (handed fx)" "last \<notin> set (handed fx)" by simp_all
  with * show ?thesis by blast
qed

theorem accept_loop_instances_witness:
  "\<exists>fx last. accept_loop PlatWindows demo_accepts (NamedPipeListener 0 ''bus'') = (fx, NamedPipeListener last ''bus'') \<and>
     handed fx = [0, 1] \<and> last = 2 \<and> length fx = 3"
proof -
  have "created demo_accepts = [1, 2]" by (simp add: created_def demo_accepts_def)
  then show ?thesis
    using accept_loop_instances [of 0 demo_accepts "''bus''"] by (auto simp: demo_accepts_def append_eq_Cons_conv)
qed

end
