(* ===== verification/Spec2Isabelle.thy ===== *)
theory Spec2Isabelle
  imports Codec Event_Order Fairness Wire Oversized Host Repo_Tests Rpc_Spec Tables Capabilities Child_Output Listen Listener Auth Cli
begin

text \<open>
  A model of tokimo-bus, the local RPC bus of Tokimo, and the theorems that make it correct.

  \<^bold>\<open>The program.\<close> A host process runs a \<^emph>\<open>broker\<close> (\<open>crates/broker\<close>) that listens on a Unix socket or
  a named pipe, and a \<^emph>\<open>supervisor\<close> (\<open>crates/supervisor\<close>) that starts app processes. Each app links
  the \<^emph>\<open>client\<close> (\<open>crates/client\<close>), which reads the socket and a one-time token from its environment,
  dials the broker and sends a hello frame with its service name and methods. The broker checks
  the protocol version and the token, registers the service under a fresh generation, and from
  then on routes frames: an \<open>Invoke\<close> of one app becomes a call that the broker makes to the app that
  provides the service, with a request id of its own, and the response goes back to the caller; an
  event goes to every app subscribed to its topic. Frames and errors are those of
  \<open>crates/protocol\<close>, which also holds the codec and the transports. \<open>crates/auth\<close> is the
  authentication the apps' HTTP servers use, \<open>crates/cli\<close> what their command lines share.

  \<^bold>\<open>The theories, by source file.\<close>
  \<^item> \<open>Prelude\<close>: machine integers, durations, hash maps as association lists (contract \<open>keyed_map\<close>),
    the string functions of the standard library that the code calls, and the interfaces of
    transition systems: \<open>step_system\<close> (runs), \<open>guarded_system\<close> (an invariant that each step keeps up
    to a horizon), \<open>metered_system\<close> (a quantity bounded by an account along a run) and
    \<open>budgeted_system\<close> (a quantity that steps spend from an allowance).
  \<^item> \<open>Frames\<close>: \<open>protocol/src/frame.rs\<close>, the wire types, the texts of the errors, the serde helper of
    durations.
  \<^item> \<open>Codec\<close>: \<open>protocol/src/codec.rs\<close>, the length-prefixed frames on a byte stream, with the two loops
    of \<open>client/src/client.rs\<close> that read and write sequences of them.
  \<^item> \<open>Registry\<close>: \<open>broker/src/registry.rs\<close>; the contract \<open>service_directory\<close> is what the sessions rely
    on, and \<open>dir\<close> interprets it on the registry's functions.
  \<^item> \<open>Broker\<close>: \<open>broker/src/broker.rs\<close>, one function per method of \<open>Broker\<close>; \<open>call_with_timeout\<close> is
    cut at its await into \<open>call_begin\<close> and \<open>call_resume\<close>. \<open>Listen\<close> is how it takes its socket.
  \<^item> \<open>Session\<close>: \<open>broker/src/session.rs\<close>, the task that serves a connection, and the system \<open>bus_exec\<close>
    of all connections and calls.
  \<^item> \<open>Connections\<close>, \<open>Calls\<close>, \<open>Delivery\<close>: the invariant of the bus in three parts (who is connected,
    which calls wait for what, which frames are in the outbound channels); \<open>Bus_Theorems\<close>: the
    theorems that follow for every run.
  \<^item> \<open>Tables\<close>: the well-formedness of the broker's tables, an invariant of its own. \<open>Capabilities\<close>: the
    cache of capabilities and the service it describes.
  \<^item> \<open>Rpc_Spec\<close>: what the bus promises for its calls, as an abstract system \<open>rpc_step\<close> of providers and
    calls without tables, ids or channels; \<open>rpc_of\<close> maps each state of the bus to a state of it, and
    the contract \<open>simulation\<close> is interpreted on the two systems.
  \<^item> \<open>Trace\<close>, \<open>Network\<close>: the broker and all its apps as one system \<open>net_exec\<close>, joined by channels of
    frames, with the log of what was asked, relayed, handled and answered. \<open>At_Most_Once\<close> counts how
    often a call runs in it, \<open>Event_Order\<close> follows the events from publisher to subscriber,
    \<open>Progress\<close> follows a call until it ends. \<open>Wire\<close> puts the codec on byte streams in the place of the
    channels, \<open>Oversized\<close> follows there the call whose request is over the size limit.
  \<^item> \<open>Fair_Runs\<close>, \<open>Fairness\<close>: runs that serve every demand within a number of steps. The contract
    \<open>fair_system\<close> has the rules for what they reach; \<open>fair\<close> interprets it on \<open>net_exec\<close>.
  \<^item> \<open>Transport\<close>: \<open>protocol/src/transport.rs\<close>; the contract \<open>retry_loop\<close> gives the bound of a loop
    that retries until a deadline, interpreted on \<open>connect_loop\<close> here and on \<open>dial_loop\<close> in
    \<open>Client_Theorems\<close>. \<open>Listener\<close>: its accepting side and the delegation of streams, the accept loop of
    \<open>broker/src/broker.rs\<close> and the one of \<open>protocol/src/axum_listener.rs\<close>.
  \<^item> \<open>Client_Config\<close>: \<open>client/src/config.rs\<close> and \<open>client/src/transport.rs\<close>.
  \<^item> \<open>Client\<close>, \<open>Client_Theorems\<close>: \<open>client/src/builder.rs\<close>, \<open>client/src/client.rs\<close> and
    \<open>protocol/src/task_local.rs\<close>.
  \<^item> \<open>Supervisor\<close>: \<open>supervisor/src/lib.rs\<close>; \<open>Child_Output\<close>: what it does around a child process, the
    hook before \<open>exec\<close> and the forwarding of output lines. \<open>Host\<close>: the supervisor and \<open>Network\<close>
    around the one broker they share, as the system \<open>host_exec\<close>.
  \<^item> \<open>Auth\<close>: \<open>auth/src/axum.rs\<close> and \<open>auth/src/db.rs\<close>.
  \<^item> \<open>Cli\<close>: \<open>cli/src/args.rs\<close>, \<open>cli/src/help.rs\<close> and \<open>cli/src/manifest.rs\<close>.
  \<^item> \<open>Repo_Tests\<close>: the repository's unit tests (the \<open>tests\<close> modules of these files) and end-to-end
    tests (\<open>broker/tests/e2e.rs\<close>), run on the model.

  \<^bold>\<open>State and concurrency.\<close> Every struct is a record and every method a function on it. The code is
  asynchronous: what runs between two awaits is one action, performed by \<open>bus_exec\<close>, \<open>app_exec\<close> or
  \<open>sup_exec\<close> (together by \<open>net_exec\<close> and \<open>host_exec\<close>) where it is enabled; a run is a list of actions, in any order, so the theorems cover
  every interleaving at awaits. Operations on different shards of a \<open>DashMap\<close> made by other threads
  in the middle of such a block are not interleaved. What the environment decides is the argument
  of an action (a frame that arrives, a write that fails, a timer, an exit status), or a parameter
  (the clock, the process id, the serializer, the JSON decoder). Locks are granted in any order.
  Objects shared by \<open>Arc\<close> are addresses into a store (connections, app states, children), so that
  the code's aliasing is the model's: a state removed from the supervisor's map lives on while a
  resident loop holds it.

  \<^bold>\<open>Bounds.\<close> Generation and request counters are 64 bit words. The invariants are proved for runs of
  at most \<open>2 ^ 64 - 2\<close> actions: an action advances a counter at most once, so within that horizon no
  counter returns to a value it had. Loops that retry until a deadline carry fuel: 101 rounds for
  \<open>stream_connect\<close> (a window of 5 s, pauses of 50 ms, the last attempt), 35 for \<open>dial\<close> (pauses that
  double up to the configured maximum, 30 s in all); the theorems prove that they return within it.
  Fairness is counted in steps: a demand is served in every window of \<open>D\<close> steps that it lasts, for any
  \<open>D\<close>, and a running timer is one of them. \<open>patience\<close> is the number of steps a call is given: \<open>2 * D\<close>
  for each frame before its request, and for each that is, or comes to be, before its answer.

  \<^bold>\<open>What is shown.\<close>
  \<^item> Wire: a sequence of frames is read back as written, a stream cut anywhere gives a prefix of the
    frames and then an error or the end, and no frame over the limit is written or accepted. With
    the codec on byte streams, written and cut in any way, broker and apps do what they do with
    channels of frames. One frame over the limit silences its connection, which stays registered;
    an app's call whose request is over the limit waits for ever.
  \<^item> Admission: which hellos are accepted, that each token admits one connection, that a wrong token
    or service name burns the token, that the supervisor's processes are admitted.
  \<^item> Routing: a service's calls go to its newest connection, a stale teardown leaves the successor in
    place, a method that needs a user is never called without one, caller ids are the broker's.
  \<^item> Calls: responses reach the call that made the request and no other, on both sides; a call that
    times out leaves no entry; which calls can hang, and that the branch for a dropped sender cannot
    be reached on the broker.
  \<^item> Composition: a result that an app receives was produced by a handler of the service and method
    it asked for, on the payload it sent and for the caller it has; for a call at most one handler is
    started, once; the bus refines its abstract specification, which says which calls are sent,
    refused and finished with what; a call that has ended keeps its result;
    a waiting call of a connected app is always on its way, can be brought to its end without any
    step of the called service, and is brought there by every schedule that lets no reader, writer,
    task, timer or await wait for more than a given number of steps, unless its connection goes down.
  \<^item> Events: a published event is queued once for each subscribed connection and for no other; what
    an app receives of a connection's publications it receives in their order, once each, and with
    the name of their service. The order of events of different publishers is not claimed.
  \<^item> Processes: at most one running process for each app state, the sequence of back-offs, a resident
    app's lock held for the life of its process (so a stop waits for it to exit), the second loop
    that replacing a resident app leaves running, a shutdown that arrives before the app waits for it.
  \<^item> The host: its runs are runs of the network; each accepted connection is one spawn of an app of
    its service; a resident app that dies is started again and its new process takes the service.
  \<^item> The repository's own tests pass on the model.
  \<^item> Output: the lines of a child are forwarded in order, up to the first that is not UTF-8; the
    descriptions of a help page are aligned.
  \<^item> Configuration, sockets, accepting and authentication: round trips, case analyses, and that no
    pipe instance is handed to two sessions.

  \<^bold>\<open>Not modelled.\<close> Logging and printing as effects: what is printed is a list of lines, what is
  logged has no effect on the state. Code that is not in the repository is a parameter: the
  serializer and the JSON and TOML parsers, the database driver (\<open>verify_token\<close> has its query,
  \<open>connect_db\<close> its connection), the poll functions of the platform's streams, the Unicode table of
  upper-case letters; a command of \<open>clap\<close> is the tree of what its getters return. Getters that return
  a field have no definition of their own. In \<open>Network\<close> every peer of the broker is an app of the
  client library and a connection is a pair of channels of frames, which \<open>Wire\<close> refines to streams of
  bytes; the hello alone is taken as a frame in both. In \<open>Host\<close> a process and the connection it makes are joined by the token
  alone: what a process does between its start and its hello is not modelled.

  \<^bold>\<open>Order of work.\<close> Protocol, broker, client, supervisor, authentication and command line, each with
  its operations before its theorems; then the composition of broker, apps and supervisor, first over
  channels of frames, then over bytes; then fair schedules; then the tests.

  This theory holds the theorems that join components: a process started by the supervisor is
  admitted by the broker, and a call travels through broker, codec, app and back.
\<close>

section \<open>Definitions\<close>

text \<open>What the reader of the peer makes of one frame that a writer task has written.\<close>

definition over_the_wire ::
  "(bus_frame \<Rightarrow> string + bytes) \<Rightarrow> (bytes \<Rightarrow> string + bus_frame) \<Rightarrow> string \<Rightarrow> bus_frame \<Rightarrow> bus_frame list \<times> bus_error option" where
  "over_the_wire enc dec msg f =
     read_frames dec (eof_reader (wr_out (snd (write_frames enc [f] fresh_writer))) msg)"

definition demo_invoke :: invoke where
  "demo_invoke = \<lparr>inv_req_id = 1, inv_method = ''save'', inv_payload = [1], inv_caller = demo_caller\<rparr>"

definition demo_response :: response where
  "demo_response = \<lparr>rsp_req_id = 1, rsp_result = Inr [9]\<rparr>"

definition demo_enc :: "bus_frame \<Rightarrow> string + bytes" where
  "demo_enc f =
     (if f = Invoke demo_invoke then Inr [1] else if f = Response demo_response then Inr [2]
      else Inl ''unsupported'')"

definition demo_dec :: "bytes \<Rightarrow> string + bus_frame" where
  "demo_dec bs =
     (if bs = [1] then Inr (Invoke demo_invoke) else if bs = [2] then Inr (Response demo_response)
      else Inl ''unsupported'')"

definition demo_echo :: app where
  "demo_echo = app_start ((demo_client None)\<lparr>bk_service := ''echo'', bk_handlers := [(''save'', 0)]\<rparr>) 0"

section \<open>Lemmas\<close>

lemma over_the_wire_id:
  assumes "serde_roundtrip enc dec" "fits_frame enc f"
  shows "over_the_wire enc dec msg f = ([f], None)"
proof -
  from assms(2) have "\<forall>v \<in> set [f]. fits_frame enc v" by simp
  from write_frames_ok [OF this, of fresh_writer] assms this show ?thesis
    by (auto simp: over_the_wire_def fresh_writer_def eof_reader_def intro!: read_frames_all)
qed

lemma spawned_config:
  assumes "''TOKIMO_BUS_SOCKET'' \<notin> fst ` set (sp_env spec)" "''TOKIMO_BUS_TOKEN'' \<notin> fst ` set (sp_env spec)"
    "''TOKIMO_BUS_IDLE_MS'' \<notin> fst ` set (sp_env spec)"
  shows "config_from_env plat (dm_get (cmd_env (spawn_command endpoint token spec))) =
    Inr \<lparr>cfg_endpoint = parse_endpoint plat endpoint, cfg_auth_token = token,
         cfg_reconnect_max_backoff = Some (duration_from_secs 30),
         cfg_idle_exit = (if idle_ms (sp_lifecycle spec) = 0 then None
                          else Some (duration_from_millis (unat (idle_ms (sp_lifecycle spec)))))\<rparr>"
  using spawn_command_env [OF assms, of endpoint token]
  by (simp add: config_from_env_def idle_ms_of_shown Let_def)

lemma spawn_once_started:
  assumes "spawn_once ns pid None r st s = (Inr u, t)"
  shows "sv_broker t = fst (issue_token ns pid (sv_token_counter s) (sp_service (as_spec st)) (sv_broker s))"
    "sv_children t (sv_n_children s) =
       Some \<lparr>ch_app = r, ch_command = spawn_command (sv_bus_endpoint s)
               (random_token ns pid (sv_token_counter s)) (as_spec st), ch_status = ChildRunning\<rparr>"
  using assms by (auto simp: spawn_once_def issue_token_def Let_def upd_state_def)

lemma build_hello_fields:
  "build_hello pid bld = Inr hello \<Longrightarrow> cb_service bld = Some (service, version) \<Longrightarrow>
   hr_service hello = service \<and> hr_auth_token hello = cfg_auth_token (cb_cfg bld) \<and> hr_protocol hello = PROTOCOL_CURRENT"
  by (auto simp: build_hello_def split: option.splits)

section \<open>Theorems across components\<close>

text \<open>
  C14. The broker admits the processes that the supervisor starts: a process started for an app
  whose own environment does not set the bus variables reads from its environment the socket the
  broker listens on and the token just issued for its service, and any hello that it builds under
  its service name is accepted by the broker. Its idle threshold is that of its lifecycle in whole
  milliseconds, and none for a resident app.
\<close>

theorem spawned_app_admitted:
  assumes spawn: "spawn_once ns pid None r st s = (Inr u, t)"
    and env: "''TOKIMO_BUS_SOCKET'' \<notin> fst ` set (sp_env (as_spec st))"
      "''TOKIMO_BUS_TOKEN'' \<notin> fst ` set (sp_env (as_spec st))"
      "''TOKIMO_BUS_IDLE_MS'' \<notin> fst ` set (sp_env (as_spec st))"
    and socket: "sv_bus_endpoint s = display_name socket"
      "(plat = PlatUnix \<and> (\<exists>path. socket = UnixSock path)) \<or> (plat = PlatWindows \<and> (\<exists>name. socket = NamedPipe name))"
  shows "\<exists>ch cfg. sv_children t (sv_n_children s) = Some ch \<and>
    config_from_env plat (dm_get (cmd_env (ch_command ch))) = Inr cfg \<and>
    endpoint_to_socket (cfg_endpoint cfg) = socket \<and>
    cfg_idle_exit cfg =
      (case sp_lifecycle (as_spec st) of
         Resident \<Rightarrow> None
       | OnDemand d \<Rightarrow>
           (if as_millis_u64 d = 0 then None else Some (duration_from_millis (unat (as_millis_u64 d))))) \<and>
    (\<forall>bld version cpid hello c.
       cb_cfg bld = cfg \<and> cb_service bld = Some (sp_service (as_spec st), version) \<and>
       build_hello cpid bld = Inr hello \<longrightarrow>
       (\<exists>b k. serve_handshake c (Inr (Some (Hello hello))) (sv_broker t) = (b, HsAccepted k)))"
proof -
  let ?token = "random_token ns pid (sv_token_counter s)"
  note started = spawn_once_started [OF spawn]
  note config = spawned_config [OF env, of plat "sv_bus_endpoint s" ?token]
  let ?cfg = "\<lparr>cfg_endpoint = parse_endpoint plat (sv_bus_endpoint s), cfg_auth_token = ?token,
         cfg_reconnect_max_backoff = Some (duration_from_secs 30),
         cfg_idle_exit = (if idle_ms (sp_lifecycle (as_spec st)) = 0 then None
                          else Some (duration_from_millis (unat (idle_ms (sp_lifecycle (as_spec st))))))\<rparr>"
  have "endpoint_to_socket (cfg_endpoint ?cfg) = socket"
    using endpoint_of_display [of socket plat] socket by auto
  moreover have "cfg_idle_exit ?cfg = (case sp_lifecycle (as_spec st) of Resident \<Rightarrow> None
       | OnDemand d \<Rightarrow> (if as_millis_u64 d = 0 then None else Some (duration_from_millis (unat (as_millis_u64 d)))))"
    by (simp add: idle_ms_def split: lifecycle.splits)
  moreover have "\<exists>b k. serve_handshake c (Inr (Some (Hello hello))) (sv_broker t) = (b, HsAccepted k)"
    if "cb_cfg bld = ?cfg" "cb_service bld = Some (sp_service (as_spec st), version)" "build_hello cpid bld = Inr hello"
    for bld version cpid hello c
    using build_hello_fields [OF that(3,2)] that(1) started(1)
    by (simp add: serve_handshake_def consume_token_def next_client_id_def issue_token_def Let_def split: prod.splits)
  ultimately show ?thesis using started(2) config by (intro exI [of _ "\<lparr>ch_app = r, ch_command = spawn_command (sv_bus_endpoint s)
      ?token (as_spec st), ch_status = ChildRunning\<rparr>"] exI [of _ ?cfg]) auto
qed

theorem spawned_app_admitted_witness:
  "\<exists>t ch cfg. spawn_once 5 7 None 0 \<lparr>as_spec = demo_app, as_child = None, as_backoff = backoff_new,
         as_last_spawn = None, as_holder = None\<rparr>
         (sup_register demo_app (supervisor_new (broker_new broker_config_default) ''/run/bus'')) = (Inr (), t) \<and>
     sv_children t 0 = Some ch \<and> config_from_env PlatUnix (dm_get (cmd_env (ch_command ch))) = Inr cfg \<and>
     endpoint_to_socket (cfg_endpoint cfg) = UnixSock ''/run/bus''"
proof -
  let ?st = "\<lparr>as_spec = demo_app, as_child = None, as_backoff = backoff_new, as_last_spawn = None, as_holder = None\<rparr>"
  let ?s = "sup_register demo_app (supervisor_new (broker_new broker_config_default) ''/run/bus'')"
  obtain t where t: "spawn_once 5 7 None 0 ?st ?s = (Inr (), t)"
    by (auto simp: spawn_once_def issue_token_def Let_def)
  have "sp_env (as_spec ?st) = []" "sv_bus_endpoint ?s = display_name (UnixSock ''/run/bus'')" "sv_n_children ?s = 0"
    by (simp_all add: demo_app_def sup_register_def supervisor_new_def)
  with spawned_app_admitted [OF t, of "UnixSock ''/run/bus''" PlatUnix] t show ?thesis by auto
qed



end
